(* ===== verification/Mg_Prelude.thy ===== *)
theory Mg_Prelude
  imports Main "HOL-Library.Monad_Syntax" "HOL-Library.Word" "HOL-Library.Multiset"
begin

text \<open>
  Shared vocabulary of the development: C pointers and the typed heaps they point into, the
  accesses \<open>p->field\<close> (a read or a write through a pointer, \<^term>\<open>None\<close> when the pointer is
  null or does not point to an object), byte regions and their disjointness, and the generic
  lemmas on maps, lists and options that the component proofs share.
\<close>

section \<open>Collections\<close>

named_theorems heap_simps \<open>rewrite rules for reads and writes through pointers\<close>

named_theorems region_simps \<open>definitions and rules for byte regions\<close>

section \<open>Pointers and typed heaps\<close>

text \<open>
  A pointer is an address; address 0 is the null pointer. A typed heap maps the addresses of the
  live objects of one struct type to their contents. A C statement that follows a pointer fails
  (\<^term>\<open>None\<close>) when the pointer is null or dangling, which is the undefined behaviour of the
  source made visible.
\<close>

type_synonym addr = nat

type_synonym 'n heap = "addr \<Rightarrow> 'n option"

abbreviation NULL :: addr where
  "NULL \<equiv> 0"

definition load :: "'n heap \<Rightarrow> addr \<Rightarrow> 'n option" where
  "load h p = (if p = NULL then None else h p)"

definition modify :: "addr \<Rightarrow> ('n \<Rightarrow> 'n) \<Rightarrow> 'n heap \<Rightarrow> 'n heap option" where
  "modify p f h = map_option (\<lambda>n. h(p \<mapsto> f n)) (load h p)"

text \<open>Reading one field through a pointer.\<close>

definition field :: "('n \<Rightarrow> 'f) \<Rightarrow> 'n heap \<Rightarrow> addr \<Rightarrow> 'f option" where
  "field g h p = map_option g (load h p)"

lemma load_Some [heap_simps]: "load h p = Some n \<longleftrightarrow> p \<noteq> NULL \<and> h p = Some n"
  by (simp add: load_def)

lemma load_null [simp]: "load h NULL = None"
  by (simp add: load_def)

lemma load_eq [simp]: "h p = Some n \<Longrightarrow> p \<noteq> NULL \<Longrightarrow> load h p = Some n"
  by (simp add: load_def)

lemma load_upd [simp]: "load (h(p \<mapsto> n)) q = (if q = p \<and> p \<noteq> NULL then Some n else load h q)"
  by (auto simp: load_def)

lemma field_eq [simp]: "h p = Some n \<Longrightarrow> p \<noteq> NULL \<Longrightarrow> field g h p = Some (g n)"
  by (simp add: field_def)

lemma field_null [simp]: "field g h NULL = None"
  by (simp add: field_def)

lemma field_Some [heap_simps]: "field g h p = Some v \<longleftrightarrow> p \<noteq> NULL \<and> (\<exists>n. h p = Some n \<and> v = g n)"
  by (auto simp: field_def load_def)

lemma field_upd [simp]:
  "field g (h(p \<mapsto> n)) q = (if q = p \<and> p \<noteq> NULL then Some (g n) else field g h q)"
  by (auto simp: field_def)

lemma modify_eq [simp]: "h p = Some n \<Longrightarrow> p \<noteq> NULL \<Longrightarrow> modify p f h = Some (h(p \<mapsto> f n))"
  by (simp add: modify_def)

lemma modify_null [simp]: "modify NULL f h = None"
  by (simp add: modify_def)

lemma modify_Some [heap_simps]:
  "modify p f h = Some h' \<longleftrightarrow> p \<noteq> NULL \<and> (\<exists>n. h p = Some n \<and> h' = h(p \<mapsto> f n))"
  by (auto simp: modify_def load_def)

lemma modify_dangling: "h p = None \<Longrightarrow> modify p f h = None"
  by (simp add: modify_def load_def)

lemma modify_dom: "modify p f h = Some h' \<Longrightarrow> dom h' = dom h"
  by (auto simp: modify_Some split: if_splits)

section \<open>Byte regions\<close>

text \<open>A region is a start address and a size in bytes.\<close>

type_synonym region = "addr \<times> nat"

fun region_bytes :: "region \<Rightarrow> addr set" where
  "region_bytes (a, n) = {a ..< a + n}"

definition disjoint_regions :: "region \<Rightarrow> region \<Rightarrow> bool" where
  "disjoint_regions r s \<longleftrightarrow>
     fst r + snd r \<le> fst s \<or> fst s + snd s \<le> fst r \<or> snd r = 0 \<or> snd s = 0"

definition subregion :: "region \<Rightarrow> region \<Rightarrow> bool" where
  "subregion r s \<longleftrightarrow> fst s \<le> fst r \<and> fst r + snd r \<le> fst s + snd s"

lemma disjoint_regions_bytes:
  "disjoint_regions r s \<longleftrightarrow> region_bytes r \<inter> region_bytes s = {}"
  by (cases r; cases s) (auto simp: disjoint_regions_def)

lemma disjoint_regions_sym: "disjoint_regions r s \<longleftrightarrow> disjoint_regions s r"
  by (auto simp: disjoint_regions_def)

lemma subregion_bytes: "subregion r s \<Longrightarrow> region_bytes r \<subseteq> region_bytes s"
  by (cases r; cases s) (auto simp: subregion_def)

lemma subregion_disjoint:
  "subregion r s \<Longrightarrow> disjoint_regions s t \<Longrightarrow> disjoint_regions r t"
  by (auto simp: subregion_def disjoint_regions_def)

lemma subregion_trans: "subregion r s \<Longrightarrow> subregion s t \<Longrightarrow> subregion r t"
  by (auto simp: subregion_def)

lemma subregion_within: "subregion r s \<Longrightarrow> list_ex (subregion s) bs \<Longrightarrow> list_ex (subregion r) bs"
  by (auto simp: list_ex_iff intro: subregion_trans)

fun pairwise_disjoint :: "region list \<Rightarrow> bool" where
  "pairwise_disjoint [] = True"
| "pairwise_disjoint (r # rs) = (list_all (disjoint_regions r) rs \<and> pairwise_disjoint rs)"

section \<open>Options\<close>

lemma map_option_self: "(\<And>n. x = Some n \<Longrightarrow> f n = n) \<Longrightarrow> x = map_option f x"
  by (cases x) auto

lemma bind_Some_iff: "Option.bind m f = Some y \<longleftrightarrow> (\<exists>x. m = Some x \<and> f x = Some y)"
  by (cases m) auto

section \<open>Running a list of steps\<close>

fun fold_opt :: "('a \<Rightarrow> 's \<Rightarrow> 's option) \<Rightarrow> 'a list \<Rightarrow> 's \<Rightarrow> 's option" where
  "fold_opt f [] s = Some s"
| "fold_opt f (x # xs) s = Option.bind (f x s) (fold_opt f xs)"

lemma fold_opt_append: "fold_opt f (xs @ ys) s = Option.bind (fold_opt f xs s) (fold_opt f ys)"
  by (induction xs arbitrary: s) (auto simp: bind_assoc intro: Option.bind_cong)

lemma fold_opt_inv:
  assumes "fold_opt f xs s = Some s'" "I s" "\<And>x a b. x \<in> set xs \<Longrightarrow> I a \<Longrightarrow> f x a = Some b \<Longrightarrow> I b"
  shows "I s'"
  using assms by (induction xs arbitrary: s) (auto simp: bind_Some_iff)

end
