(* ===== verification/Mg_List.thy ===== *)
theory Mg_List
  imports Mg_Prelude
begin

text \<open>
  The intrusive circular doubly linked list of \<^verbatim>\<open>core/mg_list.h\<close> and \<^verbatim>\<open>core/mg_list.c\<close>. The
  nodes are the objects of a typed heap; every operation is the sequence of pointer assignments
  of the source. The abstraction \<open>ring h l xs\<close> says that the list head \<open>l\<close> and the elements
  \<open>xs\<close> form one ring in both directions; each operation is shown to act on \<open>xs\<close> as the
  corresponding list operation, and the contract is packaged as the interface \<open>ring_list\<close>.
\<close>

section \<open>Data and operations\<close>

record mg_list =
  l_prev :: addr
  l_next :: addr

type_synonym lheap = "mg_list heap"

definition init_list :: "addr \<Rightarrow> lheap \<Rightarrow> lheap option" where
  "init_list l h = do {
     h \<leftarrow> modify l (l_next_update (\<lambda>_. l)) h;
     modify l (l_prev_update (\<lambda>_. l)) h }"

definition insert_list_front :: "addr \<Rightarrow> addr \<Rightarrow> lheap \<Rightarrow> lheap option" where
  "insert_list_front e l h = do {
     h \<leftarrow> modify e (l_next_update (\<lambda>_. l)) h;
     lp \<leftarrow> field l_prev h l;
     h \<leftarrow> modify e (l_prev_update (\<lambda>_. lp)) h;
     lp \<leftarrow> field l_prev h l;
     h \<leftarrow> modify lp (l_next_update (\<lambda>_. e)) h;
     modify l (l_prev_update (\<lambda>_. e)) h }"

definition insert_list_end :: "addr \<Rightarrow> addr \<Rightarrow> lheap \<Rightarrow> lheap option" where
  "insert_list_end e l h = do {
     ln \<leftarrow> field l_next h l;
     h \<leftarrow> modify e (l_next_update (\<lambda>_. ln)) h;
     h \<leftarrow> modify e (l_prev_update (\<lambda>_. l)) h;
     ln \<leftarrow> field l_next h l;
     h \<leftarrow> modify ln (l_prev_update (\<lambda>_. e)) h;
     modify l (l_next_update (\<lambda>_. e)) h }"

definition remove_list_node :: "addr \<Rightarrow> bool \<Rightarrow> lheap \<Rightarrow> lheap option" where
  "remove_list_node e cleanup h = do {
     ep \<leftarrow> field l_prev h e;
     en \<leftarrow> field l_next h e;
     h \<leftarrow> modify ep (l_next_update (\<lambda>_. en)) h;
     en \<leftarrow> field l_next h e;
     ep \<leftarrow> field l_prev h e;
     h \<leftarrow> modify en (l_prev_update (\<lambda>_. ep)) h;
     (if cleanup then init_list e h else Some h) }"

definition list_head :: "addr \<Rightarrow> lheap \<Rightarrow> addr option" where
  "list_head l h = field l_next h l"

definition list_tail :: "addr \<Rightarrow> lheap \<Rightarrow> addr option" where
  "list_tail l h = field l_prev h l"

text \<open>The macros of the header.\<close>

definition MG_LIST_EMPTY :: "addr \<Rightarrow> lheap \<Rightarrow> bool option" where
  "MG_LIST_EMPTY l h = map_option (\<lambda>p. l = p) (field l_prev h l)"

definition MG_LIST_PUSH_BACK :: "addr \<Rightarrow> addr \<Rightarrow> lheap \<Rightarrow> lheap option" where
  "MG_LIST_PUSH_BACK e l h = insert_list_end e l h"

definition MG_LIST_PUSH_FRONT :: "addr \<Rightarrow> addr \<Rightarrow> lheap \<Rightarrow> lheap option" where
  "MG_LIST_PUSH_FRONT e l h = insert_list_front e l h"

definition MG_LIST_DELETE :: "addr \<Rightarrow> bool \<Rightarrow> lheap \<Rightarrow> lheap option" where
  "MG_LIST_DELETE e cleanup h = remove_list_node e cleanup h"

definition MG_LIST_STATIC_INIT :: "addr \<Rightarrow> mg_list" where
  "MG_LIST_STATIC_INIT l = \<lparr>l_prev = l, l_next = l\<rparr>"

section \<open>Rings\<close>

text \<open>\<open>link h a b\<close>: \<open>b\<close> follows \<open>a\<close> and \<open>a\<close> precedes \<open>b\<close>.\<close>

definition link :: "lheap \<Rightarrow> addr \<Rightarrow> addr \<Rightarrow> bool" where
  "link h a b \<longleftrightarrow> map_option l_next (h a) = Some b \<and> map_option l_prev (h b) = Some a"

fun chain :: "lheap \<Rightarrow> addr list \<Rightarrow> bool" where
  "chain h (a # b # xs) = (link h a b \<and> chain h (b # xs))"
| "chain h _ = True"

definition ring :: "lheap \<Rightarrow> addr \<Rightarrow> addr list \<Rightarrow> bool" where
  "ring h l xs \<longleftrightarrow> distinct (l # xs) \<and> NULL \<notin> set (l # xs) \<and> chain h (l # xs @ [l])"

lemma chain_append: "chain h (xs @ y # ys) \<longleftrightarrow> chain h (xs @ [y]) \<and> chain h (y # ys)"
proof (induction xs)
  case Nil
  then show ?case by simp
next
  case (Cons x xs)
  then show ?case by (cases xs) auto
qed

lemma chain_cong:
  assumes "\<And>a. a \<in> set (butlast xs) \<Longrightarrow> map_option l_next (h' a) = map_option l_next (h a)"
    and "\<And>a. a \<in> set (tl xs) \<Longrightarrow> map_option l_prev (h' a) = map_option l_prev (h a)"
  shows "chain h' xs = chain h xs"
  using assms
proof (induction h xs rule: chain.induct)
  case (1 h a b xs)
  have "chain h' (b # xs) = chain h (b # xs)"
    using "1.prems" by (intro "1.IH") (auto split: if_splits)
  with "1.prems" show ?case by (auto simp: link_def)
qed auto

lemma ring_nil: "ring h l [] \<longleftrightarrow> l \<noteq> NULL \<and> link h l l"
  by (auto simp: ring_def)

lemma linkE:
  assumes "link h a b"
  obtains m n where "h a = Some m" "l_next m = b" "h b = Some n" "l_prev n = a"
  using assms by (auto simp: link_def)

text \<open>
  The one structural fact behind both insertions: an edge \<open>a \<rightarrow> b\<close> of the ring is replaced by
  \<open>a \<rightarrow> e \<rightarrow> b\<close>. Only the \<open>next\<close> field of \<open>a\<close>, the \<open>prev\<close> field of \<open>b\<close> and the node
  \<open>e\<close> change.
\<close>

lemma chain_splice:
  assumes chain: "chain h (xs @ a # b # ys)"
    and nx: "\<And>c. c \<noteq> a \<Longrightarrow> c \<noteq> e \<Longrightarrow> map_option l_next (h' c) = map_option l_next (h c)"
    and pv: "\<And>c. c \<noteq> b \<Longrightarrow> c \<noteq> e \<Longrightarrow> map_option l_prev (h' c) = map_option l_prev (h c)"
    and links: "link h' a e" "link h' e b"
    and a: "a \<notin> set xs" "a \<notin> set (butlast (b # ys))"
    and b: "b \<notin> set (tl (xs @ [a]))" "b \<notin> set ys"
    and e: "e \<notin> set (xs @ a # b # ys)"
  shows "chain h' (xs @ a # e # b # ys)"
proof -
  from chain have l: "chain h (xs @ [a])" and r: "chain h (b # ys)"
    using chain_append [of h xs a "b # ys"] by auto
  have "chain h' (xs @ [a]) = chain h (xs @ [a])"
    using a b e by (intro chain_cong nx pv) (auto simp: butlast_append dest: list.set_sel(2) [rotated])
  moreover have "chain h' (b # ys) = chain h (b # ys)"
    using a b e by (intro chain_cong nx pv) (auto dest: in_set_butlastD split: if_splits)
  ultimately show ?thesis
    using l r links chain_append [of h' xs a "e # b # ys"] by auto
qed

text \<open>What one insertion between the neighbours \<open>a\<close> and \<open>b\<close> leaves in the heap.\<close>

definition spliced :: "lheap \<Rightarrow> lheap \<Rightarrow> addr \<Rightarrow> addr \<Rightarrow> addr \<Rightarrow> bool" where
  "spliced h h' a e b \<longleftrightarrow> link h' a e \<and> link h' e b \<and> dom h' = dom h \<and>
     (\<forall>c. c \<noteq> a \<longrightarrow> c \<noteq> e \<longrightarrow> map_option l_next (h' c) = map_option l_next (h c)) \<and>
     (\<forall>c. c \<noteq> b \<longrightarrow> c \<noteq> e \<longrightarrow> map_option l_prev (h' c) = map_option l_prev (h c)) \<and>
     (\<forall>c. c \<noteq> a \<longrightarrow> c \<noteq> b \<longrightarrow> c \<noteq> e \<longrightarrow> h' c = h c)"

lemma insert_list_end_spliced:
  assumes "e \<in> dom h" "e \<noteq> NULL" "link h l b" "l \<noteq> NULL" "b \<noteq> NULL" "e \<noteq> l" "e \<noteq> b"
  shows "\<exists>h'. insert_list_end e l h = Some h' \<and> spliced h h' l e b"
proof -
  from assms obtain n m k where "h e = Some n" "h l = Some m" "l_next m = b" "h b = Some k" "l_prev k = l"
    by (auto elim: linkE)
  with assms show ?thesis
    by (cases "b = l") (auto simp: insert_list_end_def spliced_def link_def)
qed

lemma insert_list_front_spliced:
  assumes "e \<in> dom h" "e \<noteq> NULL" "link h a l" "l \<noteq> NULL" "a \<noteq> NULL" "e \<noteq> l" "e \<noteq> a"
  shows "\<exists>h'. insert_list_front e l h = Some h' \<and> spliced h h' a e l"
proof -
  from assms obtain n m k where "h e = Some n" "h a = Some m" "l_next m = l" "h l = Some k" "l_prev k = a"
    by (auto elim: linkE)
  with assms show ?thesis
    by (cases "a = l") (auto simp: insert_list_front_def spliced_def link_def)
qed

lemma chain_spliced:
  assumes "chain h (xs @ a # b # ys)" "spliced h h' a e b"
    and "a \<notin> set xs" "a \<notin> set (butlast (b # ys))" "b \<notin> set (tl (xs @ [a]))" "b \<notin> set ys"
    and "e \<notin> set (xs @ a # b # ys)"
  shows "chain h' (xs @ a # e # b # ys)"
  using assms by (intro chain_splice [of h]) (auto simp: spliced_def)

text \<open>
  Removal of \<open>e\<close> from between \<open>a\<close> and \<open>b\<close> bridges the two edges by one.
\<close>

definition bridged :: "lheap \<Rightarrow> lheap \<Rightarrow> addr \<Rightarrow> addr \<Rightarrow> bool" where
  "bridged h h' a b \<longleftrightarrow> link h' a b \<and> dom h' = dom h \<and>
     (\<forall>c. c \<noteq> a \<longrightarrow> map_option l_next (h' c) = map_option l_next (h c)) \<and>
     (\<forall>c. c \<noteq> b \<longrightarrow> map_option l_prev (h' c) = map_option l_prev (h c)) \<and>
     (\<forall>c. c \<noteq> a \<longrightarrow> c \<noteq> b \<longrightarrow> h' c = h c)"

lemma remove_list_node_bridged:
  assumes "link h a e" "link h e b" "a \<noteq> NULL" "e \<noteq> NULL" "b \<noteq> NULL" "e \<noteq> a" "e \<noteq> b"
  shows "\<exists>h'. remove_list_node e False h = Some h' \<and> bridged h h' a b"
proof -
  from assms obtain n m k where "h e = Some n" "l_prev n = a" "l_next n = b"
    "h a = Some m" "h b = Some k"
    by (auto simp: link_def)
  with assms show ?thesis
    by (cases "a = b") (auto simp: remove_list_node_def bridged_def link_def)
qed

lemma remove_list_node_cleanup:
  "remove_list_node e True h = Option.bind (remove_list_node e False h) (init_list e)"
  by (simp add: remove_list_node_def bind_assoc)

lemma chain_bridged:
  assumes "chain h (xs @ a # e # b # ys)" "bridged h h' a b"
    and "a \<notin> set xs" "a \<notin> set (butlast (b # ys))" "b \<notin> set (tl (xs @ [a]))" "b \<notin> set ys"
  shows "chain h' (xs @ a # b # ys)"
proof -
  from assms(1) have l: "chain h (xs @ [a])" and r: "chain h (b # ys)"
    using chain_append [of h xs a "e # b # ys"] by auto
  have "chain h' (xs @ [a]) = chain h (xs @ [a])"
    using assms by (intro chain_cong) (auto simp: butlast_append bridged_def)
  moreover have "chain h' (b # ys) = chain h (b # ys)"
    using assms by (intro chain_cong) (auto simp: bridged_def split: if_splits)
  ultimately show ?thesis
    using l r assms(2) chain_append [of h' xs a "b # ys"] by (auto simp: bridged_def)
qed

section \<open>The operations on rings\<close>

lemma ring_ConsD:
  assumes "ring h l (x # xs)"
  shows "link h l x" "l \<noteq> NULL" "x \<noteq> NULL"
  using assms by (auto simp: ring_def)

lemma ring_snocD:
  assumes "ring h l (xs @ [z])"
  shows "link h z l" "l \<noteq> NULL" "z \<noteq> NULL"
  using assms chain_append [of h "l # xs" z "[l]"] by (auto simp: ring_def)

lemma ring_insert_list_end:
  assumes r: "ring h l xs" and e: "e \<in> dom h" "e \<noteq> NULL" "e \<notin> set (l # xs)"
  shows "\<exists>h'. insert_list_end e l h = Some h' \<and> ring h' l (e # xs) \<and> dom h' = dom h \<and>
    (\<forall>c. c \<notin> set (l # e # xs) \<longrightarrow> h' c = h c)"
proof (cases xs)
  case Nil
  with r have "link h l l" "l \<noteq> NULL" by (auto simp: ring_nil)
  then obtain h' where h': "insert_list_end e l h = Some h'" "spliced h h' l e l"
    using insert_list_end_spliced [of e h l l] e by auto
  with Nil e \<open>l \<noteq> NULL\<close> show ?thesis by (auto simp: ring_def spliced_def)
next
  case (Cons x xs')
  note d = ring_ConsD [OF r [unfolded Cons]]
  then obtain h' where h': "insert_list_end e l h = Some h'" "spliced h h' l e x"
    using insert_list_end_spliced [of e h l x] e Cons by auto
  have "chain h' ([] @ l # e # x # xs' @ [l])"
    using r e Cons by (intro chain_spliced [OF _ h'(2)]) (auto simp: ring_def butlast_append)
  with h' r e Cons show ?thesis by (auto simp: ring_def spliced_def)
qed

lemma ring_insert_list_front:
  assumes r: "ring h l xs" and e: "e \<in> dom h" "e \<noteq> NULL" "e \<notin> set (l # xs)"
  shows "\<exists>h'. insert_list_front e l h = Some h' \<and> ring h' l (xs @ [e]) \<and> dom h' = dom h \<and>
    (\<forall>c. c \<notin> set (l # e # xs) \<longrightarrow> h' c = h c)"
proof (cases xs rule: rev_cases)
  case Nil
  with r have "link h l l" "l \<noteq> NULL" by (auto simp: ring_nil)
  then obtain h' where h': "insert_list_front e l h = Some h'" "spliced h h' l e l"
    using insert_list_front_spliced [of e h l l] e by auto
  with Nil e \<open>l \<noteq> NULL\<close> show ?thesis by (auto simp: ring_def spliced_def)
next
  case (snoc ys z)
  note d = ring_snocD [OF r [unfolded snoc]]
  then obtain h' where h': "insert_list_front e l h = Some h'" "spliced h h' z e l"
    using insert_list_front_spliced [of e h z l] e snoc by auto
  have "chain h' ((l # ys) @ z # e # l # [])"
    using r e snoc by (intro chain_spliced [OF _ h'(2)]) (auto simp: ring_def)
  with h' r e snoc show ?thesis by (auto simp: ring_def spliced_def)
qed

lemma chain_butlast_link:
  "chain h (xs @ a # e # b # ys) \<Longrightarrow> link h a e \<and> link h e b"
  using chain_append [of h xs a "e # b # ys"] by simp

text \<open>
  Every element of a ring sits between two neighbours of the cyclic sequence \<open>l # xs @ [l]\<close>.
\<close>

lemma ring_remove_list_node:
  assumes r: "ring h l (xs @ e # ys)"
  shows "\<exists>h'. remove_list_node e False h = Some h' \<and> ring h' l (xs @ ys) \<and> dom h' = dom h \<and> h' e = h e"
proof -
  obtain as a where as: "l # xs = as @ [a]" by (metis list.distinct(1) rev_exhaust)
  obtain b bs where bs: "ys @ [l] = b # bs" by (cases ys) auto
  have eq: "l # (xs @ e # ys) @ [l] = as @ a # e # b # bs"
    using as bs by (metis append_Cons append_assoc append.left_neutral)
  with r have chain: "chain h (as @ a # e # b # bs)" by (simp add: ring_def)
  have in_ring: "a \<in> set (l # xs)" "b \<in> set (ys @ [l])"
    unfolding as bs by auto
  with r have neq: "a \<noteq> NULL" "b \<noteq> NULL" "e \<noteq> NULL" "e \<noteq> a" "e \<noteq> b"
    by (auto simp: ring_def)
  from chain have "link h a e \<and> link h e b" by (rule chain_butlast_link)
  with neq obtain h' where h': "remove_list_node e False h = Some h'" "bridged h h' a b"
    using remove_list_node_bridged by blast
  have "distinct (as @ [a])" "set (as @ [a]) \<inter> set ys = {}" "l \<notin> set ys" "l \<notin> set xs" "distinct ys"
    using r unfolding as [symmetric] by (auto simp: ring_def)
  moreover have "butlast (b # bs) = ys" using bs by (metis butlast_snoc)
  moreover have "tl (as @ [a]) = xs" using as by (metis list.sel(3))
  moreover have "b \<notin> set xs" "b \<notin> set bs"
    using r bs by (cases ys; auto simp: ring_def)+
  ultimately have "chain h' (as @ a # b # bs)"
    by (intro chain_bridged [OF chain h'(2)]) auto
  moreover have "as @ a # b # bs = l # (xs @ ys) @ [l]"
    using as bs by (metis append_Cons append_assoc append.left_neutral)
  ultimately have "chain h' (l # (xs @ ys) @ [l])" by simp
  with r h' neq show ?thesis
    by (auto simp: ring_def bridged_def)
qed

lemma ring_init_list:
  assumes "l \<in> dom h" "l \<noteq> NULL"
  shows "\<exists>h'. init_list l h = Some h' \<and> ring h' l [] \<and> dom h' = dom h \<and> (\<forall>c. c \<noteq> l \<longrightarrow> h' c = h c)"
  using assms by (auto simp: init_list_def ring_nil link_def)

lemma ring_frame:
  assumes "ring h l xs" "\<And>c. c \<in> set (l # xs) \<Longrightarrow> h' c = h c"
  shows "ring h' l xs"
proof -
  have "chain h' (l # xs @ [l]) = chain h (l # xs @ [l])"
    using assms(2) by (intro chain_cong) (auto simp: butlast_append)
  with assms show ?thesis by (simp add: ring_def)
qed

lemma ring_list_head: "ring h l xs \<Longrightarrow> list_head l h = Some (hd (xs @ [l]))"
  by (cases xs) (auto simp: list_head_def ring_def link_def field_def load_def)

lemma ring_list_tail: "ring h l xs \<Longrightarrow> list_tail l h = Some (last (l # xs))"
proof (cases xs rule: rev_cases)
  case Nil
  then show "ring h l xs \<Longrightarrow> ?thesis"
    by (auto simp: list_tail_def ring_def link_def field_def load_def)
next
  case (snoc ys z)
  then show "ring h l xs \<Longrightarrow> ?thesis"
    using ring_snocD [of h l ys z] by (auto simp: list_tail_def link_def field_def load_def)
qed

lemma ring_empty: "ring h l xs \<Longrightarrow> MG_LIST_EMPTY l h = Some (xs = [])"
  using ring_list_tail [of h l xs]
  by (cases xs rule: rev_cases) (auto simp: MG_LIST_EMPTY_def list_tail_def ring_def)

section \<open>The interface the memory pool uses\<close>

text \<open>
  The contract of an intrusive list: \<open>repr h l xs\<close> relates a heap and a list head to the sequence
  of elements, \<open>live h e\<close> says that \<open>e\<close> is a node the heap holds. A client links fresh live nodes in,
  takes nodes out and walks the sequence; it needs no more than these laws.
\<close>

locale ring_list =
  fixes repr :: "'h \<Rightarrow> addr \<Rightarrow> addr list \<Rightarrow> bool"
    and live :: "'h \<Rightarrow> addr \<Rightarrow> bool"
    and push :: "addr \<Rightarrow> addr \<Rightarrow> 'h \<Rightarrow> 'h option"
    and append :: "addr \<Rightarrow> addr \<Rightarrow> 'h \<Rightarrow> 'h option"
    and unlink :: "addr \<Rightarrow> 'h \<Rightarrow> 'h option"
  assumes push_law: "repr h l xs \<Longrightarrow> live h e \<Longrightarrow> e \<notin> set (l # xs) \<Longrightarrow>
      \<exists>h'. push e l h = Some h' \<and> repr h' l (e # xs) \<and> live h' = live h"
    and append_law: "repr h l xs \<Longrightarrow> live h e \<Longrightarrow> e \<notin> set (l # xs) \<Longrightarrow>
      \<exists>h'. append e l h = Some h' \<and> repr h' l (xs @ [e]) \<and> live h' = live h"
    and unlink_law: "repr h l (xs @ e # ys) \<Longrightarrow>
      \<exists>h'. unlink e h = Some h' \<and> repr h' l (xs @ ys) \<and> live h' = live h"
    and repr_distinct: "repr h l xs \<Longrightarrow> distinct (l # xs)"
begin

fun push_all :: "addr list \<Rightarrow> addr \<Rightarrow> 'h \<Rightarrow> 'h option" where
  "push_all [] l h = Some h"
| "push_all (e # es) l h = Option.bind (push e l h) (push_all es l)"

fun append_all :: "addr list \<Rightarrow> addr \<Rightarrow> 'h \<Rightarrow> 'h option" where
  "append_all [] l h = Some h"
| "append_all (e # es) l h = Option.bind (append e l h) (append_all es l)"

lemma push_all_repr:
  assumes "repr h l xs" "list_all (live h) es" "distinct es" "set es \<inter> set (l # xs) = {}"
  shows "\<exists>h'. push_all es l h = Some h' \<and> repr h' l (rev es @ xs)"
  using assms
proof (induction es arbitrary: h xs)
  case Nil
  then show ?case by simp
next
  case (Cons e es)
  then obtain h' where h': "push e l h = Some h'" "repr h' l (e # xs)" "live h' = live h"
    using push_law [of h l xs e] by auto
  with Cons.prems have "\<exists>h''. push_all es l h' = Some h'' \<and> repr h'' l (rev es @ e # xs)"
    by (intro Cons.IH) auto
  with h' show ?case by auto
qed

lemma append_all_repr:
  assumes "repr h l xs" "list_all (live h) es" "distinct es" "set es \<inter> set (l # xs) = {}"
  shows "\<exists>h'. append_all es l h = Some h' \<and> repr h' l (xs @ es)"
  using assms
proof (induction es arbitrary: h xs)
  case Nil
  then show ?case by simp
next
  case (Cons e es)
  then obtain h' where h': "append e l h = Some h'" "repr h' l (xs @ [e])" "live h' = live h"
    using append_law [of h l xs e] by auto
  with Cons.prems have "\<exists>h''. append_all es l h' = Some h'' \<and> repr h'' l ((xs @ [e]) @ es)"
    by (intro Cons.IH) auto
  with h' show ?case by auto
qed

lemma push_unlink:
  assumes "repr h l xs" "live h e" "e \<notin> set (l # xs)"
  shows "\<exists>h'. Option.bind (push e l h) (unlink e) = Some h' \<and> repr h' l xs"
proof -
  obtain h' where "push e l h = Some h'" "repr h' l (e # xs)"
    using push_law assms by blast
  then show ?thesis using unlink_law [of h' l "[]" e xs] by auto
qed

end

interpretation mgl: ring_list ring "\<lambda>h e. e \<in> dom h \<and> e \<noteq> NULL" MG_LIST_PUSH_BACK MG_LIST_PUSH_FRONT
  "\<lambda>e. MG_LIST_DELETE e False"
proof
  fix h l xs e
  assume "ring h l xs" "e \<in> dom h \<and> e \<noteq> NULL" "e \<notin> set (l # xs)"
  then show "\<exists>h'. MG_LIST_PUSH_BACK e l h = Some h' \<and> ring h' l (e # xs) \<and>
      (\<lambda>e. e \<in> dom h' \<and> e \<noteq> NULL) = (\<lambda>e. e \<in> dom h \<and> e \<noteq> NULL)"
    using ring_insert_list_end [of h l xs e] by (auto simp: MG_LIST_PUSH_BACK_def)
next
  fix h l xs e
  assume "ring h l xs" "e \<in> dom h \<and> e \<noteq> NULL" "e \<notin> set (l # xs)"
  then show "\<exists>h'. MG_LIST_PUSH_FRONT e l h = Some h' \<and> ring h' l (xs @ [e]) \<and>
      (\<lambda>e. e \<in> dom h' \<and> e \<noteq> NULL) = (\<lambda>e. e \<in> dom h \<and> e \<noteq> NULL)"
    using ring_insert_list_front [of h l xs e] by (auto simp: MG_LIST_PUSH_FRONT_def)
next
  fix h l xs e ys
  assume "ring h l (xs @ e # ys)"
  then show "\<exists>h'. MG_LIST_DELETE e False h = Some h' \<and> ring h' l (xs @ ys) \<and>
      (\<lambda>e. e \<in> dom h' \<and> e \<noteq> NULL) = (\<lambda>e. e \<in> dom h \<and> e \<noteq> NULL)"
    using ring_remove_list_node [of h l xs e ys] by (auto simp: MG_LIST_DELETE_def)
next
  fix h l xs
  show "ring h l xs \<Longrightarrow> distinct (l # xs)" by (simp add: ring_def)
qed

section \<open>Properties\<close>

text \<open>
  C8: On a ring of elements \<open>xs\<close>, \<open>MG_LIST_PUSH_BACK\<close> links a fresh node \<open>e\<close> right after the
  head, so that \<open>list_head\<close> returns it and the sequence becomes \<open>e # xs\<close>, and
  \<open>MG_LIST_PUSH_FRONT\<close> links it right before the head, so that \<open>list_tail\<close> returns it and the
  sequence becomes \<open>xs @ [e]\<close>; neither follows a bad pointer nor touches a node outside the ring.
\<close>

theorem mg_list_push_refines:
  assumes "ring h l xs" "e \<in> dom h" "e \<noteq> NULL" "e \<notin> set (l # xs)"
  shows "\<exists>hb hf. MG_LIST_PUSH_BACK e l h = Some hb \<and> ring hb l (e # xs) \<and> list_head l hb = Some e \<and>
    MG_LIST_PUSH_FRONT e l h = Some hf \<and> ring hf l (xs @ [e]) \<and> list_tail l hf = Some e \<and>
    (\<forall>c. c \<notin> set (l # e # xs) \<longrightarrow> hb c = h c \<and> hf c = h c)"
proof -
  obtain hb where "insert_list_end e l h = Some hb" "ring hb l (e # xs)"
      "\<forall>c. c \<notin> set (l # e # xs) \<longrightarrow> hb c = h c"
    using ring_insert_list_end [OF assms] by blast
  moreover obtain hf where "insert_list_front e l h = Some hf" "ring hf l (xs @ [e])"
      "\<forall>c. c \<notin> set (l # e # xs) \<longrightarrow> hf c = h c"
    using ring_insert_list_front [OF assms] by blast
  ultimately show ?thesis
    using ring_list_head [of hb l "e # xs"] ring_list_tail [of hf l "xs @ [e]"]
    by (auto simp: MG_LIST_PUSH_BACK_def MG_LIST_PUSH_FRONT_def)
qed

definition demo_lheap :: lheap where
  "demo_lheap = [1 \<mapsto> MG_LIST_STATIC_INIT 1, 2 \<mapsto> \<lparr>l_prev = 0, l_next = 0\<rparr>]"

lemma demo_ring: "ring demo_lheap 1 []"
  by (simp add: demo_lheap_def ring_nil link_def MG_LIST_STATIC_INIT_def)

theorem mg_list_push_refines_witness:
  "\<exists>hb hf. MG_LIST_PUSH_BACK 2 1 demo_lheap = Some hb \<and> ring hb 1 [2] \<and> list_head 1 hb = Some 2 \<and>
    MG_LIST_PUSH_FRONT 2 1 demo_lheap = Some hf \<and> ring hf 1 [2] \<and> list_tail 1 hf = Some 2"
  using mg_list_push_refines [of demo_lheap 1 "[]" 2] demo_ring
  by (auto simp: demo_lheap_def)

text \<open>
  C9: Deleting an element from anywhere in a ring takes exactly that element out of the sequence and
  keeps the order of the others; with \<open>cleanup\<close> the removed node becomes an empty ring of its own.
\<close>

theorem mg_list_delete_refines:
  assumes "ring h l (xs @ e # ys)"
  shows "\<exists>h'. MG_LIST_DELETE e cleanup h = Some h' \<and> ring h' l (xs @ ys) \<and> (cleanup \<longrightarrow> ring h' e [])"
proof -
  obtain h1 where h1: "remove_list_node e False h = Some h1" "ring h1 l (xs @ ys)" "dom h1 = dom h" "h1 e = h e"
    using ring_remove_list_node [OF assms] by blast
  have e: "e \<in> dom h" "e \<noteq> NULL" "e \<notin> set (l # xs @ ys)"
  proof -
    show "e \<noteq> NULL" "e \<notin> set (l # xs @ ys)" using assms by (auto simp: ring_def)
    from assms have "chain h ((l # xs) @ e # ys @ [l])" by (simp add: ring_def)
    then have "chain h (e # ys @ [l])" using chain_append by blast
    then show "e \<in> dom h" by (cases ys) (auto simp: link_def)
  qed
  show ?thesis
  proof (cases cleanup)
    case True
    obtain h2 where "init_list e h1 = Some h2" "ring h2 e []" "\<forall>c. c \<noteq> e \<longrightarrow> h2 c = h1 c"
      using ring_init_list [of e h1] e h1(3) by auto
    with h1 e True show ?thesis
      by (auto simp: MG_LIST_DELETE_def remove_list_node_cleanup intro!: ring_frame [OF h1(2)])
  next
    case False
    with h1 show ?thesis by (simp add: MG_LIST_DELETE_def)
  qed
qed

definition demo_lheap2 :: lheap where
  "demo_lheap2 = [1 \<mapsto> \<lparr>l_prev = 3, l_next = 2\<rparr>, 2 \<mapsto> \<lparr>l_prev = 1, l_next = 3\<rparr>, 3 \<mapsto> \<lparr>l_prev = 2, l_next = 1\<rparr>]"

theorem mg_list_delete_refines_witness:
  "\<exists>h'. MG_LIST_DELETE 2 True demo_lheap2 = Some h' \<and> ring h' 1 [3] \<and> ring h' 2 []"
proof -
  have "ring demo_lheap2 1 ([] @ 2 # [3])"
    by (simp add: demo_lheap2_def ring_def link_def)
  from mg_list_delete_refines [OF this, of True] show ?thesis by simp
qed

end
