(* ===== verification/Mg_Pool.thy ===== *)
theory Mg_Pool
  imports Mg_List
begin

text \<open>
  The memory pool of \<^verbatim>\<open>core/mg_pool.h\<close>. The memory is a record of typed heaps (the embedded list
  nodes, the large and small block headers, the pools) together with the list of live
  \<open>malloc\<close> chunks. \<open>malloc\<close> itself is a parameter \<open>al\<close> of the model, a function from the
  live chunks and a size to an address (null on failure); what the code relies on is
  \<open>malloc_ok al\<close>, that a returned chunk does not overlap a live one. Sizes are 64 bit words, as
  \<open>size_t\<close> is. Struct sizes and offsets are those of the LP64 ABI.
\<close>

section \<open>Data\<close>

record mg_large_block =
  lb_head :: addr
  lb_buf :: addr

record mg_small_block =
  sb_head :: addr
  sb_last :: addr
  sb_end :: addr
  sb_failed :: int

record mg_pool =
  p_max :: "64 word"
  p_current :: addr

record mem =
  lists :: lheap
  larges :: "mg_large_block heap"
  smalls :: "mg_small_block heap"
  pools :: "mg_pool heap"
  chunks :: "region list"

definition MG_PAGESIZE :: nat where
  "MG_PAGESIZE = 4 * 1024"

definition sizeof_large :: nat where
  "sizeof_large = 32"

definition sizeof_small :: nat where
  "sizeof_small = 48"

definition sizeof_pool :: nat where
  "sizeof_pool = 48"

text \<open>\<open>&p->_large\<close> and \<open>&p->_small\<close>.\<close>

definition large_of :: "addr \<Rightarrow> addr" where
  "large_of p = p + 16"

definition small_of :: "addr \<Rightarrow> addr" where
  "small_of p = p + 32"

definition MG_MAX_ALLOC_FROM_POOL :: "64 word" where
  "MG_MAX_ALLOC_FROM_POOL = of_nat MG_PAGESIZE - 1 - of_nat sizeof_small"

definition MG_ALIGN :: "64 word \<Rightarrow> 64 word \<Rightarrow> 64 word" where
  "MG_ALIGN n alignment = and (n + (alignment - 1)) (not (alignment - 1))"

lemmas pool_layout = MG_PAGESIZE_def sizeof_large_def sizeof_small_def sizeof_pool_def
  large_of_def small_of_def MG_MAX_ALLOC_FROM_POOL_def

section \<open>The C allocator\<close>

type_synonym allocator = "region list \<Rightarrow> nat \<Rightarrow> addr"

definition malloc_ok :: "allocator \<Rightarrow> bool" where
  "malloc_ok al \<longleftrightarrow> (\<forall>cs n. al cs n \<noteq> NULL \<longrightarrow> list_all (disjoint_regions (al cs n, n)) cs)"

definition mg_malloc :: "allocator \<Rightarrow> nat \<Rightarrow> mem \<Rightarrow> addr \<times> mem" where
  "mg_malloc al n m = (let p = al (chunks m) n in
     (p, if p = NULL then m else m\<lparr>chunks := (p, n) # chunks m\<rparr>))"

definition outside :: "region \<Rightarrow> 'n heap \<Rightarrow> 'n heap" where
  "outside r h = (\<lambda>a. if fst r \<le> a \<and> a < fst r + snd r then None else h a)"

text \<open>
  \<open>free\<close> of a chunk ends the life of every object inside it; of anything but null or the start of
  a live chunk it is undefined.
\<close>

definition mg_free :: "addr \<Rightarrow> mem \<Rightarrow> mem option" where
  "mg_free p m = (if p = NULL then Some m else
     case find (\<lambda>c. fst c = p) (chunks m) of
       None \<Rightarrow> None
     | Some r \<Rightarrow> Some (m\<lparr>lists := outside r (lists m), larges := outside r (larges m),
         smalls := outside r (smalls m), pools := outside r (pools m),
         chunks := remove1 r (chunks m)\<rparr>))"

text \<open>The contents of a list node before the first assignment to its fields.\<close>

definition uninit_list :: mg_list where
  "uninit_list = \<lparr>l_prev = 0, l_next = 0\<rparr>"

section \<open>Operations\<close>

definition mg_create_pool :: "allocator \<Rightarrow> 64 word \<Rightarrow> mem \<Rightarrow> (addr \<times> mem) option" where
  "mg_create_pool al sz m = (let (p, m) = mg_malloc al sizeof_pool m in
     if p = NULL then Some (NULL, m)
     else let m = m\<lparr>
         pools := (pools m)(p \<mapsto> \<lparr>
           p_max = (if sz < MG_MAX_ALLOC_FROM_POOL then sz else MG_MAX_ALLOC_FROM_POOL),
           p_current = small_of p\<rparr>),
         lists := (lists m)(large_of p \<mapsto> uninit_list, small_of p \<mapsto> uninit_list)\<rparr>
       in do {
         ls \<leftarrow> init_list (large_of p) (lists m);
         ls \<leftarrow> init_list (small_of p) ls;
         Some (p, m\<lparr>lists := ls\<rparr>) })"

partial_function (option) free_large_loop :: "addr \<Rightarrow> addr \<Rightarrow> mem \<Rightarrow> mem option" where
  "free_large_loop h n m = (if n = h then Some m else do {
     l \<leftarrow> load (larges m) n;
     m \<leftarrow> mg_free (lb_head l) m;
     n \<leftarrow> field l_next (lists m) n;
     free_large_loop h n m })"

partial_function (option) free_small_loop :: "addr \<Rightarrow> addr \<Rightarrow> mem \<Rightarrow> mem option" where
  "free_small_loop h n m = (if n = h then Some m else do {
     s \<leftarrow> load (smalls m) n;
     m \<leftarrow> mg_free (sb_head s) m;
     n \<leftarrow> field l_next (lists m) n;
     free_small_loop h n m })"

definition mg_destory_pool :: "addr \<Rightarrow> mem \<Rightarrow> mem option" where
  "mg_destory_pool pool m = do {
     n \<leftarrow> field l_next (lists m) (large_of pool);
     m \<leftarrow> free_large_loop (large_of pool) n m;
     n \<leftarrow> field l_next (lists m) (small_of pool);
     m \<leftarrow> free_small_loop (small_of pool) n m;
     mg_free pool m }"

definition mg_palloc_large :: "allocator \<Rightarrow> addr \<Rightarrow> 64 word \<Rightarrow> mem \<Rightarrow> (addr \<times> mem) option" where
  "mg_palloc_large al pool sz m =
    (let (p, m) = mg_malloc al (unat (sz + of_nat sizeof_large)) m in
     if p = NULL then Some (NULL, m)
     else let m = m\<lparr>larges := (larges m)(p \<mapsto> \<lparr>lb_head = p, lb_buf = p + sizeof_large\<rparr>),
                    lists := (lists m)(p \<mapsto> uninit_list)\<rparr>
       in do {
         ls \<leftarrow> MG_LIST_PUSH_BACK p (large_of pool) (lists m);
         Some (p + sizeof_large, m\<lparr>lists := ls\<rparr>) })"

text \<open>
  The first loop of \<open>mg_palloc_small\<close>: from block \<open>p\<close> on, the first block with room for
  \<open>sz\<close> bytes gives them (\<open>Some\<close> of the address); \<open>None\<close> when the loop ends.
\<close>

partial_function (option) small_scan ::
  "addr \<Rightarrow> 64 word \<Rightarrow> addr \<Rightarrow> mem \<Rightarrow> (addr option \<times> mem) option" where
  "small_scan hl sz p m = (if p \<noteq> NULL \<and> p \<noteq> hl then do {
       s \<leftarrow> load (smalls m) p;
       (if of_int (int (sb_end s) - int (sb_last s)) \<ge> sz
        then Some (Some (sb_last s),
               m\<lparr>smalls := (smalls m)(p \<mapsto> s\<lparr>sb_last := sb_last s + unat sz\<rparr>)\<rparr>)
        else do {
          p \<leftarrow> field l_next (lists m) p;
          small_scan hl sz p m }) }
     else Some (None, m))"

text \<open>
  The second loop: every block from \<open>_current\<close> on but the last counts a failure, and
  \<open>_current\<close> moves past a block that has failed more than four times.
\<close>

partial_function (option) fail_scan :: "addr \<Rightarrow> addr \<Rightarrow> mem \<Rightarrow> mem option" where
  "fail_scan pool p m = do {
     nx \<leftarrow> field l_next (lists m) p;
     (if nx \<noteq> small_of pool then do {
        s \<leftarrow> load (smalls m) p;
        let m = m\<lparr>smalls := (smalls m)(p \<mapsto> s\<lparr>sb_failed := sb_failed s + 1\<rparr>)\<rparr>;
        ps \<leftarrow> (if sb_failed s > 4 then modify pool (p_current_update (\<lambda>_. nx)) (pools m)
               else Some (pools m));
        let m = m\<lparr>pools := ps\<rparr>;
        p \<leftarrow> field l_next (lists m) p;
        fail_scan pool p m }
      else Some m) }"

definition mg_palloc_small :: "allocator \<Rightarrow> addr \<Rightarrow> 64 word \<Rightarrow> mem \<Rightarrow> (addr \<times> mem) option" where
  "mg_palloc_small al pool sz m = do {
     p \<leftarrow> field p_current (pools m) pool;
     (r, m) \<leftarrow> small_scan (small_of pool) sz p m;
     (case r of Some a \<Rightarrow> Some (a, m) | None \<Rightarrow>
       (let (b, m) = mg_malloc al MG_PAGESIZE m in
        if b = NULL then Some (NULL, m)
        else let m = m\<lparr>smalls := (smalls m)(b \<mapsto> \<lparr>sb_head = b,
                 sb_last = b + sizeof_small + unat sz, sb_end = b + MG_PAGESIZE - 1,
                 sb_failed = 0\<rparr>),
               lists := (lists m)(b \<mapsto> uninit_list)\<rparr>
          in do {
            p \<leftarrow> field p_current (pools m) pool;
            m \<leftarrow> fail_scan pool p m;
            ls \<leftarrow> MG_LIST_PUSH_BACK b (small_of pool) (lists m);
            Some (b + sizeof_small, m\<lparr>lists := ls\<rparr>) })) }"

definition mg_palloc :: "allocator \<Rightarrow> addr \<Rightarrow> 64 word \<Rightarrow> mem \<Rightarrow> (addr \<times> mem) option" where
  "mg_palloc al pool sz m = do {
     mx \<leftarrow> field p_max (pools m) pool;
     (if sz \<le> mx then mg_palloc_small al pool sz m
      else mg_palloc_large al pool sz m) }"

section \<open>The pool invariant\<close>

text \<open>
  \<open>ls\<close> and \<open>ss\<close> are the large and small blocks of the pool. Both rings are intact, share no
  node, and every node lies in a live chunk; every block header describes its own chunk;
  \<open>_current\<close> is still the list head it was initialised to.
\<close>

definition nodes :: "addr \<Rightarrow> addr list \<Rightarrow> addr list \<Rightarrow> addr list" where
  "nodes pool ls ss = large_of pool # small_of pool # ls @ ss"

definition covered :: "mem \<Rightarrow> addr \<Rightarrow> bool" where
  "covered m a \<longleftrightarrow> (\<exists>r \<in> set (chunks m). a \<in> region_bytes r)"

definition small_ok :: "mem \<Rightarrow> addr \<Rightarrow> bool" where
  "small_ok m b \<longleftrightarrow> (b, MG_PAGESIZE) \<in> set (chunks m) \<and> (\<exists>s. smalls m b = Some s \<and> sb_head s = b \<and>
     sb_end s = b + MG_PAGESIZE - 1 \<and> b + sizeof_small \<le> sb_last s \<and> sb_last s \<le> sb_end s)"

definition large_ok :: "mem \<Rightarrow> addr \<Rightarrow> bool" where
  "large_ok m b \<longleftrightarrow> larges m b = Some \<lparr>lb_head = b, lb_buf = b + sizeof_large\<rparr> \<and>
     (\<exists>r \<in> set (chunks m). fst r = b \<and> sizeof_large \<le> snd r)"

definition pool_wf :: "mem \<Rightarrow> addr \<Rightarrow> addr list \<Rightarrow> addr list \<Rightarrow> bool" where
  "pool_wf m pool ls ss \<longleftrightarrow> pool \<noteq> NULL \<and> (pool, sizeof_pool) \<in> set (chunks m) \<and>
     (\<exists>P. pools m pool = Some P \<and> p_max P \<le> MG_MAX_ALLOC_FROM_POOL \<and> p_current P = small_of pool) \<and>
     ring (lists m) (large_of pool) ls \<and> ring (lists m) (small_of pool) ss \<and>
     distinct (nodes pool ls ss) \<and> list_all (covered m) (nodes pool ls ss) \<and>
     list_all (large_ok m) ls \<and> list_all (small_ok m) ss \<and>
     smalls m (small_of pool) = None \<and> pairwise_disjoint (chunks m) \<and>
     list_all (\<lambda>r. 0 < snd r) (chunks m)"

lemma covered_Cons: "covered m a \<Longrightarrow> chunks m' = r # chunks m \<Longrightarrow> covered m' a"
  by (auto simp: covered_def)

lemma fresh_not_covered:
  assumes "malloc_ok al" "al (chunks m) n = p" "p \<noteq> NULL" "0 < n" "covered m a"
  shows "a \<noteq> p"
proof -
  from assms(1-3) have "list_all (disjoint_regions (p, n)) (chunks m)"
    by (auto simp: malloc_ok_def)
  with assms(4,5) show ?thesis
    by (fastforce simp: covered_def list_all_iff disjoint_regions_bytes)
qed

text \<open>The memory after a fresh chunk \<open>(p, n)\<close> has been taken and its list node created.\<close>

lemma pool_wf_fresh:
  assumes ok: "malloc_ok al" and wf: "pool_wf m pool ls ss"
    and p: "al (chunks m) n = p" "p \<noteq> NULL" "0 < n"
  shows "p \<notin> set (nodes pool ls ss)" "list_all (disjoint_regions (p, n)) (chunks m)"
proof -
  show "list_all (disjoint_regions (p, n)) (chunks m)"
    using ok p by (auto simp: malloc_ok_def)
  have "\<forall>a \<in> set (nodes pool ls ss). covered m a"
    using wf by (auto simp: pool_wf_def list_all_iff)
  then show "p \<notin> set (nodes pool ls ss)"
    using fresh_not_covered [OF ok p] by blast
qed

lemma mg_palloc_large_wf:
  assumes ok: "malloc_ok al" and wf: "pool_wf m pool ls ss"
    and n: "unat sz + sizeof_large < 2 ^ 64"
    and p: "al (chunks m) (unat sz + sizeof_large) = p" "p \<noteq> NULL"
  shows "\<exists>m'. mg_palloc_large al pool sz m = Some (p + sizeof_large, m') \<and>
    pool_wf m' pool (p # ls) ss \<and> chunks m' = (p, unat sz + sizeof_large) # chunks m \<and> pools m' = pools m \<and>
    smalls m' = smalls m"
proof -
  let ?n = "unat sz + sizeof_large"
  let ?m = "m\<lparr>chunks := (p, ?n) # chunks m,
              larges := (larges m)(p \<mapsto> \<lparr>lb_head = p, lb_buf = p + sizeof_large\<rparr>),
              lists := (lists m)(p \<mapsto> uninit_list)\<rparr>"
  have un: "unat (sz + of_nat sizeof_large) = ?n"
    using n by (simp add: unat_word_ariths sizeof_large_def unat_of_nat)
  have pos: "0 < ?n" by (simp add: sizeof_large_def)
  note fr = pool_wf_fresh [OF ok wf p pos]
  have rings: "ring (lists ?m) (large_of pool) ls" "ring (lists ?m) (small_of pool) ss"
    using wf fr(1) by (auto simp: pool_wf_def nodes_def intro: ring_frame)
  obtain h' where h': "MG_LIST_PUSH_BACK p (large_of pool) (lists ?m) = Some h'"
      "ring h' (large_of pool) (p # ls)" "\<forall>c. c \<notin> set (large_of pool # p # ls) \<longrightarrow> h' c = lists ?m c"
    using ring_insert_list_end [OF rings(1), of p] fr(1) p(2)
    by (auto simp: MG_LIST_PUSH_BACK_def nodes_def)
  have "set (small_of pool # ss) \<inter> set (large_of pool # p # ls) = {}"
    using wf fr(1) by (auto simp: pool_wf_def nodes_def)
  then have "ring h' (small_of pool) ss"
    using h'(3) by (intro ring_frame [OF rings(2)]) blast
  moreover have "mg_palloc_large al pool sz m = Some (p + sizeof_large, ?m\<lparr>lists := h'\<rparr>)"
    using h'(1) p un by (simp add: mg_palloc_large_def mg_malloc_def Let_def)
  ultimately show ?thesis
    using wf fr h'(2) pos
    by (auto simp: pool_wf_def nodes_def list_all_iff covered_def large_ok_def small_ok_def)
qed

lemma small_scan_head [simp]: "small_scan hl sz hl m = Some (None, m)"
  by (subst small_scan.simps) simp

lemma fail_scan_empty:
  "field l_next (lists m) p = Some (small_of pool) \<Longrightarrow> fail_scan pool p m = Some m"
  by (subst fail_scan.simps) simp

lemma fail_scan_dangling:
  "field l_next (lists m) p = Some nx \<Longrightarrow> nx \<noteq> small_of pool \<Longrightarrow> smalls m p = None \<Longrightarrow>
   fail_scan pool p m = None"
  by (subst fail_scan.simps) (simp add: load_def)

lemma max_alloc_fits: "sz \<le> MG_MAX_ALLOC_FROM_POOL \<Longrightarrow> sizeof_small + unat sz + 1 \<le> MG_PAGESIZE"
  by (simp add: pool_layout word_le_nat_alt)

lemma ring_next: "ring h l xs \<Longrightarrow> field l_next h l = Some (List.hd (xs @ [l]))"
  using ring_list_head by (simp add: list_head_def)

lemma mg_palloc_small_first:
  assumes ok: "malloc_ok al" and wf: "pool_wf m pool ls []"
    and sz: "sz \<le> MG_MAX_ALLOC_FROM_POOL"
    and b: "al (chunks m) MG_PAGESIZE = b" "b \<noteq> NULL"
  shows "\<exists>m'. mg_palloc_small al pool sz m = Some (b + sizeof_small, m') \<and>
    pool_wf m' pool ls [b] \<and> chunks m' = (b, MG_PAGESIZE) # chunks m \<and> pools m' = pools m \<and>
    map_option sb_last (smalls m' b) = Some (b + sizeof_small + unat sz)"
proof -
  let ?s = "\<lparr>sb_head = b, sb_last = b + sizeof_small + unat sz, sb_end = b + MG_PAGESIZE - 1,
             sb_failed = 0\<rparr>"
  let ?m = "m\<lparr>chunks := (b, MG_PAGESIZE) # chunks m, smalls := (smalls m)(b \<mapsto> ?s),
              lists := (lists m)(b \<mapsto> uninit_list)\<rparr>"
  have pos: "0 < MG_PAGESIZE" by (simp add: MG_PAGESIZE_def)
  note fr = pool_wf_fresh [OF ok wf b pos]
  have rings: "ring (lists ?m) (large_of pool) ls" "ring (lists ?m) (small_of pool) []"
    using wf fr(1) by (auto simp: pool_wf_def nodes_def intro: ring_frame)
  obtain h' where h': "MG_LIST_PUSH_BACK b (small_of pool) (lists ?m) = Some h'"
      "ring h' (small_of pool) [b]" "\<forall>c. c \<notin> {small_of pool, b} \<longrightarrow> h' c = lists ?m c"
    using ring_insert_list_end [OF rings(2), of b] fr(1) b(2)
    by (auto simp: MG_LIST_PUSH_BACK_def nodes_def)
  have "ring h' (large_of pool) ls"
    using rings(1) h'(3) wf fr(1)
    by (auto simp: pool_wf_def nodes_def intro!: ring_frame [OF rings(1)])
  moreover have "fail_scan pool (small_of pool) ?m = Some ?m"
    using ring_next [OF rings(2)] by (intro fail_scan_empty) simp
  then have "mg_palloc_small al pool sz m = Some (b + sizeof_small, ?m\<lparr>lists := h'\<rparr>)"
    using h'(1) b wf by (auto simp: mg_palloc_small_def mg_malloc_def Let_def pool_wf_def)
  ultimately show ?thesis
    using wf fr h'(2) pos max_alloc_fits [OF sz]
    by (auto simp: pool_wf_def nodes_def list_all_iff covered_def large_ok_def small_ok_def)
qed

lemma mg_palloc_small_second:
  assumes ok: "malloc_ok al" and wf: "pool_wf m pool ls (c # ss)"
    and b: "al (chunks m) MG_PAGESIZE = b" "b \<noteq> NULL"
  shows "mg_palloc_small al pool sz m = None"
proof -
  let ?s = "\<lparr>sb_head = b, sb_last = b + sizeof_small + unat sz, sb_end = b + MG_PAGESIZE - 1,
             sb_failed = 0\<rparr>"
  let ?m = "m\<lparr>chunks := (b, MG_PAGESIZE) # chunks m, smalls := (smalls m)(b \<mapsto> ?s),
              lists := (lists m)(b \<mapsto> uninit_list)\<rparr>"
  have pos: "0 < MG_PAGESIZE" by (simp add: MG_PAGESIZE_def)
  note fr = pool_wf_fresh [OF ok wf b pos]
  have "ring (lists ?m) (small_of pool) (c # ss)"
    using wf fr(1) by (auto simp: pool_wf_def nodes_def intro: ring_frame)
  then have "field l_next (lists ?m) (small_of pool) = Some c"
    using ring_next [of "lists ?m" "small_of pool" "c # ss"] by simp
  moreover have "c \<noteq> small_of pool" "smalls ?m (small_of pool) = None"
    using wf fr(1) by (auto simp: pool_wf_def nodes_def)
  ultimately have "fail_scan pool (small_of pool) ?m = None"
    by (intro fail_scan_dangling)
  then show ?thesis
    using b wf by (auto simp: mg_palloc_small_def mg_malloc_def Let_def pool_wf_def)
qed

lemma mg_create_pool_wf:
  assumes ok: "malloc_ok al" and cs: "pairwise_disjoint (chunks m)" "list_all (\<lambda>r. 0 < snd r) (chunks m)"
    and p: "al (chunks m) sizeof_pool = p" "p \<noteq> NULL"
    and fresh: "smalls m (small_of p) = None"
  shows "\<exists>m'. mg_create_pool al sz m = Some (p, m') \<and> pool_wf m' p [] [] \<and>
    chunks m' = (p, sizeof_pool) # chunks m \<and>
    map_option p_max (pools m' p) = Some (min sz MG_MAX_ALLOC_FROM_POOL)"
proof -
  have "list_all (disjoint_regions (p, sizeof_pool)) (chunks m)"
    using ok p by (auto simp: malloc_ok_def)
  with cs p fresh show ?thesis
    by (auto simp: mg_create_pool_def mg_malloc_def Let_def init_list_def pool_wf_def ring_nil link_def
        nodes_def covered_def large_of_def small_of_def sizeof_pool_def min_def)
qed

section \<open>Sequences of allocations\<close>

text \<open>A client's sequence of requests, with the regions it was given.\<close>

fun palloc_all :: "allocator \<Rightarrow> addr \<Rightarrow> 64 word list \<Rightarrow> mem \<Rightarrow> (region list \<times> mem) option" where
  "palloc_all al pool [] m = Some ([], m)"
| "palloc_all al pool (sz # szs) m = do {
     (a, m) \<leftarrow> mg_palloc al pool sz m;
     (rs, m) \<leftarrow> palloc_all al pool szs m;
     Some ((a, unat sz) # rs, m) }"

text \<open>
  One request that is served: the region lies in a fresh chunk \<open>r\<close>. A large request leaves the
  small blocks alone; a small one adds the first small block, whose \<open>_last\<close> is the end of the
  region.
\<close>

lemma mg_palloc_step:
  assumes ok: "malloc_ok al" and total: "\<forall>cs n. al cs n \<noteq> NULL"
    and wf: "pool_wf m pool ls ss" and mx: "map_option p_max (pools m pool) = Some mx"
    and sz: "unat sz + sizeof_large < 2 ^ 64" and first: "sz \<le> mx \<Longrightarrow> ss = []"
  obtains a r m' ls' ss' where "mg_palloc al pool sz m = Some (a, m')"
    "pool_wf m' pool ls' ss'" "pools m' = pools m" "chunks m' = r # chunks m"
    "subregion (a, unat sz) r" "list_all (disjoint_regions r) (chunks m)"
    "if sz \<le> mx then ls' = ls \<and> ss' = [fst r] \<and> r = (fst r, MG_PAGESIZE) \<and>
       map_option sb_last (smalls m' (fst r)) = Some (a + unat sz)
     else length ls' = Suc (length ls) \<and> ss' = ss \<and> smalls m' = smalls m"
proof (cases "sz \<le> mx")
  case True
  then have [simp]: "ss = []" by (rule first)
  have wf': "pool_wf m pool ls []" using wf by simp
  have le: "sz \<le> MG_MAX_ALLOC_FROM_POOL" using True wf mx by (auto simp: pool_wf_def)
  obtain b where b: "al (chunks m) MG_PAGESIZE = b" "b \<noteq> NULL" using total by blast
  obtain m' where m': "mg_palloc_small al pool sz m = Some (b + sizeof_small, m')"
      "pool_wf m' pool ls [b]" "chunks m' = (b, MG_PAGESIZE) # chunks m" "pools m' = pools m"
      "map_option sb_last (smalls m' b) = Some (b + sizeof_small + unat sz)"
    using mg_palloc_small_first [OF ok wf' le b] by blast
  moreover have "mg_palloc al pool sz m = Some (b + sizeof_small, m')"
    using m'(1) True mx wf by (auto simp: mg_palloc_def pool_wf_def)
  moreover have "subregion (b + sizeof_small, unat sz) (b, MG_PAGESIZE)"
    using max_alloc_fits [OF le] by (simp add: subregion_def)
  moreover have "list_all (disjoint_regions (b, MG_PAGESIZE)) (chunks m)"
    using ok b by (auto simp: malloc_ok_def)
  ultimately show ?thesis using True by (intro that [of "b + sizeof_small" m' ls "[b]"]) auto
next
  case False
  let ?n = "unat sz + sizeof_large"
  obtain p where p: "al (chunks m) ?n = p" "p \<noteq> NULL" using total by blast
  obtain m' where m': "mg_palloc_large al pool sz m = Some (p + sizeof_large, m')"
      "pool_wf m' pool (p # ls) ss" "chunks m' = (p, ?n) # chunks m" "pools m' = pools m"
      "smalls m' = smalls m"
    using mg_palloc_large_wf [OF ok wf sz p] by blast
  moreover have "mg_palloc al pool sz m = Some (p + sizeof_large, m')"
    using m'(1) False mx wf by (auto simp: mg_palloc_def pool_wf_def)
  moreover have "subregion (p + sizeof_large, unat sz) (p, ?n)"
    by (simp add: subregion_def)
  moreover have "list_all (disjoint_regions (p, ?n)) (chunks m)"
    using ok p by (auto simp: malloc_ok_def)
  ultimately show ?thesis using False by (intro that [of "p + sizeof_large" m' "p # ls" ss]) auto
qed

text \<open>The bytes of a small block that are still to be handed out.\<close>

definition spare :: "mem \<Rightarrow> addr \<Rightarrow> region" where
  "spare m b = (case smalls m b of None \<Rightarrow> (b, 0) | Some s \<Rightarrow> (sb_last s, sb_end s - sb_last s))"

lemma spare_subregion: "small_ok m b \<Longrightarrow> subregion (spare m b) (b, MG_PAGESIZE)"
  by (auto simp: small_ok_def spare_def subregion_def)

lemma palloc_all_ok:
  assumes ok: "malloc_ok al" and total: "\<forall>cs n. al cs n \<noteq> NULL"
    and wf: "pool_wf m pool ls ss" and mx: "map_option p_max (pools m pool) = Some mx"
    and szs: "list_all (\<lambda>sz. unat sz + sizeof_large < 2 ^ 64) szs"
    and few: "length (filter (\<lambda>sz. sz \<le> mx) szs) \<le> (if ss = [] then 1 else 0)"
  shows "\<exists>rs m' ls' ss'. palloc_all al pool szs m = Some (rs, m') \<and> map snd rs = map unat szs \<and>
    pairwise_disjoint rs \<and> list_all (\<lambda>r. list_all (disjoint_regions r) (chunks m)) rs \<and>
    list_all (\<lambda>r. list_ex (subregion r) (chunks m')) rs \<and> set (chunks m) \<subseteq> set (chunks m') \<and>
    pool_wf m' pool ls' ss' \<and> length ss' = length ss + length (filter (\<lambda>sz. sz \<le> mx) szs) \<and>
    length (ls' @ ss') = length (ls @ ss) + length szs \<and>
    (ss \<noteq> [] \<longrightarrow> ss' = ss \<and> smalls m' = smalls m) \<and>
    (\<forall>b \<in> set ss'. (b \<in> set ss \<or> list_all (disjoint_regions (b, MG_PAGESIZE)) (chunks m)) \<and>
       list_all (disjoint_regions (spare m' b)) rs)"
  using wf mx szs few
proof (induction szs arbitrary: m ls ss)
  case Nil
  then show ?case by (intro exI [of _ "[]"] exI [of _ m] exI [of _ ls] exI [of _ ss]) simp
next
  case (Cons sz szs)
  then have sz: "unat sz + sizeof_large < 2 ^ 64" and first: "sz \<le> mx \<Longrightarrow> ss = []"
    by (auto split: if_splits)
  obtain a r m1 ls1 ss1 where step: "mg_palloc al pool sz m = Some (a, m1)"
      "pool_wf m1 pool ls1 ss1" "pools m1 = pools m" "chunks m1 = r # chunks m"
      "subregion (a, unat sz) r" "list_all (disjoint_regions r) (chunks m)"
      "if sz \<le> mx then ls1 = ls \<and> ss1 = [fst r] \<and> r = (fst r, MG_PAGESIZE) \<and>
         map_option sb_last (smalls m1 (fst r)) = Some (a + unat sz)
       else length ls1 = Suc (length ls) \<and> ss1 = ss \<and> smalls m1 = smalls m"
    by (rule mg_palloc_step [OF ok total Cons.prems(1,2) sz first])
  have few: "length (filter (\<lambda>sz. sz \<le> mx) szs) \<le> (if ss1 = [] then 1 else 0)"
    using Cons.prems(4) step(7) by (auto split: if_splits)
  obtain rs m2 ls2 ss2 where rest: "palloc_all al pool szs m1 = Some (rs, m2)" "map snd rs = map unat szs"
      "pairwise_disjoint rs" "list_all (\<lambda>r. list_all (disjoint_regions r) (chunks m1)) rs"
      "list_all (\<lambda>r. list_ex (subregion r) (chunks m2)) rs" "set (chunks m1) \<subseteq> set (chunks m2)"
      "pool_wf m2 pool ls2 ss2" "length ss2 = length ss1 + length (filter (\<lambda>sz. sz \<le> mx) szs)"
      "length (ls2 @ ss2) = length (ls1 @ ss1) + length szs"
      "ss1 \<noteq> [] \<longrightarrow> ss2 = ss1 \<and> smalls m2 = smalls m1"
      "\<forall>b \<in> set ss2. (b \<in> set ss1 \<or> list_all (disjoint_regions (b, MG_PAGESIZE)) (chunks m1)) \<and>
        list_all (disjoint_regions (spare m2 b)) rs"
  proof -
    have "map_option p_max (pools m1 pool) = Some mx" "list_all (\<lambda>sz. unat sz + sizeof_large < 2 ^ 64) szs"
      using Cons.prems(2,3) step(3) by simp_all
    from Cons.IH [OF step(2) this few] show ?thesis by (elim exE conjE) (rule that)
  qed
  have dis: "disjoint_regions (a, unat sz) s" if "disjoint_regions r s" for s
    using subregion_disjoint [OF step(5) that] .
  have "disjoint_regions r s" if "s \<in> set rs" for s
    using rest(4) step(4) that by (simp add: list_all_iff disjoint_regions_sym [of r s])
  then have rsd: "list_all (disjoint_regions (a, unat sz)) rs"
    by (simp add: list_all_iff dis)
  have csd: "list_all (disjoint_regions (a, unat sz)) (chunks m)"
    using step(6) by (simp add: list_all_iff dis)
  have sub: "list_ex (subregion (a, unat sz)) (chunks m2)"
    using step(4,5) rest(6) by (auto simp: list_ex_iff)
  have sp: "disjoint_regions (spare m2 b) (a, unat sz) \<and>
      (b \<in> set ss \<or> list_all (disjoint_regions (b, MG_PAGESIZE)) (chunks m))" if b: "b \<in> set ss2" for b
  proof (cases "sz \<le> mx")
    case True
    then have "ss2 = [fst r]" "smalls m2 = smalls m1" using step(7) rest(10) by auto
    then show ?thesis using b True step(6,7) by (auto simp: spare_def disjoint_regions_def)
  next
    case False
    have "disjoint_regions r (b, MG_PAGESIZE)"
    proof (cases "b \<in> set ss")
      case True
      then have "(b, MG_PAGESIZE) \<in> set (chunks m)"
        using Cons.prems(1) by (auto simp: pool_wf_def list_all_iff small_ok_def)
      then show ?thesis using step(6) by (auto simp: list_all_iff)
    next
      case no: False
      then show ?thesis
        using b False rest(11) step(4,7) by (auto simp: disjoint_regions_sym [of r])
    qed
    moreover have "subregion (spare m2 b) (b, MG_PAGESIZE)"
      using b rest(7) by (intro spare_subregion) (auto simp: pool_wf_def list_all_iff)
    ultimately have "disjoint_regions (spare m2 b) r"
      using subregion_disjoint disjoint_regions_sym by blast
    then show ?thesis
      using dis [of "spare m2 b"] b False rest(11) step(4,7) by (auto simp: disjoint_regions_sym)
  qed
  have keep: "ss \<noteq> [] \<longrightarrow> ss2 = ss \<and> smalls m2 = smalls m"
    using rest(10) step(7) first by (auto split: if_splits)
  have len: "length ss2 = length ss + length (filter (\<lambda>sz. sz \<le> mx) (sz # szs))"
      "length (ls2 @ ss2) = length (ls @ ss) + length (sz # szs)"
    using rest(8,9) step(7) first by (auto split: if_splits)
  have "palloc_all al pool (sz # szs) m = Some ((a, unat sz) # rs, m2)"
      "map snd ((a, unat sz) # rs) = map unat (sz # szs)" "pairwise_disjoint ((a, unat sz) # rs)"
      "set (chunks m) \<subseteq> set (chunks m2)"
    using step(1,4) rest(1-3,6) rsd by auto
  moreover have "list_all (\<lambda>r. list_all (disjoint_regions r) (chunks m)) ((a, unat sz) # rs)"
    using csd rest(4) step(4) by (simp add: list_all_iff)
  moreover have "list_all (\<lambda>r. list_ex (subregion r) (chunks m2)) ((a, unat sz) # rs)"
    using sub rest(5) by simp
  moreover have "\<forall>b \<in> set ss2. (b \<in> set ss \<or> list_all (disjoint_regions (b, MG_PAGESIZE)) (chunks m)) \<and>
      list_all (disjoint_regions (spare m2 b)) ((a, unat sz) # rs)"
    using sp rest(11) by simp
  ultimately show ?case using rest(7) keep len by blast
qed

text \<open>With a second small request the sequence is undefined.\<close>

lemma palloc_all_second_small:
  assumes ok: "malloc_ok al" and total: "\<forall>cs n. al cs n \<noteq> NULL"
    and wf: "pool_wf m pool ls ss" and mx: "map_option p_max (pools m pool) = Some mx"
    and szs: "list_all (\<lambda>sz. unat sz + sizeof_large < 2 ^ 64) szs"
    and many: "(if ss = [] then 1 else 0) < length (filter (\<lambda>sz. sz \<le> mx) szs)"
  shows "palloc_all al pool szs m = None"
  using wf mx szs many
proof (induction szs arbitrary: m ls ss)
  case (Cons sz szs)
  show ?case
  proof (cases "sz \<le> mx \<and> ss \<noteq> []")
    case True
    then obtain c ss1 where "ss = c # ss1" by (cases ss) auto
    then show ?thesis
      using mg_palloc_small_second [OF ok _ refl] Cons.prems(1,2) True total
      by (auto simp: mg_palloc_def pool_wf_def)
  next
    case False
    then have sz: "unat sz + sizeof_large < 2 ^ 64" and first: "sz \<le> mx \<Longrightarrow> ss = []"
      using Cons.prems(3) by auto
    obtain a r m1 ls1 ss1 where step: "mg_palloc al pool sz m = Some (a, m1)"
        "pool_wf m1 pool ls1 ss1" "pools m1 = pools m"
        "if sz \<le> mx then ls1 = ls \<and> ss1 = [fst r] \<and> r = (fst r, MG_PAGESIZE) \<and>
           map_option sb_last (smalls m1 (fst r)) = Some (a + unat sz)
         else length ls1 = Suc (length ls) \<and> ss1 = ss \<and> smalls m1 = smalls m"
      by (rule mg_palloc_step [OF ok total Cons.prems(1,2) sz first])
    have "(if ss1 = [] then 1 else 0) < length (filter (\<lambda>sz. sz \<le> mx) szs)"
      using Cons.prems(4) step(4) first by (auto split: if_splits)
    then have "palloc_all al pool szs m1 = None"
      using Cons.IH [OF step(2)] Cons.prems(2,3) step(3) by simp
    then show ?thesis using step(1) by simp
  qed
qed simp

section \<open>Destroying a pool\<close>

lemma find_chunk:
  "(p, n) \<in> set cs \<Longrightarrow> \<exists>k. find (\<lambda>c. fst c = p) cs = Some (p, k)"
  by (induction cs) auto

text \<open>
  Freeing a block ends the life of the list node inside it, so the step \<open>n = n->_next\<close> that
  follows reads freed memory.
\<close>

lemma mg_free_kills:
  assumes "mg_free p m = Some m'" "p \<noteq> NULL" "list_all (\<lambda>r. 0 < snd r) (chunks m)"
  shows "lists m' p = None"
  using assms by (auto simp: mg_free_def outside_def find_Some_iff list_all_length split: option.splits)

lemma free_large_loop_faults:
  assumes "large_ok m n" "n \<noteq> h" "n \<noteq> NULL" "list_all (\<lambda>r. 0 < snd r) (chunks m)"
  shows "free_large_loop h n m = None"
proof (cases "mg_free n m")
  case None
  with assms show ?thesis by (subst free_large_loop.simps) (simp add: large_ok_def)
next
  case (Some m')
  with assms have "lists m' n = None" by (intro mg_free_kills)
  with Some assms show ?thesis
    by (subst free_large_loop.simps) (simp add: large_ok_def field_def load_def)
qed

lemma free_small_loop_faults:
  assumes "small_ok m n" "n \<noteq> h" "n \<noteq> NULL" "list_all (\<lambda>r. 0 < snd r) (chunks m)"
  shows "free_small_loop h n m = None"
proof (cases "mg_free n m")
  case None
  with assms show ?thesis by (subst free_small_loop.simps) (auto simp: small_ok_def)
next
  case (Some m')
  with assms have "lists m' n = None" by (intro mg_free_kills)
  with Some assms show ?thesis
    by (subst free_small_loop.simps) (auto simp: small_ok_def field_def load_def)
qed

lemma free_loops_done [simp]: "free_large_loop h h m = Some m" "free_small_loop h h m = Some m"
  by (simp_all add: free_large_loop.simps [of h h] free_small_loop.simps [of h h])

lemma ring_hd_neq: "ring h l (x # xs) \<Longrightarrow> x \<noteq> l \<and> x \<noteq> NULL"
  by (auto simp: ring_def)

lemma mg_destory_pool_blocks:
  assumes wf: "pool_wf m pool ls ss" and ne: "ls \<noteq> [] \<or> ss \<noteq> []"
  shows "mg_destory_pool pool m = None"
proof (cases ls)
  case (Cons n ls')
  with wf have "ring (lists m) (large_of pool) (n # ls')" "large_ok m n"
      "list_all (\<lambda>r. 0 < snd r) (chunks m)"
    by (auto simp: pool_wf_def)
  then show ?thesis
    using ring_next [of "lists m" "large_of pool" "n # ls'"] ring_hd_neq
      free_large_loop_faults [of m n "large_of pool"]
    by (auto simp: mg_destory_pool_def)
next
  case Nil
  with ne obtain n ss' where ss: "ss = n # ss'" by (cases ss) auto
  with wf Nil have "ring (lists m) (large_of pool) []" "ring (lists m) (small_of pool) (n # ss')"
      "small_ok m n" "list_all (\<lambda>r. 0 < snd r) (chunks m)"
    by (auto simp: pool_wf_def)
  then show ?thesis
    using ring_next [of "lists m" "small_of pool" "n # ss'"] ring_next [of "lists m" "large_of pool" "[]"]
      ring_hd_neq free_small_loop_faults [of m n "small_of pool"]
    by (auto simp: mg_destory_pool_def)
qed

lemma mg_destory_pool_empty:
  assumes wf: "pool_wf m pool [] []"
  shows "\<exists>m' r. mg_destory_pool pool m = Some m' \<and> r \<in> set (chunks m) \<and> fst r = pool \<and>
    chunks m' = remove1 r (chunks m) \<and> pools m' pool = None"
proof -
  from wf have "ring (lists m) (large_of pool) []" "ring (lists m) (small_of pool) []"
    by (auto simp: pool_wf_def)
  then have eq: "mg_destory_pool pool m = mg_free pool m"
    using ring_next [of "lists m" "small_of pool" "[]"] ring_next [of "lists m" "large_of pool" "[]"]
    by (simp add: mg_destory_pool_def)
  obtain k where k: "find (\<lambda>c. fst c = pool) (chunks m) = Some (pool, k)"
    using wf find_chunk by (metis pool_wf_def)
  then have "(pool, k) \<in> set (chunks m)" by (auto simp: find_Some_iff)
  moreover from this wf have "0 < k" by (auto simp: pool_wf_def list_all_iff)
  ultimately show ?thesis
    using eq k wf by (auto simp: mg_free_def outside_def pool_wf_def)
qed

section \<open>Properties\<close>

text \<open>An allocator that satisfies the hypothesis: it hands out addresses above every live chunk.\<close>

definition bump_malloc :: allocator where
  "bump_malloc cs n = foldr (\<lambda>r a. max (fst r + snd r) a) cs 4096"

lemma bump_malloc_above: "r \<in> set cs \<Longrightarrow> fst r + snd r \<le> bump_malloc cs n"
  by (induction cs) (auto simp: bump_malloc_def)

lemma bump_malloc_pos: "4096 \<le> bump_malloc cs n"
  by (induction cs) (auto simp: bump_malloc_def)

lemma bump_malloc_ok: "malloc_ok bump_malloc"
  by (auto simp: malloc_ok_def list_all_iff disjoint_regions_def dest: bump_malloc_above)

lemma bump_malloc_total: "\<forall>cs n. bump_malloc cs n \<noteq> NULL"
  using bump_malloc_pos by (metis not_numeral_le_zero)

definition empty_mem :: mem where
  "empty_mem = \<lparr>lists = Map.empty, larges = Map.empty, smalls = Map.empty, pools = Map.empty, chunks = []\<rparr>"

definition demo_pool :: mem where
  "demo_pool = snd (the (mg_create_pool bump_malloc 100 empty_mem))"

lemma demo_pool_wf: "pool_wf demo_pool 4096 [] []"
    "map_option p_max (pools demo_pool 4096) = Some 100" "chunks demo_pool = [(4096, 48)]"
proof -
  have "bump_malloc (chunks empty_mem) sizeof_pool = 4096"
    by (simp add: bump_malloc_def empty_mem_def)
  then obtain m' where "mg_create_pool bump_malloc 100 empty_mem = Some (4096, m')" "pool_wf m' 4096 [] []"
      "chunks m' = [(4096, 48)]" "map_option p_max (pools m' 4096) = Some (min 100 MG_MAX_ALLOC_FROM_POOL)"
    using mg_create_pool_wf [OF bump_malloc_ok, of empty_mem 4096 100]
    by (auto simp: empty_mem_def sizeof_pool_def)
  then show "pool_wf demo_pool 4096 [] []" "map_option p_max (pools demo_pool 4096) = Some 100"
      "chunks demo_pool = [(4096, 48)]"
    by (auto simp: demo_pool_def pool_layout min_def)
qed

text \<open>
  C10: Create a pool and make any sequence of requests of it, when \<open>malloc\<close> succeeds and no request
  is so large that adding the block header wraps. If at most one request is small
  (\<open>sz \<le> _max\<close>, served from a page), every request is served: each returned region has the requested
  size, lies within a live chunk, overlaps neither another returned region nor a chunk that was
  live before, and the pool is intact, with one small block when there was a small request. What
  that block has left to give (\<open>_last\<close> up to \<open>_end\<close>) overlaps none of the regions that were handed
  out. As soon as a second request is small the sequence is undefined.
\<close>

theorem pool_allocations_disjoint:
  assumes "malloc_ok al" "\<forall>cs n. al cs n \<noteq> NULL"
    and "pairwise_disjoint (chunks m)" "list_all (\<lambda>r. 0 < snd r) (chunks m)"
    and "\<forall>a. smalls m a \<noteq> None \<longrightarrow> covered m a"
    and "list_all (\<lambda>sz. unat sz + sizeof_large < 2 ^ 64) szs"
  shows "\<exists>pool m1. mg_create_pool al req m = Some (pool, m1) \<and>
    (let few = filter (\<lambda>sz. sz \<le> min req MG_MAX_ALLOC_FROM_POOL) szs in
     if length few \<le> 1
     then \<exists>rs m2 ls ss. palloc_all al pool szs m1 = Some (rs, m2) \<and> map snd rs = map unat szs \<and>
       pairwise_disjoint rs \<and> list_all (\<lambda>r. list_all (disjoint_regions r) (chunks m1)) rs \<and>
       list_all (\<lambda>r. list_ex (subregion r) (chunks m2)) rs \<and>
       pool_wf m2 pool ls ss \<and> length ss = length few \<and> length (ls @ ss) = length szs \<and>
       (\<forall>b \<in> set ss. list_all (disjoint_regions (spare m2 b)) rs)
     else palloc_all al pool szs m1 = None)"
proof -
  define p where "p = al (chunks m) sizeof_pool"
  have p: "al (chunks m) sizeof_pool = p" "p \<noteq> NULL" using assms(2) by (auto simp: p_def)
  have "list_all (disjoint_regions (p, sizeof_pool)) (chunks m)"
    using assms(1) p by (auto simp: malloc_ok_def)
  then have "\<not> covered m (small_of p)"
    by (fastforce simp: covered_def list_all_iff disjoint_regions_bytes pool_layout)
  then have "smalls m (small_of p) = None" using assms(5) by blast
  then obtain m1 where m1: "mg_create_pool al req m = Some (p, m1)" "pool_wf m1 p [] []"
      "map_option p_max (pools m1 p) = Some (min req MG_MAX_ALLOC_FROM_POOL)"
    using mg_create_pool_wf [OF assms(1,3,4) p] by blast
  note few = palloc_all_ok [OF assms(1,2) m1(2,3) assms(6)]
  note many = palloc_all_second_small [OF assms(1,2) m1(2,3) assms(6)]
  show ?thesis
  proof (cases "length (filter (\<lambda>sz. sz \<le> min req MG_MAX_ALLOC_FROM_POOL) szs) \<le> 1")
    case True
    obtain rs m2 ls ss where rs: "palloc_all al p szs m1 = Some (rs, m2)" "map snd rs = map unat szs"
        "pairwise_disjoint rs" "list_all (\<lambda>r. list_all (disjoint_regions r) (chunks m1)) rs"
        "list_all (\<lambda>r. list_ex (subregion r) (chunks m2)) rs" "pool_wf m2 p ls ss"
        "length ss = length (filter (\<lambda>sz. sz \<le> min req MG_MAX_ALLOC_FROM_POOL) szs)"
        "length (ls @ ss) = length szs" "\<forall>b \<in> set ss. list_all (disjoint_regions (spare m2 b)) rs"
      using few [simplified if_P [OF refl], OF True] by (elim exE conjE) (rule that; fastforce)
    show ?thesis unfolding Let_def if_P [OF True]
      by (rule exI conjI m1(1) rs)+
  next
    case False
    then show ?thesis using many m1(1) by (simp add: Let_def)
  qed
qed

theorem pool_allocations_disjoint_witness:
  "(\<exists>rs m2 ls b. palloc_all bump_malloc 4096 [5000, 64, 200] demo_pool = Some (rs, m2) \<and>
     map snd rs = [5000, 64, 200] \<and> pairwise_disjoint rs \<and> pool_wf m2 4096 ls [b] \<and>
     list_all (disjoint_regions (spare m2 b)) rs) \<and>
   palloc_all bump_malloc 4096 [5000, 64, 32] demo_pool = None"
proof -
  note law = pool_allocations_disjoint
    [OF bump_malloc_ok bump_malloc_total, of empty_mem, where req = 100]
  have mx: "min 100 MG_MAX_ALLOC_FROM_POOL = 100" by (simp add: pool_layout min_def)
  have "snd (the (mg_create_pool bump_malloc 100 empty_mem)) = demo_pool"
      "fst (the (mg_create_pool bump_malloc 100 empty_mem)) = 4096"
    using mg_create_pool_wf [OF bump_malloc_ok, of empty_mem 4096 100]
    by (auto simp: demo_pool_def bump_malloc_def empty_mem_def)
  then have eq: "p = 4096 \<and> m1 = demo_pool"
    if "mg_create_pool bump_malloc 100 empty_mem = Some (p, m1)" for p m1
    using that by simp
  have em: "pairwise_disjoint (chunks empty_mem)" "list_all (\<lambda>r. 0 < snd r) (chunks empty_mem)"
      "\<forall>a. smalls empty_mem a \<noteq> None \<longrightarrow> covered empty_mem a"
    by (simp_all add: empty_mem_def)
  from law [OF em, of "[5000, 64, 200]"] obtain rs m2 ls ss
    where A: "palloc_all bump_malloc 4096 [5000, 64, 200] demo_pool = Some (rs, m2)"
      "map snd rs = [5000, 64, 200]" "pairwise_disjoint rs" "pool_wf m2 4096 ls ss" "length ss = 1"
      "\<forall>b \<in> set ss. list_all (disjoint_regions (spare m2 b)) rs"
    by (auto simp: mx sizeof_large_def Let_def simp del: palloc_all.simps dest!: eq)
  from A(5) obtain b where "ss = [b]" by (auto simp: length_Suc_conv)
  with A(4,6) have "pool_wf m2 4096 ls [b] \<and> list_all (disjoint_regions (spare m2 b)) rs" by simp
  moreover from law [OF em, of "[5000, 64, 32]"]
  have "palloc_all bump_malloc 4096 [5000, 64, 32] demo_pool = None"
    by (auto simp: mx sizeof_large_def Let_def simp del: palloc_all.simps dest!: eq)
  ultimately show ?thesis using A(1-3) by (elim conjE) (intro conjI exI; assumption)
qed

text \<open>
  Creating a pool caps \<open>_max\<close> so that a small request and its block header fit in one page, and
  the first small request returns a region inside a fresh page of \<open>MG_PAGESIZE\<close> bytes.
\<close>

theorem pool_create_and_first_small:
  assumes "malloc_ok al" "\<forall>cs n. al cs n \<noteq> NULL" "chunks m = []" "smalls m = Map.empty"
    and "sz \<le> min req MG_MAX_ALLOC_FROM_POOL"
  shows "\<exists>p m1 a m2 b. mg_create_pool al req m = Some (p, m1) \<and> mg_palloc al p sz m1 = Some (a, m2) \<and>
    pool_wf m2 p [] [b] \<and> a = b + sizeof_small \<and> subregion (a, unat sz) (b, MG_PAGESIZE) \<and>
    (b, MG_PAGESIZE) \<in> set (chunks m2)"
proof -
  define p where "p = al (chunks m) sizeof_pool"
  have p: "al (chunks m) sizeof_pool = p" "p \<noteq> NULL" using assms(2) by (auto simp: p_def)
  obtain m1 where m1: "mg_create_pool al req m = Some (p, m1)" "pool_wf m1 p [] []"
      "map_option p_max (pools m1 p) = Some (min req MG_MAX_ALLOC_FROM_POOL)"
    using mg_create_pool_wf [OF assms(1) _ _ p, of req] assms(3,4) that by auto
  define b where "b = al (chunks m1) MG_PAGESIZE"
  have b: "al (chunks m1) MG_PAGESIZE = b" "b \<noteq> NULL" using assms(2) by (auto simp: b_def)
  have sz: "sz \<le> MG_MAX_ALLOC_FROM_POOL" using assms(5) by simp
  obtain m2 where m2: "mg_palloc_small al p sz m1 = Some (b + sizeof_small, m2)" "pool_wf m2 p [] [b]"
      "chunks m2 = (b, MG_PAGESIZE) # chunks m1"
    using mg_palloc_small_first [OF assms(1) m1(2) sz b] by blast
  then have "mg_palloc al p sz m1 = Some (b + sizeof_small, m2)"
    using m1(2,3) assms(5) by (auto simp: mg_palloc_def pool_wf_def)
  with m1 m2 max_alloc_fits [OF sz] show ?thesis
    by (intro exI conjI) (auto simp: subregion_def)
qed

theorem pool_create_and_first_small_witness:
  "\<exists>p m1 a m2 b. mg_create_pool bump_malloc 100 empty_mem = Some (p, m1) \<and>
    mg_palloc bump_malloc p 64 m1 = Some (a, m2) \<and> pool_wf m2 p [] [b] \<and> a = b + sizeof_small \<and>
    subregion (a, unat (64 :: 64 word)) (b, MG_PAGESIZE) \<and> (b, MG_PAGESIZE) \<in> set (chunks m2)"
  by (rule pool_create_and_first_small [OF bump_malloc_ok bump_malloc_total])
    (auto simp: empty_mem_def pool_layout min_def)

text \<open>
  Once a pool holds a small block, a further small request for which \<open>malloc\<close> succeeds is
  undefined: the failure-counting loop starts at \<open>_current\<close>, which is still the list head embedded
  in the pool, and treats it as a block header.
\<close>

theorem pool_second_small_undefined:
  assumes "malloc_ok al" "pool_wf m pool ls (c # ss)"
    and "map_option p_max (pools m pool) = Some mx" "sz \<le> mx" "al (chunks m) MG_PAGESIZE \<noteq> NULL"
  shows "mg_palloc al pool sz m = None"
  using mg_palloc_small_second [OF assms(1,2) refl assms(5)] assms
  by (auto simp: mg_palloc_def pool_wf_def)

theorem pool_second_small_undefined_witness:
  "\<exists>m ls c. pool_wf m 4096 ls [c] \<and> mg_palloc bump_malloc 4096 64 m = None"
proof -
  have "(64 :: 64 word) \<le> MG_MAX_ALLOC_FROM_POOL" by (simp add: pool_layout)
  then obtain m b where m: "pool_wf m 4096 [] [b]" "pools m = pools demo_pool"
    using mg_palloc_small_first [OF bump_malloc_ok demo_pool_wf(1) _ refl] bump_malloc_total by blast
  then have "mg_palloc bump_malloc 4096 64 m = None"
    using demo_pool_wf(2) bump_malloc_total
    by (intro pool_second_small_undefined [OF bump_malloc_ok m(1), of 100]) auto
  with m show ?thesis by blast
qed

text \<open>
  Destroying a pool that still holds a block is undefined (the loops step to \<open>n->_next\<close> through
  a node that was just freed); destroying an empty pool frees exactly the pool's own chunk.
\<close>

theorem pool_destroy:
  assumes "pool_wf m pool ls ss"
  shows "(ls \<noteq> [] \<or> ss \<noteq> [] \<longrightarrow> mg_destory_pool pool m = None) \<and>
    (ls = [] \<and> ss = [] \<longrightarrow> (\<exists>m' r. mg_destory_pool pool m = Some m' \<and> r \<in> set (chunks m) \<and>
       fst r = pool \<and> chunks m' = remove1 r (chunks m) \<and> pools m' pool = None))"
  using mg_destory_pool_blocks [OF assms] mg_destory_pool_empty assms by blast

theorem pool_destroy_witness:
  "\<exists>m'. mg_destory_pool 4096 demo_pool = Some m' \<and> chunks m' = []"
  using pool_destroy [OF demo_pool_wf(1)] demo_pool_wf(3) by auto

text \<open>
  A large request within one header size of the address space wraps: the chunk that is asked of
  \<open>malloc\<close> is smaller than the request, so the returned buffer is not inside it.
\<close>

theorem pool_large_wraps:
  assumes "2 ^ 64 \<le> unat sz + sizeof_large" "mg_palloc_large al pool sz m = Some (a, m')" "a \<noteq> NULL"
  shows "\<exists>p n. chunks m' = (p, n) # chunks m \<and> n < sizeof_large \<and> a = p + sizeof_large \<and>
    n < unat sz \<and> \<not> subregion (a, unat sz) (p, n)"
proof -
  have "unat sz < 2 ^ 64" using unsigned_less [of sz] by simp
  then have "unat (sz + of_nat sizeof_large) = unat sz + sizeof_large - 2 ^ 64"
    using assms(1) by (simp add: unat_word_ariths sizeof_large_def unat_of_nat mod_if)
  with assms \<open>unat sz < 2 ^ 64\<close> show ?thesis
    by (auto simp: mg_palloc_large_def mg_malloc_def Let_def bind_eq_Some_conv subregion_def sizeof_large_def
        split: if_splits)
qed

theorem pool_large_wraps_witness:
  "\<exists>a m' p n. mg_palloc_large bump_malloc 4096 (- 1) demo_pool = Some (a, m') \<and>
     chunks m' = (p, n) # chunks demo_pool \<and> \<not> subregion (a, unat (- 1 :: 64 word)) (p, n)"
proof -
  let ?p = "bump_malloc (chunks demo_pool) 31"
  have r: "ring ((lists demo_pool)(?p \<mapsto> uninit_list)) (large_of 4096) []" and d: "?p \<noteq> large_of 4096"
    using pool_wf_fresh(1) [OF bump_malloc_ok demo_pool_wf(1), of 31 ?p] demo_pool_wf(1) bump_malloc_total
    by (auto simp: pool_wf_def nodes_def intro: ring_frame)
  obtain h' where "MG_LIST_PUSH_BACK ?p (large_of 4096) ((lists demo_pool)(?p \<mapsto> uninit_list)) = Some h'"
    using mgl.push_law [OF r, of ?p] d bump_malloc_total by auto
  then obtain a m' where am: "mg_palloc_large bump_malloc 4096 (- 1) demo_pool = Some (a, m')" "a \<noteq> NULL"
    using bump_malloc_total by (auto simp: mg_palloc_large_def mg_malloc_def Let_def sizeof_large_def)
  have "2 ^ 64 \<le> unat (- 1 :: 64 word) + sizeof_large"
    by (simp add: sizeof_large_def unsigned_minus_1_eq_mask mask_eq_exp_minus_1)
  from pool_large_wraps [OF this am(1,2)] am show ?thesis by auto
qed

end
