(* ===== verification/Rb_Links.thy ===== *)
theory Rb_Links
  imports Mg_Prelude "HOL-Library.Tree"
begin

text \<open>
  Pointer-linked binary trees, shared by the two red-black trees of the repository
  (\<^verbatim>\<open>core/mg_rbtree.h\<close> and \<^verbatim>\<open>utils/rbtree.h\<close>). A link heap holds the parent and child pointers of
  every node; \<open>tree_at m p q t\<close> says that the nodes reachable from \<open>p\<close> form the tree \<open>t\<close> of
  addresses with \<open>q\<close> as the parent of its root. Rotations and leaf insertion are related to
  their effect on the tree: the in-order sequence is what they preserve or extend.
\<close>

section \<open>Links and trees of addresses\<close>

record links =
  lk_parent :: addr
  lk_lchild :: addr
  lk_rchild :: addr

type_synonym lks = "links heap"

fun tree_at :: "lks \<Rightarrow> addr \<Rightarrow> addr \<Rightarrow> addr tree \<Rightarrow> bool" where
  "tree_at m p q Leaf = (p = NULL)"
| "tree_at m p q (Node l a r) = (p = a \<and> a \<noteq> NULL \<and>
     (\<exists>n. m a = Some n \<and> lk_parent n = q \<and> tree_at m (lk_lchild n) a l \<and> tree_at m (lk_rchild n) a r))"

definition rooted :: "lks \<Rightarrow> addr \<Rightarrow> addr tree \<Rightarrow> bool" where
  "rooted m p t \<longleftrightarrow> tree_at m p NULL t \<and> distinct (inorder t)"

lemma tree_at_null: "tree_at m p q t \<Longrightarrow> (p = NULL) = (t = Leaf)"
  by (cases t) auto

lemma tree_at_root_in: "tree_at m p q t \<Longrightarrow> p \<noteq> NULL \<Longrightarrow> p \<in> set_tree t"
  by (cases t) auto

lemma tree_at_not_null: "tree_at m p q t \<Longrightarrow> NULL \<notin> set_tree t"
  by (induction t arbitrary: p q) auto

lemma tree_at_dom: "tree_at m p q t \<Longrightarrow> a \<in> set_tree t \<Longrightarrow> \<exists>n. m a = Some n"
  by (induction t arbitrary: p q) auto

lemma tree_at_root_notin:
  "tree_at m p q t \<Longrightarrow> tree_at m' p' q' t' \<Longrightarrow> set_tree t \<inter> set_tree t' = {} \<Longrightarrow> p \<notin> set_tree t'"
  using tree_at_root_in [of m p q t] tree_at_not_null [of m' p' q' t'] by (cases "p = NULL") auto

lemma tree_at_frame:
  "tree_at m p q t \<Longrightarrow> (\<And>a. a \<in> set_tree t \<Longrightarrow> m' a = m a) \<Longrightarrow> tree_at m' p q t"
  by (induction t arbitrary: p q) auto

lemma tree_at_unique: "tree_at m p q t \<Longrightarrow> tree_at m p q' t' \<Longrightarrow> t = t'"
proof (induction t arbitrary: p q q' t')
  case Leaf
  then show ?case by (cases t') auto
next
  case (Node l a r)
  then show ?case by (cases t') fastforce+
qed

text \<open>Every node of a tree is the root of a subtree; its children point back to it.\<close>

lemma tree_at_subtree:
  assumes "tree_at m p q t" "a \<in> set_tree t" "m a = Some n"
  shows "\<exists>l r. tree_at m (lk_lchild n) a l \<and> tree_at m (lk_rchild n) a r \<and> set_tree (Node l a r) \<subseteq> set_tree t"
  using assms
proof (induction t arbitrary: p q)
  case (Node l b r)
  then obtain k where k: "m b = Some k" "tree_at m (lk_lchild k) b l" "tree_at m (lk_rchild k) b r"
    by auto
  show ?case
  proof (cases "a = b")
    case True
    with k Node.prems have "tree_at m (lk_lchild n) a l \<and> tree_at m (lk_rchild n) a r \<and>
        set_tree (Node l a r) \<subseteq> set_tree (Node l b r)" by auto
    then show ?thesis by blast
  next
    case False
    with Node.prems consider "a \<in> set_tree l" | "a \<in> set_tree r" by auto
    then show ?thesis
      using Node.IH(1) [OF k(2)] Node.IH(2) [OF k(3)] Node.prems(3) by cases fastforce+
  qed
qed simp

lemma tree_at_root_node:
  "tree_at m p q t \<Longrightarrow> p \<noteq> NULL \<Longrightarrow> p \<in> set_tree t \<and> map_option lk_parent (m p) = Some q"
  by (cases t) auto

lemma tree_at_children:
  assumes "tree_at m p q t" "a \<in> set_tree t" "m a = Some n"
  shows "lk_lchild n \<noteq> NULL \<Longrightarrow> lk_lchild n \<in> set_tree t \<and> map_option lk_parent (m (lk_lchild n)) = Some a"
    and "lk_rchild n \<noteq> NULL \<Longrightarrow> lk_rchild n \<in> set_tree t \<and> map_option lk_parent (m (lk_rchild n)) = Some a"
  using tree_at_subtree [OF assms] tree_at_root_node by fastforce+

text \<open>The parent of a node other than the root is in the tree, and has the node as a child.\<close>

lemma tree_at_parent:
  assumes "tree_at m p q t" "a \<in> set_tree t" "m a = Some n" "distinct (inorder t)"
  shows "a = p \<Longrightarrow> lk_parent n = q"
    and "a \<noteq> p \<Longrightarrow> lk_parent n \<in> set_tree t \<and>
      (\<exists>k. m (lk_parent n) = Some k \<and> (lk_lchild k = a \<or> lk_rchild k = a))"
  using assms
proof (induction t arbitrary: p q)
  case (Node l b r)
  {
    case 1
    with Node show ?case by (auto dest: tree_at_root_in)
  next
    case 2
    then have neq: "a \<noteq> b" by auto
    from 2 obtain k where k: "m b = Some k" "tree_at m (lk_lchild k) b l" "tree_at m (lk_rchild k) b r"
        "distinct (inorder l)" "distinct (inorder r)"
      by auto
    from 2 neq consider "a \<in> set_tree l" | "a \<in> set_tree r" by auto
    then show ?case
    proof cases
      case 1
      with Node.IH(1) [of "lk_lchild k" b] Node.IH(2) [of "lk_lchild k" b] k 2 neq show ?thesis
        by (cases "a = lk_lchild k") auto
    next
      case 2
      with Node.IH(3) [of "lk_rchild k" b] Node.IH(4) [of "lk_rchild k" b] k \<open>m a = Some n\<close> neq show ?thesis
        by (cases "a = lk_rchild k") auto
    qed
  }
qed auto

lemma inorder_empty_tree [simp]: "set (inorder t) = set_tree t"
  by (induction t) auto

section \<open>Mirror images\<close>

text \<open>
  Exchanging the child pointers mirrors the tree; every fact about left rotations gives the one about
  right rotations.
\<close>

definition flip_links :: "lks \<Rightarrow> lks" where
  "flip_links m = (\<lambda>a. map_option (\<lambda>n. n\<lparr>lk_lchild := lk_rchild n, lk_rchild := lk_lchild n\<rparr>) (m a))"

lemma flip_flip [simp]: "flip_links (flip_links m) = m"
  by (rule ext) (simp add: flip_links_def option.map_comp comp_def option.map_ident)

lemma tree_at_flip: "tree_at m p q t \<Longrightarrow> tree_at (flip_links m) p q (mirror t)"
  by (induction t arbitrary: p q) (auto simp: flip_links_def)

lemma inorder_mirror_rev: "inorder (mirror t) = rev (inorder t)"
  by (induction t) auto

lemma set_tree_mirror [simp]: "set_tree (mirror t) = set_tree t"
  by (induction t) auto

lemma rooted_flip: "rooted m p t \<Longrightarrow> rooted (flip_links m) p (mirror t)"
  by (simp add: rooted_def tree_at_flip inorder_mirror_rev)

section \<open>Rotations\<close>

fun rotl_at :: "addr \<Rightarrow> addr tree \<Rightarrow> addr tree" where
  "rotl_at a Leaf = Leaf"
| "rotl_at a (Node l b r) = (if a = b
     then (case r of Leaf \<Rightarrow> Node l b r | Node rl c rr \<Rightarrow> Node (Node l b rl) c rr)
     else Node (rotl_at a l) b (rotl_at a r))"

definition rotr_at :: "addr \<Rightarrow> addr tree \<Rightarrow> addr tree" where
  "rotr_at a t = mirror (rotl_at a (mirror t))"

lemma inorder_rotl [simp]: "inorder (rotl_at a t) = inorder t"
  by (induction a t rule: rotl_at.induct) (auto split: tree.splits)

lemma inorder_rotr [simp]: "inorder (rotr_at a t) = inorder t"
  by (simp add: rotr_at_def inorder_mirror_rev)

lemma rotl_at_id: "a \<notin> set_tree t \<Longrightarrow> rotl_at a t = t"
  by (induction a t rule: rotl_at.induct) auto

text \<open>
  What a left rotation at \<open>a\<close>, whose right child is \<open>c\<close>, leaves in the link heap: the left child
  of \<open>c\<close> moves under \<open>a\<close>, \<open>a\<close> becomes the left child of \<open>c\<close>, and the former parent of \<open>a\<close>
  points to \<open>c\<close>.
\<close>

definition rotated_left :: "lks \<Rightarrow> lks \<Rightarrow> addr \<Rightarrow> addr \<Rightarrow> bool" where
  "rotated_left m m' a c \<longleftrightarrow> (\<exists>na nc. m a = Some na \<and> lk_rchild na = c \<and> m c = Some nc \<and>
     m' a = Some (na\<lparr>lk_rchild := lk_lchild nc, lk_parent := c\<rparr>) \<and>
     m' c = Some (nc\<lparr>lk_lchild := a, lk_parent := lk_parent na\<rparr>) \<and>
     (\<forall>x n. x \<notin> {a, c, NULL} \<longrightarrow> m x = Some n \<longrightarrow> \<not> (x = lk_parent na \<and> lk_lchild n = a \<and> lk_rchild n = a) \<longrightarrow>
        m' x = Some (n\<lparr>
          lk_parent := (if x = lk_lchild nc then a else lk_parent n),
          lk_lchild := (if x = lk_parent na \<and> lk_lchild n = a then c else lk_lchild n),
          lk_rchild := (if x = lk_parent na \<and> lk_rchild n = a then c else lk_rchild n)\<rparr>)))"

definition rotated_right :: "lks \<Rightarrow> lks \<Rightarrow> addr \<Rightarrow> addr \<Rightarrow> bool" where
  "rotated_right m m' a c \<longleftrightarrow> (\<exists>na nc. m a = Some na \<and> lk_lchild na = c \<and> m c = Some nc \<and>
     m' a = Some (na\<lparr>lk_lchild := lk_rchild nc, lk_parent := c\<rparr>) \<and>
     m' c = Some (nc\<lparr>lk_rchild := a, lk_parent := lk_parent na\<rparr>) \<and>
     (\<forall>x n. x \<notin> {a, c, NULL} \<longrightarrow> m x = Some n \<longrightarrow> \<not> (x = lk_parent na \<and> lk_lchild n = a \<and> lk_rchild n = a) \<longrightarrow>
        m' x = Some (n\<lparr>
          lk_parent := (if x = lk_rchild nc then a else lk_parent n),
          lk_lchild := (if x = lk_parent na \<and> lk_lchild n = a then c else lk_lchild n),
          lk_rchild := (if x = lk_parent na \<and> lk_rchild n = a then c else lk_rchild n)\<rparr>)))"

lemma rotated_frame:
  assumes "rotated_left m m' a c" "m a = Some na" "m c = Some nc"
    and "x \<notin> {a, c, lk_lchild nc, lk_parent na}" "m x = Some n" "x \<noteq> NULL"
  shows "m' x = Some n"
  using assms by (auto simp: rotated_left_def)

lemma tree_at_rotated_frame:
  assumes rot: "rotated_left m m' a c" "m a = Some na" "m c = Some nc"
    and "tree_at m p q t" "set_tree t \<inter> {a, c, lk_lchild nc, lk_parent na} = {}"
  shows "tree_at m' p q t"
proof (rule tree_at_frame [OF assms(4)])
  fix x
  assume x: "x \<in> set_tree t"
  then obtain n where "m x = Some n" using tree_at_dom [OF assms(4)] by blast
  moreover have "x \<noteq> NULL" using x tree_at_not_null [OF assms(4)] by metis
  ultimately show "m' x = m x" using rotated_frame [OF rot, of x n] x assms(5) by auto
qed

text \<open>The rotated subtree itself.\<close>

lemma tree_at_rotl_here:
  assumes rot: "rotated_left m m' a c" and t: "tree_at m a q (Node l a r)" and c: "c \<noteq> NULL"
    and d: "distinct (inorder (Node l a r))" and q: "q \<notin> set_tree (Node l a r)"
  shows "tree_at m' c q (rotl_at a (Node l a r))"
proof -
  from rot obtain na nc where n: "m a = Some na" "lk_rchild na = c" "m c = Some nc"
      "m' a = Some (na\<lparr>lk_rchild := lk_lchild nc, lk_parent := c\<rparr>)"
      "m' c = Some (nc\<lparr>lk_lchild := a, lk_parent := lk_parent na\<rparr>)"
    by (auto simp: rotated_left_def)
  with t c obtain rl rr where r: "r = Node rl c rr" by (cases r) auto
  from t n r have at: "lk_parent na = q" "tree_at m (lk_lchild na) a l"
      "tree_at m (lk_lchild nc) c rl" "tree_at m (lk_rchild nc) c rr" by auto
  have "lk_lchild nc \<notin> set_tree l" "lk_lchild nc \<notin> set_tree rr"
    using d r tree_at_root_notin [OF at(3,2)] tree_at_root_notin [OF at(3,4)] by auto
  note at = at this
  have l': "tree_at m' (lk_lchild na) a l"
    using d q r at
    by (intro tree_at_rotated_frame [OF rot n(1,3) at(2)]) auto
  have rr': "tree_at m' (lk_rchild nc) c rr"
    using d q r at
    by (intro tree_at_rotated_frame [OF rot n(1,3) at(4)]) auto
  have rl': "tree_at m' (lk_lchild nc) a rl"
  proof (cases rl)
    case Leaf
    with at show ?thesis by simp
  next
    case (Node bl b br)
    with at obtain nb where nb: "b = lk_lchild nc" "m b = Some nb" "b \<noteq> NULL"
        "tree_at m (lk_lchild nb) b bl" "tree_at m (lk_rchild nb) b br" by auto
    have "m' b = Some (nb\<lparr>lk_parent := a\<rparr>)"
      using rot nb n at(1) d q r Node by (auto simp: rotated_left_def)
    moreover have "tree_at m' (lk_lchild nb) b bl" "tree_at m' (lk_rchild nb) b br"
      using d q r Node at(1) nb
      by (intro tree_at_rotated_frame [OF rot n(1,3)]; auto)+
    ultimately show ?thesis using Node nb by auto
  qed
  from t n c l' rl' rr' at(1) show ?thesis by (auto simp: r)
qed

text \<open>
  Outside the rotated subtree nothing changes but the one child pointer of the parent.
\<close>

lemma rotated_left_other:
  assumes rot: "rotated_left m m' a c" and t: "tree_at m p q t" "distinct (inorder t)" "a \<in> set_tree t"
    and c: "c \<noteq> NULL" and s: "tree_at m p' x s" "set_tree s \<inter> set_tree t = {}" "q \<notin> set_tree s"
  shows "tree_at m' p' x s"
proof -
  from rot obtain na nc where n: "m a = Some na" "lk_rchild na = c" "m c = Some nc"
    by (auto simp: rotated_left_def)
  have ch: "c \<in> set_tree t" using tree_at_children(2) [OF t(1,3) n(1)] c n(2) by simp
  have "lk_lchild nc \<notin> set_tree s"
    using tree_at_children(1) [OF t(1) ch n(3)] s tree_at_not_null [OF s(1)]
    by (cases "lk_lchild nc = NULL") auto
  moreover have "lk_parent na \<notin> set_tree s"
    using tree_at_parent [OF t(1,3) n(1) t(2)] s by (cases "a = p") auto
  ultimately show ?thesis
    using ch s t by (intro tree_at_rotated_frame [OF rot n(1,3) s(1)]) auto
qed

lemma tree_at_rotl:
  assumes rot: "rotated_left m m' a c" and c: "c \<noteq> NULL"
    and "tree_at m p q t" "distinct (inorder t)" "q \<notin> set_tree t" "a \<in> set_tree t"
  shows "tree_at m' (if p = a then c else p) q (rotl_at a t)"
  using assms(3-6)
proof (induction t arbitrary: p q)
  case (Node l b r)
  from rot obtain na nc where n: "m a = Some na" "lk_rchild na = c" "m c = Some nc"
    by (auto simp: rotated_left_def)
  show ?case
  proof (cases "a = b")
    case True
    with Node.prems show ?thesis using tree_at_rotl_here [OF rot _ c, of q l r] by auto
  next
    case False
    from Node.prems obtain k where k: "p = b" "b \<noteq> NULL" "m b = Some k" "lk_parent k = q"
        "tree_at m (lk_lchild k) b l" "tree_at m (lk_rchild k) b r" by auto
    from Node.prems have d: "distinct (inorder l)" "distinct (inorder r)" "b \<notin> set_tree l" "b \<notin> set_tree r"
        "set_tree l \<inter> set_tree r = {}" "set_tree r \<inter> set_tree l = {}" by auto
    show ?thesis
    proof (cases "a \<in> set_tree l")
      case True
      note IH = Node.IH(1) [OF k(5) d(1,3) True]
      have r': "tree_at m' (lk_rchild k) b r"
        using rotated_left_other [OF rot k(5) d(1) True c k(6)] d by auto
      have "c \<in> set_tree l" using tree_at_children(2) [OF k(5) True n(1)] c n(2) by simp
      then have bc: "b \<noteq> c" "b \<noteq> lk_lchild nc"
        using d(3) tree_at_children(1) [OF k(5) _ n(3)] k(2) by (cases "lk_lchild nc = NULL"; auto)+
      have ra: "lk_rchild k \<noteq> a" using True d(5) tree_at_root_in [OF k(6)] tree_at_not_null [OF k(5)]
        by (cases "lk_rchild k = NULL") auto
      have par: "lk_lchild k = a \<Longrightarrow> lk_parent na = b"
        using tree_at_parent(1) [OF k(5) True n(1) d(1)] by simp
      have "m' b = Some (k\<lparr>lk_lchild := (if lk_lchild k = a then c else lk_lchild k)\<rparr>)"
        using rot n bc k False ra par by (auto simp: rotated_left_def)
      with IH r' k False True d(5) show ?thesis
        by (auto simp: rotl_at_id disjoint_iff split: if_splits)
    next
      case nl: False
      with Node.prems False have True: "a \<in> set_tree r" by auto
      note IH = Node.IH(2) [OF k(6) d(2,4) True]
      have l': "tree_at m' (lk_lchild k) b l"
        using rotated_left_other [OF rot k(6) d(2) True c k(5)] d by auto
      have "c \<in> set_tree r" using tree_at_children(2) [OF k(6) True n(1)] c n(2) by simp
      then have bc: "b \<noteq> c" "b \<noteq> lk_lchild nc"
        using d(4) tree_at_children(1) [OF k(6) _ n(3)] k(2) by (cases "lk_lchild nc = NULL"; auto)+
      have la: "lk_lchild k \<noteq> a" using True d(5) tree_at_root_in [OF k(5)] tree_at_not_null [OF k(6)]
        by (cases "lk_lchild k = NULL") auto
      have par: "lk_rchild k = a \<Longrightarrow> lk_parent na = b"
        using tree_at_parent(1) [OF k(6) True n(1) d(2)] by simp
      have "m' b = Some (k\<lparr>lk_rchild := (if lk_rchild k = a then c else lk_rchild k)\<rparr>)"
        using rot n bc k False la par by (auto simp: rotated_left_def)
      with IH l' k False True nl show ?thesis
        by (auto simp: rotl_at_id split: if_splits)
    qed
  qed
qed simp

lemma rooted_rotl:
  assumes "rooted m p t" "a \<in> set_tree t" "rotated_left m m' a c" "c \<noteq> NULL"
  shows "rooted m' (if p = a then c else p) (rotl_at a t)"
  using assms(1,2) tree_at_rotl [OF assms(3,4), of p NULL t] tree_at_not_null [of m p NULL t]
  by (simp add: rooted_def)

lemma rotated_right_flip: "rotated_right m m' a c \<Longrightarrow> rotated_left (flip_links m) (flip_links m') a c"
  by (auto simp: rotated_right_def rotated_left_def flip_links_def)

lemma rooted_rotr:
  assumes "rooted m p t" "a \<in> set_tree t" "rotated_right m m' a c" "c \<noteq> NULL"
  shows "rooted m' (if p = a then c else p) (rotr_at a t)"
proof -
  have "rooted (flip_links m') (if p = a then c else p) (rotl_at a (mirror t))"
    using rooted_rotl [OF rooted_flip [OF assms(1)] _ rotated_right_flip [OF assms(3)] assms(4)] assms(2)
    by simp
  then show ?thesis
    using rooted_flip [of "flip_links m'"] by (auto simp: rotr_at_def)
qed

section \<open>Depth\<close>

fun depth_of :: "addr \<Rightarrow> addr tree \<Rightarrow> nat" where
  "depth_of a Leaf = 0"
| "depth_of a (Node l b r) =
    (if a = b then 0 else if a \<in> set_tree l then Suc (depth_of a l) else Suc (depth_of a r))"

lemma depth_of_parent:
  assumes "tree_at m p q t" "distinct (inorder t)" "a \<in> set_tree t" "a \<noteq> p" "m a = Some n"
  shows "depth_of a t = Suc (depth_of (lk_parent n) t)"
  using assms
proof (induction t arbitrary: p q)
  case (Node l b r)
  then obtain k where k: "p = b" "m b = Some k" "tree_at m (lk_lchild k) b l" "tree_at m (lk_rchild k) b r"
      "distinct (inorder l)" "distinct (inorder r)" "a \<noteq> b" by auto
  show ?case
  proof (cases "a \<in> set_tree l")
    case True
    show ?thesis
    proof (cases "a = lk_lchild k")
      case root: True
      then have "lk_parent n = b" using tree_at_parent(1) [OF k(3) True Node.prems(5) k(5)] by simp
      moreover have "depth_of a l = 0" using root k(3) True by (cases l) auto
      ultimately show ?thesis using True k(7) by simp
    next
      case False
      then have "lk_parent n \<in> set_tree l" using tree_at_parent(2) [OF k(3) True Node.prems(5) k(5)] by simp
      with Node.IH(1) [OF k(3,5) True False Node.prems(5)] True Node.prems(2) k(7) show ?thesis by auto
    qed
  next
    case False
    with Node.prems(3) k(7) have True: "a \<in> set_tree r" by auto
    show ?thesis
    proof (cases "a = lk_rchild k")
      case root: True
      then have "lk_parent n = b" using tree_at_parent(1) [OF k(4) True Node.prems(5) k(6)] by simp
      moreover have "depth_of a r = 0" using root k(4) True by (cases r) auto
      ultimately show ?thesis using False k(7) by simp
    next
      case neq: False
      then have "lk_parent n \<in> set_tree r" using tree_at_parent(2) [OF k(4) True Node.prems(5) k(6)] by simp
      with Node.IH(2) [OF k(4,6) True neq Node.prems(5)] False Node.prems(2) k(7) show ?thesis by auto
    qed
  qed
qed simp

lemma rooted_parent_null:
  assumes "rooted m p t" "a \<in> set_tree t" "m a = Some n"
  shows "lk_parent n = NULL \<longleftrightarrow> a = p"
proof -
  from assms have t: "tree_at m p NULL t" "distinct (inorder t)" by (auto simp: rooted_def)
  note par = tree_at_parent [OF t(1) assms(2,3) t(2)]
  have "lk_parent n \<noteq> NULL" if "a \<noteq> p"
    using par(2) [OF that] tree_at_not_null [OF t(1)] by metis
  with par(1) show ?thesis by blast
qed

lemma rooted_child_depth:
  assumes "rooted m p t" "a \<in> set_tree t" "m c = Some nc" "c \<in> set_tree t" "lk_parent nc = a"
  shows "depth_of c t = Suc (depth_of a t)"
proof -
  from assms have t: "tree_at m p NULL t" "distinct (inorder t)" by (auto simp: rooted_def)
  have "a \<noteq> NULL" using tree_at_not_null [OF t(1)] assms(2) by metis
  then have "c \<noteq> p" using rooted_parent_null [OF assms(1,4,3)] assms(5) by auto
  then show ?thesis using depth_of_parent [OF t assms(4) _ assms(3)] assms(5) by simp
qed

lemma rooted_child:
  assumes "rooted m p t" "a \<in> set_tree t" "m a = Some n" "c = lk_lchild n \<or> c = lk_rchild n" "c \<noteq> NULL"
  obtains k where "m c = Some k" "lk_parent k = a" "c \<in> set_tree t" "depth_of c t = Suc (depth_of a t)"
proof -
  from assms have "tree_at m p NULL t" by (auto simp: rooted_def)
  with assms have "c \<in> set_tree t \<and> map_option lk_parent (m c) = Some a"
    using tree_at_children [of m p NULL t a n] by auto
  then obtain k where "m c = Some k" "lk_parent k = a" "c \<in> set_tree t" by auto
  with that rooted_child_depth [OF assms(1,2)] show ?thesis by blast
qed

lemma rooted_parent:
  assumes "rooted m p t" "a \<in> set_tree t" "m a = Some n" "a \<noteq> p"
  obtains k where "m (lk_parent n) = Some k" "lk_parent n \<in> set_tree t" "lk_parent n \<noteq> NULL"
    "lk_lchild k = a \<or> lk_rchild k = a" "depth_of a t = Suc (depth_of (lk_parent n) t)"
proof -
  from assms have t: "tree_at m p NULL t" "distinct (inorder t)" by (auto simp: rooted_def)
  from tree_at_parent(2) [OF t(1) assms(2,3) t(2) assms(4)] obtain k where
      "m (lk_parent n) = Some k" "lk_parent n \<in> set_tree t" "lk_lchild k = a \<or> lk_rchild k = a"
    by auto
  moreover have "lk_parent n \<noteq> NULL" using rooted_parent_null [OF assms(1-3)] assms(4) by simp
  moreover have "depth_of a t = Suc (depth_of (lk_parent n) t)"
    using depth_of_parent [OF t assms(2,4,3)] .
  ultimately show ?thesis using that by blast
qed

lemma tree_at_children_differ:
  "tree_at m p q t \<Longrightarrow> distinct (inorder t) \<Longrightarrow> a \<in> set_tree t \<Longrightarrow> m a = Some n \<Longrightarrow>
   lk_lchild n = lk_rchild n \<Longrightarrow> lk_lchild n = NULL"
proof (induction t arbitrary: p q)
  case (Node l x r)
  show ?case
  proof (cases "a = x")
    case True
    with Node.prems have "tree_at m (lk_lchild n) a l" "tree_at m (lk_lchild n) a r" by auto
    then have "l = r" by (rule tree_at_unique)
    with Node.prems(2) have "l = Leaf" by (cases l) auto
    with \<open>tree_at m (lk_lchild n) a l\<close> show ?thesis by simp
  next
    case False
    with Node show ?thesis by auto
  qed
qed simp

lemma rooted_children_differ:
  "rooted m p t \<Longrightarrow> a \<in> set_tree t \<Longrightarrow> m a = Some n \<Longrightarrow> lk_lchild n \<noteq> NULL \<Longrightarrow> lk_lchild n \<noteq> lk_rchild n"
  using tree_at_children_differ by (metis rooted_def)

text \<open>
  The nodes around a rotation at \<open>a\<close> with child \<open>c\<close>: the parent of \<open>a\<close>, \<open>a\<close>, \<open>c\<close> and the
  children of \<open>c\<close> are live and pairwise different.
\<close>

definition rot_context :: "lks \<Rightarrow> addr \<Rightarrow> links \<Rightarrow> addr \<Rightarrow> links \<Rightarrow> bool" where
  "rot_context m a la c lc \<longleftrightarrow> a \<noteq> NULL \<and> a \<noteq> c \<and> lk_parent la \<noteq> a \<and> lk_parent la \<noteq> c \<and>
     (lk_parent la \<noteq> NULL \<longrightarrow> (\<exists>k. m (lk_parent la) = Some k \<and> (lk_lchild k = a \<or> lk_rchild k = a))) \<and>
     (\<forall>b \<in> {lk_lchild lc, lk_rchild lc}. b \<noteq> a \<and> b \<noteq> c \<and> (b \<noteq> NULL \<longrightarrow> (\<exists>k. m b = Some k)) \<and>
        (lk_parent la \<noteq> NULL \<longrightarrow> lk_parent la \<noteq> b))"

lemma rot_contextI:
  assumes r: "rooted m p T" and a: "a \<in> set_tree T" "m a = Some la"
    and c: "c = lk_lchild la \<or> c = lk_rchild la" "c \<noteq> NULL"
  shows "\<exists>lc. m c = Some lc \<and> rot_context m a la c lc"
proof -
  obtain lc where lc: "m c = Some lc" "c \<in> set_tree T" "depth_of c T = Suc (depth_of a T)"
    using rooted_child [OF r a c] by blast
  have a0: "a \<noteq> NULL" using a(1) r tree_at_not_null by (metis rooted_def)
  have ac: "a \<noteq> c" using lc(3) by auto
  have par: "lk_parent la = NULL \<or> (\<exists>k. m (lk_parent la) = Some k \<and>
      (lk_lchild k = a \<or> lk_rchild k = a) \<and> depth_of a T = Suc (depth_of (lk_parent la) T))"
  proof (cases "a = p")
    case True
    then show ?thesis using rooted_parent_null [OF r a] by simp
  next
    case False
    then show ?thesis using rooted_parent [OF r a] by blast
  qed
  have chi: "b = NULL \<or> (\<exists>k. m b = Some k) \<and> depth_of b T = Suc (Suc (depth_of a T))"
    if "b \<in> {lk_lchild lc, lk_rchild lc}" for b
  proof (cases "b = NULL")
    case False
    then show ?thesis using rooted_child [OF r lc(2,1) _ False] lc(3) that by force
  qed simp
  have "b \<noteq> a \<and> b \<noteq> c \<and> (b \<noteq> NULL \<longrightarrow> (\<exists>k. m b = Some k)) \<and>
      (lk_parent la \<noteq> NULL \<longrightarrow> lk_parent la \<noteq> b)" if "b \<in> {lk_lchild lc, lk_rchild lc}" for b
  proof (cases "b = NULL")
    case True
    with a0 c(2) show ?thesis by auto
  next
    case False
    with chi [OF that] have k: "\<exists>k. m b = Some k" and d: "depth_of b T = Suc (Suc (depth_of a T))" by auto
    have "b \<noteq> a" using d by force
    moreover have "b \<noteq> c" using d lc(3) by force
    moreover have "lk_parent la \<noteq> b" if "lk_parent la \<noteq> NULL"
    proof -
      from par that have "depth_of a T = Suc (depth_of (lk_parent la) T)" by blast
      with d show ?thesis by force
    qed
    ultimately show ?thesis using k by blast
  qed
  moreover have "lk_parent la \<noteq> a" using par a0 by force
  moreover have "lk_parent la \<noteq> c"
  proof
    assume "lk_parent la = c"
    with par c(2) have "depth_of a T = Suc (depth_of c T)" by auto
    with lc(3) show False by simp
  qed
  moreover have "lk_parent la \<noteq> NULL \<longrightarrow>
      (\<exists>k. m (lk_parent la) = Some k \<and> (lk_lchild k = a \<or> lk_rchild k = a))"
    using par by metis
  ultimately have "rot_context m a la c lc"
    using a0 ac by (simp add: rot_context_def)
  with lc(1) show ?thesis by blast
qed

section \<open>Searching and inserting by key\<close>

text \<open>
  \<open>k\<close> gives the key of a node. \<open>tsearch\<close> is the search for a key, \<open>last_node\<close> the last node the
  descent towards a missing key visits, \<open>ins_leaf\<close> the tree with a new leaf hung there.
\<close>

fun tsearch :: "(addr \<Rightarrow> 'v :: linorder) \<Rightarrow> 'v \<Rightarrow> addr tree \<Rightarrow> addr" where
  "tsearch k v Leaf = NULL"
| "tsearch k v (Node l a r) =
    (if k a > v then tsearch k v l else if k a < v then tsearch k v r else a)"

fun last_node :: "(addr \<Rightarrow> 'v :: linorder) \<Rightarrow> 'v \<Rightarrow> addr \<Rightarrow> addr tree \<Rightarrow> addr" where
  "last_node k v q Leaf = q"
| "last_node k v q (Node l a r) = (if k a > v then last_node k v a l else last_node k v a r)"

fun ins_leaf :: "(addr \<Rightarrow> 'v :: linorder) \<Rightarrow> 'v \<Rightarrow> addr \<Rightarrow> addr tree \<Rightarrow> addr tree" where
  "ins_leaf k v e Leaf = Node Leaf e Leaf"
| "ins_leaf k v e (Node l a r) =
    (if k a > v then Node (ins_leaf k v e l) a r else Node l a (ins_leaf k v e r))"

definition keys_sorted :: "(addr \<Rightarrow> 'v :: linorder) \<Rightarrow> addr tree \<Rightarrow> bool" where
  "keys_sorted k t \<longleftrightarrow> sorted_wrt (<) (map k (inorder t))"

lemma keys_sorted_Node:
  "keys_sorted k (Node l a r) \<longleftrightarrow> keys_sorted k l \<and> keys_sorted k r \<and>
     (\<forall>x \<in> set_tree l. k x < k a) \<and> (\<forall>x \<in> set_tree r. k a < k x)"
  by (auto simp: keys_sorted_def sorted_wrt_append)
    (meson order_less_trans)

lemma tsearch_found: "tsearch k v t \<noteq> NULL \<Longrightarrow> tsearch k v t \<in> set_tree t \<and> k (tsearch k v t) = v"
  by (induction t) (auto split: if_splits)

lemma tsearch_complete:
  "keys_sorted k t \<Longrightarrow> a \<in> set_tree t \<Longrightarrow> tsearch k (k a) t = a"
  by (induction t) (auto simp: keys_sorted_Node dest: order_less_imp_not_less)

lemma tsearch_none:
  assumes t: "keys_sorted k t" "NULL \<notin> set_tree t"
  shows "tsearch k v t = NULL \<longleftrightarrow> v \<notin> k ` set_tree t"
proof (cases "v \<in> k ` set_tree t")
  case True
  then obtain a where "a \<in> set_tree t" "v = k a" by blast
  moreover from this have "tsearch k v t = a" using t tsearch_complete [of k t a] by simp
  ultimately show ?thesis using t True by (cases "a = NULL") auto
next
  case False
  then have "tsearch k v t = NULL" using tsearch_found [of k v t] by (metis image_eqI)
  with False show ?thesis by simp
qed

lemma last_node_in: "t \<noteq> Leaf \<Longrightarrow> last_node k v q t \<in> set_tree t"
proof (induction k v q t rule: last_node.induct)
  case (2 k v q l a r)
  then show ?case by (cases l; cases r) auto
qed simp

lemma set_ins_leaf [simp]: "set_tree (ins_leaf k v e t) = insert e (set_tree t)"
  by (induction t) auto

lemma distinct_ins_leaf:
  "distinct (inorder t) \<Longrightarrow> e \<notin> set_tree t \<Longrightarrow> distinct (inorder (ins_leaf k v e t))"
  by (induction t) auto

lemma insort_less: "sorted_wrt (<) (xs @ a # ys) \<Longrightarrow> v < a \<Longrightarrow> insort v (xs @ a # ys) = insort v xs @ a # ys"
  by (induction xs) auto

lemma insort_greater: "sorted_wrt (<) (xs @ a # ys) \<Longrightarrow> a < v \<Longrightarrow> insort v (xs @ a # ys) = xs @ a # insort v ys"
  by (induction xs) auto

lemma ins_leaf_insort:
  "keys_sorted k t \<Longrightarrow> v \<notin> k ` set_tree t \<Longrightarrow> k e = v \<Longrightarrow>
   map k (inorder (ins_leaf k v e t)) = insort v (map k (inorder t))"
proof (induction t)
  case (Node l a r)
  then have s: "sorted_wrt (<) (map k (inorder l) @ k a # map k (inorder r))"
    by (simp add: keys_sorted_def)
  from Node.prems have "k a \<noteq> v" by auto
  with Node s show ?case
    by (auto simp: keys_sorted_Node insort_less [OF s] insort_greater [OF s])
qed simp

text \<open>Hanging a new leaf \<open>e\<close> under \<open>x\<close>.\<close>

definition leaf_added :: "lks \<Rightarrow> lks \<Rightarrow> addr \<Rightarrow> addr \<Rightarrow> bool \<Rightarrow> bool" where
  "leaf_added m m' x e lf \<longleftrightarrow> (\<exists>n. m x = Some n \<and>
     m' = m(e \<mapsto> \<lparr>lk_parent = x, lk_lchild = NULL, lk_rchild = NULL\<rparr>,
            x \<mapsto> (if lf then n\<lparr>lk_lchild := e\<rparr> else n\<lparr>lk_rchild := e\<rparr>)))"

lemma tree_at_ins_leaf:
  assumes "leaf_added m m' (last_node k v q t) e (v < k (last_node k v q t))"
    and "tree_at m p q t" "distinct (inorder t)" "e \<notin> set_tree t" "e \<noteq> NULL" "t \<noteq> Leaf"
  shows "tree_at m' p q (ins_leaf k v e t)"
  using assms
proof (induction k v q t arbitrary: p rule: last_node.induct)
  case (2 k v q l a r)
  let ?x = "last_node k v q (Node l a r)"
  from "2.prems" obtain n where n: "m a = Some n" "p = a" "a \<noteq> NULL" "lk_parent n = q"
      "tree_at m (lk_lchild n) a l" "tree_at m (lk_rchild n) a r" by auto
  from "2.prems" have d: "distinct (inorder l)" "distinct (inorder r)" "e \<notin> set_tree l" "e \<notin> set_tree r"
      "a \<notin> set_tree l" "a \<notin> set_tree r" "set_tree l \<inter> set_tree r = {}" "e \<noteq> a" by auto
  have frame: "m' y = m y" if "y \<noteq> e" "y \<noteq> ?x" for y
    using "2.prems"(1) that by (auto simp: leaf_added_def simp del: last_node.simps)
  have new: "m' e = Some \<lparr>lk_parent = ?x, lk_lchild = NULL, lk_rchild = NULL\<rparr>"
    using "2.prems"(1,4) last_node_in [of "Node l a r" k v q]
    by (auto simp: leaf_added_def simp del: last_node.simps)
  show ?case
  proof (cases "k a > v")
    case True
    show ?thesis
    proof (cases "l = Leaf")
      case leaf: True
      have "tree_at m' (lk_rchild n) a r"
        using d True leaf by (intro tree_at_frame [OF n(6)] frame) auto
      moreover have "m' a = Some (n\<lparr>lk_lchild := e\<rparr>)"
        using "2.prems"(1) n True leaf d by (auto simp: leaf_added_def)
      ultimately show ?thesis using True leaf new n "2.prems"(5) by auto
    next
      case False
      have x: "?x \<in> set_tree l" using True last_node_in [OF False] by simp
      then have "tree_at m' (lk_rchild n) a r"
        using d by (intro tree_at_frame [OF n(6)] frame) auto
      moreover have "m' a = m a" using x d by (intro frame) auto
      moreover have "tree_at m' (lk_lchild n) a (ins_leaf k v e l)"
        using "2.IH"(1) [OF True _ n(5) d(1,3) "2.prems"(5) False] "2.prems"(1) True by simp
      ultimately show ?thesis using True n by auto
    qed
  next
    case nt: False
    show ?thesis
    proof (cases "r = Leaf")
      case leaf: True
      have "tree_at m' (lk_lchild n) a l"
        using d nt leaf by (intro tree_at_frame [OF n(5)] frame) auto
      moreover have "m' a = Some (n\<lparr>lk_rchild := e\<rparr>)"
        using "2.prems"(1) n nt leaf d by (auto simp: leaf_added_def)
      ultimately show ?thesis using nt leaf new n "2.prems"(5) by auto
    next
      case False
      have x: "?x \<in> set_tree r" using nt last_node_in [OF False] by simp
      then have "tree_at m' (lk_lchild n) a l"
        using d by (intro tree_at_frame [OF n(5)] frame) auto
      moreover have "m' a = m a" using x d by (intro frame) auto
      moreover have "tree_at m' (lk_rchild n) a (ins_leaf k v e r)"
        using "2.IH"(2) [OF nt _ n(6) d(2,4) "2.prems"(5) False] "2.prems"(1) nt by simp
      ultimately show ?thesis using nt n by auto
    qed
  qed
qed simp

lemma rooted_ins_leaf:
  assumes "leaf_added m m' (last_node k v NULL t) e (v < k (last_node k v NULL t))"
    and "rooted m p t" "e \<notin> set_tree t" "e \<noteq> NULL" "t \<noteq> Leaf"
  shows "rooted m' p (ins_leaf k v e t)"
  using assms tree_at_ins_leaf [OF assms(1)] by (simp add: rooted_def distinct_ins_leaf)


section \<open>Removing a leaf\<close>

fun del_leaf :: "addr \<Rightarrow> addr tree \<Rightarrow> addr tree" where
  "del_leaf d Leaf = Leaf"
| "del_leaf d (Node l a r) = (if a = d then Leaf else Node (del_leaf d l) a (del_leaf d r))"

definition leaf_removed :: "lks \<Rightarrow> lks \<Rightarrow> addr \<Rightarrow> bool" where
  "leaf_removed m m' d \<longleftrightarrow> (\<exists>nd n. m d = Some nd \<and> lk_lchild nd = NULL \<and> lk_rchild nd = NULL \<and>
     m (lk_parent nd) = Some n \<and>
     m' = m(lk_parent nd \<mapsto> (if lk_lchild n = d then n\<lparr>lk_lchild := NULL\<rparr> else n\<lparr>lk_rchild := NULL\<rparr>),
            d := None))"

lemma del_leaf_id: "d \<notin> set_tree t \<Longrightarrow> del_leaf d t = t"
  by (induction t) auto

lemma leaf_removed_other:
  "leaf_removed m m' d \<Longrightarrow> m d = Some nd \<Longrightarrow> y \<noteq> d \<Longrightarrow> y \<noteq> lk_parent nd \<Longrightarrow> m' y = m y"
  by (auto simp: leaf_removed_def)

lemma leaf_removed_parent:
  "leaf_removed m m' d \<Longrightarrow> m d = Some nd \<Longrightarrow> m (lk_parent nd) = Some n \<Longrightarrow> lk_parent nd \<noteq> d \<Longrightarrow>
   m' (lk_parent nd) = Some (if lk_lchild n = d then n\<lparr>lk_lchild := NULL\<rparr> else n\<lparr>lk_rchild := NULL\<rparr>)"
  by (auto simp: leaf_removed_def)

lemma leaf_subtree:
  assumes "leaf_removed m m' d" "tree_at m d q t" "d \<noteq> NULL"
  shows "t = Node Leaf d Leaf"
  using assms by (cases t) (auto simp: leaf_removed_def tree_at_null dest: tree_at_null)

lemma tree_at_del_leaf:
  assumes "leaf_removed m m' d" "tree_at m p q t" "distinct (inorder t)" "d \<in> set_tree t" "d \<noteq> p"
  shows "tree_at m' p q (del_leaf d t) \<and> inorder (del_leaf d t) = removeAll d (inorder t)"
  using assms
proof (induction t arbitrary: p q)
  case (Node l a r)
  obtain nd where nd: "m d = Some nd" using Node.prems(1) by (auto simp: leaf_removed_def)
  obtain n where n: "m a = Some n" "p = a" "a \<noteq> NULL" "lk_parent n = q"
      "tree_at m (lk_lchild n) a l" "tree_at m (lk_rchild n) a r" using Node.prems(2) by auto
  from Node.prems(3) have dist: "distinct (inorder l)" "distinct (inorder r)" "a \<notin> set_tree l"
      "a \<notin> set_tree r" "set_tree l \<inter> set_tree r = {}" by auto
  have da: "d \<noteq> a" using Node.prems(5) n(2) by simp
  have d0: "d \<noteq> NULL" using Node.prems(2,4) tree_at_not_null by metis
  note frame = leaf_removed_other [OF Node.prems(1) nd]
  show ?case
  proof (cases "d \<in> set_tree l")
    case True
    then have dr: "d \<notin> set_tree r" using dist(5) by auto
    have rem: "removeAll d (inorder r) = inorder r" using dr by (simp add: removeAll_id)
    show ?thesis
    proof (cases "d = lk_lchild n")
      case dl: True
      then have l: "l = Node Leaf d Leaf" using leaf_subtree [OF Node.prems(1) _ d0] n(5) by blast
      then have par: "lk_parent nd = a" using n(5) nd by auto
      have "m' a = Some (n\<lparr>lk_lchild := NULL\<rparr>)"
        using leaf_removed_parent [OF Node.prems(1) nd] par n(1) da dl by auto
      moreover have "tree_at m' (lk_rchild n) a r"
        using dr dist(4) par by (intro tree_at_frame [OF n(6)] frame) auto
      ultimately show ?thesis using l n da dr rem by (simp add: del_leaf_id)
    next
      case False
      have pl: "lk_parent nd \<in> set_tree l" using tree_at_parent(2) [OF n(5) True nd dist(1) False] by blast
      have "tree_at m' (lk_rchild n) a r"
        using dr dist(5) pl by (intro tree_at_frame [OF n(6)] frame) auto
      moreover have "m' a = m a" using da dist(3) pl by (intro frame) auto
      moreover note Node.IH(1) [OF Node.prems(1) n(5) dist(1) True False]
      ultimately show ?thesis using n da dr rem by (simp add: del_leaf_id)
    qed
  next
    case False
    with Node.prems(4) da have dr: "d \<in> set_tree r" by auto
    have rem: "removeAll d (inorder l) = inorder l" using False by (simp add: removeAll_id)
    show ?thesis
    proof (cases "d = lk_rchild n")
      case dl: True
      then have r: "r = Node Leaf d Leaf" using leaf_subtree [OF Node.prems(1) _ d0] n(6) by blast
      then have par: "lk_parent nd = a" using n(6) nd by auto
      have "lk_lchild n \<noteq> d" using tree_at_root_in [OF n(5)] False d0 by auto
      then have "m' a = Some (n\<lparr>lk_rchild := NULL\<rparr>)"
        using leaf_removed_parent [OF Node.prems(1) nd] par n(1) da by auto
      moreover have "tree_at m' (lk_lchild n) a l"
        using False dist(3) par by (intro tree_at_frame [OF n(5)] frame) auto
      ultimately show ?thesis using r n da False rem by (simp add: del_leaf_id)
    next
      case notr: False
      have pr: "lk_parent nd \<in> set_tree r" using tree_at_parent(2) [OF n(6) dr nd dist(2) notr] by blast
      have "tree_at m' (lk_lchild n) a l"
        using False dist(5) pr by (intro tree_at_frame [OF n(5)] frame) auto
      moreover have "m' a = m a" using da dist(4) pr by (intro frame) auto
      moreover note Node.IH(2) [OF Node.prems(1) n(6) dist(2) dr notr]
      ultimately show ?thesis using n da False rem by (simp add: del_leaf_id)
    qed
  qed
qed simp

lemma rooted_del_leaf:
  assumes "leaf_removed m m' d" "rooted m p t" "d \<in> set_tree t" "d \<noteq> p"
  shows "rooted m' p (del_leaf d t)" "inorder (del_leaf d t) = removeAll d (inorder t)"
  using tree_at_del_leaf [OF assms(1) _ _ assms(3,4)] assms(2) by (auto simp: rooted_def distinct_removeAll)


end
