(* ===== verification/Sorted_Set.thy ===== *)
theory Sorted_Set
  imports Mg_Prelude
begin

text \<open>
  The contract of a sorted set kept in a mutable structure: \<open>ins e v\<close> stores the value \<open>v\<close>
  using the fresh cell \<open>e\<close>, \<open>mem\<close> asks for a value, \<open>holds s xs\<close> says that the structure \<open>s\<close>
  stores exactly the strictly ascending list \<open>xs\<close>. Clients see only these laws.
\<close>

locale sorted_set =
  fixes ins :: "'e \<Rightarrow> 'v :: linorder \<Rightarrow> 's \<Rightarrow> 's option"
    and mem :: "'v \<Rightarrow> 's \<Rightarrow> bool option"
    and holds :: "'s \<Rightarrow> 'v list \<Rightarrow> bool"
    and free :: "'e \<Rightarrow> 's \<Rightarrow> bool"
  assumes holds_sorted: "holds s xs \<Longrightarrow> sorted_wrt (<) xs"
    and ins_holds: "holds s xs \<Longrightarrow> free e s \<Longrightarrow>
      \<exists>s'. ins e v s = Some s' \<and> holds s' (if v \<in> set xs then xs else insort v xs) \<and>
        (\<forall>e'. e' \<noteq> e \<longrightarrow> free e' s \<longrightarrow> free e' s')"
    and mem_holds: "holds s xs \<Longrightarrow> mem v s = Some (v \<in> set xs)"
begin

lemma holds_unique: "holds s xs \<Longrightarrow> xs = sorted_list_of_set (set xs)"
  using holds_sorted by (simp add: strict_sorted_iff sorted_list_of_set.idem_if_sorted_distinct)

lemma insert_all:
  assumes "holds s xs" "distinct (map fst evs)" "\<forall>(e, v) \<in> set evs. free e s"
  shows "\<exists>s'. fold_opt (\<lambda>(e, v). ins e v) evs s = Some s' \<and>
    holds s' (sorted_list_of_set (set xs \<union> snd ` set evs))"
  using assms
proof (induction evs arbitrary: s xs)
  case Nil
  then show ?case using holds_unique [of s xs] by simp
next
  case (Cons ev evs)
  obtain e v where ev: "ev = (e, v)" by force
  obtain s1 where s1: "ins e v s = Some s1" "holds s1 (if v \<in> set xs then xs else insort v xs)"
      "\<forall>e'. e' \<noteq> e \<longrightarrow> free e' s \<longrightarrow> free e' s1"
    using ins_holds [OF Cons.prems(1), of e v] Cons.prems(3) ev by auto
  have fr: "\<forall>(e', v') \<in> set evs. free e' s1" using s1(3) Cons.prems(2,3) ev by force
  have "set (if v \<in> set xs then xs else insort v xs) = insert v (set xs)"
    by (auto simp: set_insort_key)
  then show ?case
    using Cons.IH [OF s1(2) _ fr] Cons.prems(2) s1(1) ev by simp
qed

lemma insert_all_mem:
  assumes "holds s []" "distinct (map fst evs)" "\<forall>(e, v) \<in> set evs. free e s"
  shows "\<exists>s'. fold_opt (\<lambda>(e, v). ins e v) evs s = Some s' \<and> (\<forall>v. mem v s' = Some (v \<in> snd ` set evs))"
proof -
  obtain s' where "fold_opt (\<lambda>(e, v). ins e v) evs s = Some s'"
      "holds s' (sorted_list_of_set (snd ` set evs))"
    using insert_all [OF assms] by auto
  then show ?thesis using mem_holds by auto
qed

end

end
