(* ===== verification/Util_Rbtree.thy ===== *)
theory Util_Rbtree
  imports Rb_Links Sorted_Set
begin

text \<open>
  The red-black tree template \<open>RBTree<T>\<close> of \<^verbatim>\<open>utils/rbtree.h\<close>. A tree is a heap of nodes, the
  root pointer \<open>_tree\<close> and the 64 bit counter \<open>_count\<close>; every method is the sequence of reads
  and writes of the source, \<^term>\<open>None\<close> meaning that it follows a bad pointer or does not return.
  \<open>new\<close> is a parameter \<open>nw\<close> (the address of the new node, null on failure). The spin lock held
  by \<open>insert\<close> and \<open>del\<close> makes each one atomic, so they are modelled as sequential steps (the
  lock itself is in the theory of \<^verbatim>\<open>utils/lock.h\<close>).
\<close>

section \<open>Data\<close>

datatype RBNodeType = RBRedNode | RBBlackNode

record 'v RBNode =
  rb_val :: 'v
  rb_type :: RBNodeType
  rb_parent :: addr
  rb_lchild :: addr
  rb_rchild :: addr

record 'v RBTree =
  rb_heap :: "'v RBNode heap"
  rb_tree :: addr
  rb_count :: "64 word"

definition rd :: "('v RBNode \<Rightarrow> 'f) \<Rightarrow> 'v RBTree \<Rightarrow> addr \<Rightarrow> 'f option" where
  "rd g t p = field g (rb_heap t) p"

definition wr :: "addr \<Rightarrow> ('v RBNode \<Rightarrow> 'v RBNode) \<Rightarrow> 'v RBTree \<Rightarrow> 'v RBTree option" where
  "wr p f t = map_option (\<lambda>h. t\<lparr>rb_heap := h\<rparr>) (modify p f (rb_heap t))"

abbreviation set_type :: "RBNodeType \<Rightarrow> 'v RBNode \<Rightarrow> 'v RBNode" where
  "set_type c \<equiv> rb_type_update (\<lambda>_. c)"

abbreviation set_parent :: "addr \<Rightarrow> 'v RBNode \<Rightarrow> 'v RBNode" where
  "set_parent a \<equiv> rb_parent_update (\<lambda>_. a)"

abbreviation set_lchild :: "addr \<Rightarrow> 'v RBNode \<Rightarrow> 'v RBNode" where
  "set_lchild a \<equiv> rb_lchild_update (\<lambda>_. a)"

abbreviation set_rchild :: "addr \<Rightarrow> 'v RBNode \<Rightarrow> 'v RBNode" where
  "set_rchild a \<equiv> rb_rchild_update (\<lambda>_. a)"

text \<open>The constructor.\<close>

definition RBTree_new :: "'v RBTree" where
  "RBTree_new = \<lparr>rb_heap = Map.empty, rb_tree = NULL, rb_count = 0\<rparr>"

section \<open>Operations\<close>

partial_function (option) search_from :: "'v :: linorder \<Rightarrow> addr \<Rightarrow> 'v RBTree \<Rightarrow> addr option" where
  "search_from val p t = (if p \<noteq> NULL then do {
       n \<leftarrow> load (rb_heap t) p;
       (if rb_val n > val then search_from val (rb_lchild n) t
        else if rb_val n < val then search_from val (rb_rchild n) t
        else Some p) }
     else Some NULL)"

definition search :: "'v :: linorder \<Rightarrow> 'v RBTree \<Rightarrow> addr option" where
  "search val t = search_from val (rb_tree t) t"

definition left_rotate :: "addr \<Rightarrow> 'v RBTree \<Rightarrow> 'v RBTree option" where
  "left_rotate node t = do {
     p \<leftarrow> rd rb_parent t node;
     rc \<leftarrow> rd rb_rchild t node;
     rcl \<leftarrow> rd rb_lchild t rc;
     t \<leftarrow> (if rcl \<noteq> NULL then wr rcl (set_parent node) t else Some t);
     rcl \<leftarrow> rd rb_lchild t rc;
     t \<leftarrow> wr node (set_rchild rcl) t;
     t \<leftarrow> wr rc (set_parent p) t;
     t \<leftarrow> (if p = NULL then Some (t\<lparr>rb_tree := rc\<rparr>) else do {
         pl \<leftarrow> rd rb_lchild t p;
         pr \<leftarrow> rd rb_rchild t p;
         (if pl = node then wr p (set_lchild rc) t
          else if pr = node then wr p (set_rchild rc) t
          else Some t) });
     t \<leftarrow> wr rc (set_lchild node) t;
     wr node (set_parent rc) t }"

definition right_rotate :: "addr \<Rightarrow> 'v RBTree \<Rightarrow> 'v RBTree option" where
  "right_rotate node t = do {
     p \<leftarrow> rd rb_parent t node;
     lc \<leftarrow> rd rb_lchild t node;
     lcr \<leftarrow> rd rb_rchild t lc;
     t \<leftarrow> (if lcr \<noteq> NULL then wr lcr (set_parent node) t else Some t);
     lcr \<leftarrow> rd rb_rchild t lc;
     t \<leftarrow> wr node (set_lchild lcr) t;
     t \<leftarrow> wr lc (set_parent p) t;
     t \<leftarrow> (if p = NULL then Some (t\<lparr>rb_tree := lc\<rparr>) else do {
         pl \<leftarrow> rd rb_lchild t p;
         (if pl = node then wr p (set_lchild lc) t
          else wr p (set_rchild lc) t) });
     t \<leftarrow> wr lc (set_rchild node) t;
     wr node (set_parent lc) t }"

text \<open>\<open>create_node\<close>: the address and the tree with the new node allocated in its heap.\<close>

type_synonym 'v new_node = "'v RBNode heap \<Rightarrow> addr"

definition create_node :: "'v new_node \<Rightarrow> 'v \<Rightarrow> 'v RBTree \<Rightarrow> addr \<times> 'v RBTree" where
  "create_node nw val t = (let node = nw (rb_heap t) in
     if node = NULL then (NULL, t)
     else (node, t\<lparr>rb_heap := (rb_heap t)(node \<mapsto>
       \<lparr>rb_val = val, rb_type = RBRedNode, rb_parent = NULL, rb_lchild = NULL, rb_rchild = NULL\<rparr>)\<rparr>))"

text \<open>
  The descent to the insert position: \<open>Some (Some p)\<close> gives the last node visited,
  \<open>Some None\<close> the return with -1 because the value exists.
\<close>

partial_function (option) insert_position ::
  "'v :: linorder \<Rightarrow> addr \<Rightarrow> addr \<Rightarrow> 'v RBTree \<Rightarrow> addr option option" where
  "insert_position val root p t = (if root \<noteq> NULL then do {
       n \<leftarrow> load (rb_heap t) root;
       (if rb_val n > val then insert_position val (rb_lchild n) root t
        else if rb_val n < val then insert_position val (rb_rchild n) root t
        else Some None) }
     else Some (Some p))"

text \<open>The rebalancing loop of \<open>insert\<close>.\<close>

partial_function (option) rebalance :: "addr \<Rightarrow> 'v RBTree \<Rightarrow> 'v RBTree option" where
  "rebalance locate t = do {
     p \<leftarrow> rd rb_parent t locate;
     pred \<leftarrow> (if p = NULL then Some False else map_option (\<lambda>c. c = RBRedNode) (rd rb_type t p));
     (if \<not> pred then Some t else do {
       pp \<leftarrow> rd rb_parent t p;
       pr \<leftarrow> rd rb_rchild t p;
       u \<leftarrow> (if locate = pr then rd rb_lchild t pp else rd rb_rchild t pp);
       ured \<leftarrow> (if u = NULL then Some False else map_option (\<lambda>c. c = RBRedNode) (rd rb_type t u));
       (if ured then do {
          t \<leftarrow> wr pp (set_type RBRedNode) t;
          t \<leftarrow> wr u (set_type RBBlackNode) t;
          t \<leftarrow> wr p (set_type RBBlackNode) t;
          rebalance pp t }
        else do {
          ppl \<leftarrow> rd rb_lchild t pp;
          pl \<leftarrow> rd rb_lchild t p;
          (if p = ppl then
             (if locate = pl then do {
                t \<leftarrow> wr p (set_type RBBlackNode) t;
                t \<leftarrow> wr pp (set_type RBRedNode) t;
                t \<leftarrow> right_rotate pp t;
                rebalance locate t }
              else do {
                t \<leftarrow> left_rotate p t;
                t \<leftarrow> wr locate (set_type RBBlackNode) t;
                t \<leftarrow> wr pp (set_type RBRedNode) t;
                right_rotate pp t })
           else
             (if locate = pr then do {
                t \<leftarrow> wr p (set_type RBBlackNode) t;
                t \<leftarrow> wr pp (set_type RBRedNode) t;
                t \<leftarrow> left_rotate pp t;
                rebalance locate t }
              else do {
                t \<leftarrow> right_rotate p t;
                t \<leftarrow> wr locate (set_type RBBlackNode) t;
                t \<leftarrow> wr pp (set_type RBRedNode) t;
                left_rotate pp t })) }) }) }"

text \<open>
  The statements of \<open>insert\<close>: they return 0 when no node could be created, 1 for the first node, -1 when the
  value exists; on the remaining path control reaches the closing brace without a \<open>return\<close>, which is
  the value \<^term>\<open>None :: int option\<close>, with the tree at that point.
\<close>

definition insert_body :: "'v :: linorder new_node \<Rightarrow> 'v \<Rightarrow> 'v RBTree \<Rightarrow> (int option \<times> 'v RBTree) option" where
  "insert_body nw val t = (let (locate, t) = create_node nw val t in
     if locate = NULL then Some (Some 0, t)
     else if rb_tree t = NULL then do {
       t \<leftarrow> wr locate (set_type RBBlackNode) (t\<lparr>rb_tree := locate\<rparr>);
       Some (Some 1, t) }
     else do {
       pos \<leftarrow> insert_position val (rb_tree t) NULL t;
       (case pos of
          None \<Rightarrow> Some (Some (- 1), t)
        | Some p \<Rightarrow> do {
            t \<leftarrow> wr locate (set_parent p) t;
            lv \<leftarrow> rd rb_val t locate;
            pv \<leftarrow> rd rb_val t p;
            t \<leftarrow> (if lv < pv then wr p (set_lchild locate) t else wr p (set_rchild locate) t);
            t \<leftarrow> rebalance locate (t\<lparr>rb_count := rb_count t + 1\<rparr>);
            t \<leftarrow> wr (rb_tree t) (set_type RBBlackNode) t;
            Some (None, t) }) })"

text \<open>
  \<open>insert\<close> itself: flowing off the end of a function that returns \<open>int\<close> is undefined behaviour in C++,
  whether the caller uses the result or not.
\<close>

definition insert :: "'v :: linorder new_node \<Rightarrow> 'v \<Rightarrow> 'v RBTree \<Rightarrow> (int \<times> 'v RBTree) option" where
  "insert nw val t = do {
     (r, t) \<leftarrow> insert_body nw val t;
     v \<leftarrow> r;
     Some (v, t) }"

section \<open>Deletion\<close>

definition delete_leaf_node :: "addr \<Rightarrow> 'v RBTree \<Rightarrow> 'v RBTree option" where
  "delete_leaf_node leaf t = (let t = t\<lparr>rb_count := rb_count t - 1\<rparr> in
     if leaf = rb_tree t then Some (t\<lparr>rb_tree := NULL, rb_heap := (rb_heap t)(leaf := None)\<rparr>)
     else do {
       p \<leftarrow> rd rb_parent t leaf;
       pl \<leftarrow> rd rb_lchild t p;
       t \<leftarrow> (if pl = leaf then wr p (set_lchild NULL) t else wr p (set_rchild NULL) t);
       Some (t\<lparr>rb_heap := (rb_heap t)(leaf := None)\<rparr>) })"

definition change_node :: "addr \<Rightarrow> addr \<Rightarrow> bool \<Rightarrow> 'v RBTree \<Rightarrow> 'v RBTree option" where
  "change_node n1 n2 change_type t = (if n1 = n2 then Some t else do {
     n1p \<leftarrow> rd rb_parent t n1;
     n2p \<leftarrow> rd rb_parent t n2;
     tmp \<leftarrow> rd rb_lchild t n1;
     n2l \<leftarrow> rd rb_lchild t n2;
     t \<leftarrow> wr n1 (set_lchild n2l) t;
     t \<leftarrow> wr n2 (set_lchild tmp) t;
     tmp \<leftarrow> rd rb_rchild t n1;
     n2r \<leftarrow> rd rb_rchild t n2;
     t \<leftarrow> wr n1 (set_rchild n2r) t;
     t \<leftarrow> wr n2 (set_rchild tmp) t;
     t \<leftarrow> wr n1 (set_parent n2p) t;
     t \<leftarrow> wr n2 (set_parent n1p) t;
     t \<leftarrow> (if n1p = NULL then Some (t\<lparr>rb_tree := n2\<rparr>) else do {
         l \<leftarrow> rd rb_lchild t n1p;
         (if l = n1 then wr n1p (set_lchild n2) t else wr n1p (set_rchild n2) t) });
     l \<leftarrow> rd rb_lchild t n2p;
     t \<leftarrow> (if l = n2 then wr n2p (set_lchild n1) t else wr n2p (set_rchild n1) t);
     (if change_type then do {
        typ \<leftarrow> rd rb_type t n1;
        typ2 \<leftarrow> rd rb_type t n2;
        t \<leftarrow> wr n1 (set_type typ2) t;
        wr n2 (set_type typ) t }
      else Some t) })"

partial_function (option) leftmost :: "addr \<Rightarrow> 'v RBTree \<Rightarrow> addr option" where
  "leftmost r t = do {
     l \<leftarrow> rd rb_lchild t r;
     (if l \<noteq> NULL then leftmost l t else Some r) }"

definition find_right_replace_node :: "addr \<Rightarrow> 'v RBTree \<Rightarrow> addr option" where
  "find_right_replace_node n t = do {
     r \<leftarrow> rd rb_rchild t n;
     leftmost r t }"

text \<open>A child that is null or black, as the second test of the deletion loop asks.\<close>

definition null_or_black :: "addr \<Rightarrow> 'v RBTree \<Rightarrow> bool option" where
  "null_or_black c t = (if c = NULL then Some True else map_option (\<lambda>x. x = RBBlackNode) (rd rb_type t c))"

text \<open>
  The deletion loop; it yields the final \<open>node\<close>. Where the source stores the enumerator
  \<open>RBBlackNode\<close> into the pointer \<open>b->_rchild\<close> (\<open>b->_lchild\<close>), the model stores its
  value, the address 1.
\<close>

partial_function (option) del_fixup :: "addr \<Rightarrow> addr \<Rightarrow> 'v RBTree \<Rightarrow> (addr \<times> 'v RBTree) option" where
  "del_fixup node p t = do {
     go \<leftarrow> (if node = NULL then Some False
            else map_option (\<lambda>c. c = RBBlackNode \<and> node \<noteq> rb_tree t) (rd rb_type t node));
     (if \<not> go then Some (node, t) else do {
       pl \<leftarrow> rd rb_lchild t p;
       (if pl = node then do {
          b \<leftarrow> rd rb_rchild t p;
          bt \<leftarrow> rd rb_type t b;
          t \<leftarrow> (if bt = RBRedNode then do {
                 t \<leftarrow> wr b (set_type RBBlackNode) t;
                 t \<leftarrow> wr p (set_type RBRedNode) t;
                 left_rotate p t } else Some t);
          b \<leftarrow> rd rb_rchild t p;
          bl \<leftarrow> rd rb_lchild t b;
          br \<leftarrow> rd rb_rchild t b;
          lb \<leftarrow> null_or_black bl t;
          rb \<leftarrow> (if lb then null_or_black br t else Some False);
          (if lb \<and> rb then do {
             t \<leftarrow> wr b (set_type RBBlackNode) t;
             p' \<leftarrow> rd rb_parent t p;
             del_fixup p p' t }
           else do {
             brt \<leftarrow> rd rb_type t br;
             t \<leftarrow> (if brt = RBBlackNode then do {
                    t \<leftarrow> wr bl (set_type RBBlackNode) t;
                    t \<leftarrow> wr b (set_type RBRedNode) t;
                    right_rotate b t } else Some t);
             b \<leftarrow> rd rb_rchild t p;
             pt \<leftarrow> rd rb_type t p;
             t \<leftarrow> wr b (set_type pt) t;
             t \<leftarrow> wr p (set_type RBBlackNode) t;
             t \<leftarrow> wr b (set_rchild 1) t;
             t \<leftarrow> left_rotate p t;
             Some (node, t) }) }
        else do {
          b \<leftarrow> rd rb_lchild t p;
          bt \<leftarrow> rd rb_type t b;
          t \<leftarrow> (if bt = RBRedNode then do {
                 t \<leftarrow> wr b (set_type RBBlackNode) t;
                 t \<leftarrow> wr p (set_type RBRedNode) t;
                 right_rotate p t } else Some t);
          b \<leftarrow> rd rb_lchild t p;
          bl \<leftarrow> rd rb_lchild t b;
          br \<leftarrow> rd rb_rchild t b;
          lb \<leftarrow> null_or_black bl t;
          rb \<leftarrow> (if lb then null_or_black br t else Some False);
          (if lb \<and> rb then do {
             t \<leftarrow> wr b (set_type RBBlackNode) t;
             p' \<leftarrow> rd rb_parent t p;
             del_fixup p p' t }
           else do {
             blt \<leftarrow> rd rb_type t bl;
             t \<leftarrow> (if blt = RBBlackNode then do {
                    t \<leftarrow> wr br (set_type RBBlackNode) t;
                    t \<leftarrow> wr b (set_type RBRedNode) t;
                    left_rotate b t } else Some t);
             b \<leftarrow> rd rb_lchild t p;
             pt \<leftarrow> rd rb_type t p;
             t \<leftarrow> wr b (set_type pt) t;
             t \<leftarrow> wr p (set_type RBBlackNode) t;
             t \<leftarrow> wr b (set_lchild 1) t;
             t \<leftarrow> right_rotate p t;
             Some (node, t) }) }) }) }"

definition del :: "'v :: linorder \<Rightarrow> 'v RBTree \<Rightarrow> 'v RBTree option" where
  "del val t = do {
     d \<leftarrow> search val t;
     (if d = NULL then Some t else do {
       dl \<leftarrow> rd rb_lchild t d;
       dr \<leftarrow> rd rb_rchild t d;
       t \<leftarrow> (if dl \<noteq> NULL \<and> dr \<noteq> NULL then do {
              r \<leftarrow> find_right_replace_node d t;
              change_node d r True t } else Some t);
       dt \<leftarrow> rd rb_type t d;
       (if dt = RBRedNode then delete_leaf_node d t else do {
         dl \<leftarrow> rd rb_lchild t d;
         dr \<leftarrow> rd rb_rchild t d;
         (if dl \<noteq> NULL then do {
            t \<leftarrow> change_node d dl True t;
            delete_leaf_node d t }
          else if dr \<noteq> NULL then do {
            t \<leftarrow> change_node d dr True t;
            delete_leaf_node d t }
          else do {
            p \<leftarrow> rd rb_parent t d;
            (node, t) \<leftarrow> del_fixup d p t;
            t \<leftarrow> wr node (set_type RBBlackNode) t;
            delete_leaf_node d t }) }) }) }"

section \<open>The links of a tree\<close>

definition node_links :: "'v RBNode \<Rightarrow> links" where
  "node_links n = \<lparr>lk_parent = rb_parent n, lk_lchild = rb_lchild n, lk_rchild = rb_rchild n\<rparr>"

definition lk :: "'v RBTree \<Rightarrow> lks" where
  "lk t = (\<lambda>a. map_option node_links (rb_heap t a))"

text \<open>The values and colours, which rotations do not touch.\<close>

definition node_data :: "'v RBTree \<Rightarrow> addr \<Rightarrow> ('v \<times> RBNodeType) option" where
  "node_data t = (\<lambda>a. map_option (\<lambda>n. (rb_val n, rb_type n)) (rb_heap t a))"

lemma lk_Some: "lk t a = Some n \<longleftrightarrow> (\<exists>k. rb_heap t a = Some k \<and> n = node_links k)"
  by (auto simp: lk_def)

lemma node_links_sel [simp]:
  "lk_parent (node_links n) = rb_parent n" "lk_lchild (node_links n) = rb_lchild n"
  "lk_rchild (node_links n) = rb_rchild n"
  by (simp_all add: node_links_def)

text \<open>The heap after a left rotation at \<open>a\<close>, written out.\<close>

definition rotl_heap ::
  "'v RBNode heap \<Rightarrow> addr \<Rightarrow> 'v RBNode \<Rightarrow> addr \<Rightarrow> 'v RBNode \<Rightarrow> 'v RBNode heap" where
  "rotl_heap h a na c nc = (\<lambda>x.
     if x = a then Some (na\<lparr>rb_rchild := rb_lchild nc, rb_parent := c\<rparr>)
     else if x = c then Some (nc\<lparr>rb_parent := rb_parent na, rb_lchild := a\<rparr>)
     else map_option (\<lambda>n. n\<lparr>
       rb_parent := (if x \<noteq> NULL \<and> x = rb_lchild nc then a else rb_parent n),
       rb_lchild := (if x \<noteq> NULL \<and> x = rb_parent na \<and> rb_lchild n = a then c else rb_lchild n),
       rb_rchild := (if x \<noteq> NULL \<and> x = rb_parent na \<and> rb_lchild n \<noteq> a \<and> rb_rchild n = a then c
         else rb_rchild n)\<rparr>) (h x))"

lemma rotl_heap_data:
  assumes "rb_heap t' = rotl_heap (rb_heap t) a na c nc" "rb_heap t a = Some na" "rb_heap t c = Some nc"
  shows "node_data t' = node_data t"
proof (rule ext)
  fix x
  show "node_data t' x = node_data t x"
  proof (cases "x = a \<or> x = c")
    case True
    with assms show ?thesis by (auto simp: node_data_def rotl_heap_def)
  next
    case False
    with assms show ?thesis by (simp add: node_data_def rotl_heap_def option.map_comp comp_def)
  qed
qed

lemma rotl_heap_links:
  assumes h: "rb_heap t' = rotl_heap (rb_heap t) a na c nc"
    and "rb_heap t a = Some na" "rb_heap t c = Some nc" "rb_rchild na = c" "c \<noteq> NULL"
    and ctx: "rot_context (lk t) a (node_links na) c (node_links nc)"
  shows "rotated_left (lk t) (lk t') a c"
  unfolding rotated_left_def
proof (intro exI conjI allI impI)
  show "lk t a = Some (node_links na)" "lk t c = Some (node_links nc)" "lk_rchild (node_links na) = c"
    using assms by (simp_all add: lk_def)
  show "lk t' a =
      Some (node_links na\<lparr>lk_rchild := lk_lchild (node_links nc), lk_parent := c\<rparr>)"
    using h by (simp add: lk_def node_links_def rotl_heap_def)
  show "lk t' c =
      Some (node_links nc\<lparr>lk_lchild := a, lk_parent := lk_parent (node_links na)\<rparr>)"
    using h ctx by (simp add: lk_def node_links_def rotl_heap_def rot_context_def)
  fix x n
  assume x: "x \<notin> {a, c, NULL}" "lk t x = Some n"
    "\<not> (x = lk_parent (node_links na) \<and> lk_lchild n = a \<and> lk_rchild n = a)"
  then obtain k where k: "rb_heap t x = Some k" "n = node_links k" by (auto simp: lk_Some)
  have "x = rb_parent na \<Longrightarrow> rb_lchild k = a \<or> rb_rchild k = a"
    using ctx x k by (auto simp: rot_context_def lk_def)
  with h x k show "lk t' x = Some (n\<lparr>
        lk_parent := (if x = lk_lchild (node_links nc) then a else lk_parent n),
        lk_lchild := (if x = lk_parent (node_links na) \<and> lk_lchild n = a then c else lk_lchild n),
        lk_rchild := (if x = lk_parent (node_links na) \<and> lk_rchild n = a then c else lk_rchild n)\<rparr>)"
    by (simp add: lk_def node_links_def rotl_heap_def)
qed

lemma left_rotate_eval:
  assumes "rb_heap t a = Some na" "rb_rchild na = c" "rb_heap t c = Some nc" "a \<noteq> NULL" "c \<noteq> NULL"
    and "a \<noteq> c" "rb_lchild nc \<noteq> a" "rb_lchild nc \<noteq> c" "rb_parent na \<noteq> a" "rb_parent na \<noteq> c"
    and "rb_parent na \<noteq> NULL \<longrightarrow> rb_parent na \<noteq> rb_lchild nc"
    and "rb_lchild nc \<noteq> NULL \<longrightarrow> (\<exists>nb. rb_heap t (rb_lchild nc) = Some nb)"
    and "rb_parent na \<noteq> NULL \<longrightarrow> (\<exists>np. rb_heap t (rb_parent na) = Some np)"
  shows "\<exists>t'. left_rotate a t = Some t' \<and> rb_heap t' = rotl_heap (rb_heap t) a na c nc \<and>
    rb_tree t' = (if rb_parent na = NULL then c else rb_tree t) \<and> rb_count t' = rb_count t"
proof (cases "rb_parent na = NULL")
  case p: True
  show ?thesis
  proof (cases "rb_lchild nc = NULL")
    case True
    with p assms(1-10) show ?thesis by (simp add: left_rotate_def rd_def wr_def) (rule ext, simp add: rotl_heap_def map_option_self)
  next
    case False
    then obtain nb where nb: "rb_heap t (rb_lchild nc) = Some nb" using assms by blast
    with False p assms(1-10) show ?thesis
      by (simp add: left_rotate_def rd_def wr_def) (rule ext, simp add: rotl_heap_def map_option_self)
  qed
next
  case p: False
  then obtain np where np: "rb_heap t (rb_parent na) = Some np" using assms by blast
  show ?thesis
  proof (cases "rb_lchild nc = NULL")
    case True
    with p np assms(1-10) show ?thesis
      by (simp add: left_rotate_def rd_def wr_def) (safe, (rule ext, rename_tac x, case_tac "x = rb_parent na"; simp add: rotl_heap_def map_option_self)+)
  next
    case False
    then obtain nb where nb: "rb_heap t (rb_lchild nc) = Some nb" using assms by blast
    with False p np assms(1-11) show ?thesis
      by (simp add: left_rotate_def rd_def wr_def) (safe, (rule ext, rename_tac x, case_tac "x = rb_parent na"; simp add: rotl_heap_def map_option_self)+)
  qed
qed

lemma left_rotate_ok:
  assumes r: "rooted (lk t) (rb_tree t) T" and a: "a \<in> set_tree T"
    and na: "rb_heap t a = Some na" and c: "rb_rchild na = c" "c \<noteq> NULL"
  shows "\<exists>t'. left_rotate a t = Some t' \<and> rotated_left (lk t) (lk t') a c \<and>
    rb_tree t' = (if rb_tree t = a then c else rb_tree t) \<and> node_data t' = node_data t \<and>
    rb_count t' = rb_count t"
proof -
  have la: "lk t a = Some (node_links na)" using na by (simp add: lk_def)
  obtain nc where nc: "rb_heap t c = Some nc" "rot_context (lk t) a (node_links na) c (node_links nc)"
    using rot_contextI [OF r a la] c by (auto simp: lk_Some)
  obtain t' where t': "left_rotate a t = Some t'" "rb_heap t' = rotl_heap (rb_heap t) a na c nc"
      "rb_tree t' = (if rb_parent na = NULL then c else rb_tree t)" "rb_count t' = rb_count t"
    using left_rotate_eval [OF na c(1) nc(1)] nc(2) c(2) by (auto simp: rot_context_def lk_Some)
  moreover have "node_data t' = node_data t"
    using rotl_heap_data [OF t'(2) na nc(1)] .
  moreover have "rotated_left (lk t) (lk t') a c"
    using rotl_heap_links [OF t'(2) na nc(1) c nc(2)] .
  ultimately show ?thesis using rooted_parent_null [OF r a la] by auto
qed

text \<open>The same for the right rotation.\<close>

definition rotr_heap ::
  "'v RBNode heap \<Rightarrow> addr \<Rightarrow> 'v RBNode \<Rightarrow> addr \<Rightarrow> 'v RBNode \<Rightarrow> 'v RBNode heap" where
  "rotr_heap h a na c nc = (\<lambda>x.
     if x = a then Some (na\<lparr>rb_lchild := rb_rchild nc, rb_parent := c\<rparr>)
     else if x = c then Some (nc\<lparr>rb_parent := rb_parent na, rb_rchild := a\<rparr>)
     else map_option (\<lambda>n. n\<lparr>
       rb_parent := (if x \<noteq> NULL \<and> x = rb_rchild nc then a else rb_parent n),
       rb_lchild := (if x \<noteq> NULL \<and> x = rb_parent na \<and> rb_lchild n = a then c else rb_lchild n),
       rb_rchild := (if x \<noteq> NULL \<and> x = rb_parent na \<and> rb_lchild n \<noteq> a then c
         else rb_rchild n)\<rparr>) (h x))"

lemma rotr_heap_data:
  assumes "rb_heap t' = rotr_heap (rb_heap t) a na c nc" "rb_heap t a = Some na" "rb_heap t c = Some nc"
  shows "node_data t' = node_data t"
proof (rule ext)
  fix x
  show "node_data t' x = node_data t x"
  proof (cases "x = a \<or> x = c")
    case True
    with assms show ?thesis by (auto simp: node_data_def rotr_heap_def)
  next
    case False
    with assms show ?thesis by (simp add: node_data_def rotr_heap_def option.map_comp comp_def)
  qed
qed

lemma rotr_heap_links:
  assumes h: "rb_heap t' = rotr_heap (rb_heap t) a na c nc"
    and "rb_heap t a = Some na" "rb_heap t c = Some nc" "rb_lchild na = c" "c \<noteq> NULL"
    and ctx: "rot_context (lk t) a (node_links na) c (node_links nc)"
  shows "rotated_right (lk t) (lk t') a c"
  unfolding rotated_right_def
proof (intro exI conjI allI impI)
  show "lk t a = Some (node_links na)" "lk t c = Some (node_links nc)" "lk_lchild (node_links na) = c"
    using assms by (simp_all add: lk_def)
  show "lk t' a =
      Some (node_links na\<lparr>lk_lchild := lk_rchild (node_links nc), lk_parent := c\<rparr>)"
    using h by (simp add: lk_def node_links_def rotr_heap_def)
  show "lk t' c =
      Some (node_links nc\<lparr>lk_rchild := a, lk_parent := lk_parent (node_links na)\<rparr>)"
    using h ctx by (simp add: lk_def node_links_def rotr_heap_def rot_context_def)
  fix x n
  assume x: "x \<notin> {a, c, NULL}" "lk t x = Some n"
    "\<not> (x = lk_parent (node_links na) \<and> lk_lchild n = a \<and> lk_rchild n = a)"
  then obtain k where k: "rb_heap t x = Some k" "n = node_links k" by (auto simp: lk_Some)
  have "x = rb_parent na \<Longrightarrow> rb_lchild k = a \<or> rb_rchild k = a"
    using ctx x k by (auto simp: rot_context_def lk_def)
  with h x k show "lk t' x = Some (n\<lparr>
        lk_parent := (if x = lk_rchild (node_links nc) then a else lk_parent n),
        lk_lchild := (if x = lk_parent (node_links na) \<and> lk_lchild n = a then c else lk_lchild n),
        lk_rchild := (if x = lk_parent (node_links na) \<and> lk_rchild n = a then c else lk_rchild n)\<rparr>)"
    by (cases "x = rb_parent na") (auto simp: lk_def node_links_def rotr_heap_def)
qed

lemma right_rotate_eval:
  assumes "rb_heap t a = Some na" "rb_lchild na = c" "rb_heap t c = Some nc" "a \<noteq> NULL" "c \<noteq> NULL"
    and "a \<noteq> c" "rb_rchild nc \<noteq> a" "rb_rchild nc \<noteq> c" "rb_parent na \<noteq> a" "rb_parent na \<noteq> c"
    and "rb_parent na \<noteq> NULL \<longrightarrow> rb_parent na \<noteq> rb_rchild nc"
    and "rb_rchild nc \<noteq> NULL \<longrightarrow> (\<exists>nb. rb_heap t (rb_rchild nc) = Some nb)"
    and "rb_parent na \<noteq> NULL \<longrightarrow> (\<exists>np. rb_heap t (rb_parent na) = Some np)"
  shows "\<exists>t'. right_rotate a t = Some t' \<and> rb_heap t' = rotr_heap (rb_heap t) a na c nc \<and>
    rb_tree t' = (if rb_parent na = NULL then c else rb_tree t) \<and> rb_count t' = rb_count t"
proof (cases "rb_parent na = NULL")
  case p: True
  show ?thesis
  proof (cases "rb_rchild nc = NULL")
    case True
    with p assms(1-10) show ?thesis by (simp add: right_rotate_def rd_def wr_def) (rule ext, simp add: rotr_heap_def map_option_self)
  next
    case False
    then obtain nb where nb: "rb_heap t (rb_rchild nc) = Some nb" using assms by blast
    with False p assms(1-10) show ?thesis
      by (simp add: right_rotate_def rd_def wr_def) (rule ext, simp add: rotr_heap_def map_option_self)
  qed
next
  case p: False
  then obtain np where np: "rb_heap t (rb_parent na) = Some np" using assms by blast
  show ?thesis
  proof (cases "rb_rchild nc = NULL")
    case True
    with p np assms(1-10) show ?thesis
      by (simp add: right_rotate_def rd_def wr_def) (safe, (rule ext, rename_tac x, case_tac "x = rb_parent na"; simp add: rotr_heap_def map_option_self)+)
  next
    case False
    then obtain nb where nb: "rb_heap t (rb_rchild nc) = Some nb" using assms by blast
    with False p np assms(1-11) show ?thesis
      by (simp add: right_rotate_def rd_def wr_def) (safe, (rule ext, rename_tac x, case_tac "x = rb_parent na"; simp add: rotr_heap_def map_option_self)+)
  qed
qed

lemma right_rotate_ok:
  assumes r: "rooted (lk t) (rb_tree t) T" and a: "a \<in> set_tree T"
    and na: "rb_heap t a = Some na" and c: "rb_lchild na = c" "c \<noteq> NULL"
  shows "\<exists>t'. right_rotate a t = Some t' \<and> rotated_right (lk t) (lk t') a c \<and>
    rb_tree t' = (if rb_tree t = a then c else rb_tree t) \<and> node_data t' = node_data t \<and>
    rb_count t' = rb_count t"
proof -
  have la: "lk t a = Some (node_links na)" using na by (simp add: lk_def)
  obtain nc where nc: "rb_heap t c = Some nc" "rot_context (lk t) a (node_links na) c (node_links nc)"
    using rot_contextI [OF r a la] c by (auto simp: lk_Some)
  obtain t' where t': "right_rotate a t = Some t'" "rb_heap t' = rotr_heap (rb_heap t) a na c nc"
      "rb_tree t' = (if rb_parent na = NULL then c else rb_tree t)" "rb_count t' = rb_count t"
    using right_rotate_eval [OF na c(1) nc(1)] nc(2) c(2) by (auto simp: rot_context_def lk_Some)
  moreover have "node_data t' = node_data t"
    using rotr_heap_data [OF t'(2) na nc(1)] .
  moreover have "rotated_right (lk t) (lk t') a c"
    using rotr_heap_links [OF t'(2) na nc(1) c nc(2)] .
  ultimately show ?thesis using rooted_parent_null [OF r a la] by auto
qed


section \<open>The rebalancing loop of insert\<close>

definition vals :: "'v RBTree \<Rightarrow> addr \<Rightarrow> 'v option" where
  "vals t a = map_option rb_val (rb_heap t a)"

definition colour :: "'v RBTree \<Rightarrow> addr \<Rightarrow> RBNodeType option" where
  "colour t a = map_option rb_type (rb_heap t a)"

definition paint :: "addr \<Rightarrow> RBNodeType \<Rightarrow> 'v RBTree \<Rightarrow> 'v RBTree" where
  "paint p c t = t\<lparr>rb_heap := (rb_heap t)(p := map_option (set_type c) (rb_heap t p))\<rparr>"

lemma wr_set_type: "rb_heap t p \<noteq> None \<Longrightarrow> p \<noteq> NULL \<Longrightarrow> wr p (set_type c) t = Some (paint p c t)"
  by (auto simp: wr_def paint_def)

lemma paint_sel [simp]:
  "rb_tree (paint p c t) = rb_tree t" "rb_count (paint p c t) = rb_count t"
  "lk (paint p c t) = lk t" "vals (paint p c t) = vals t"
  "colour (paint p c t) x = (if x = p then map_option (\<lambda>_. c) (colour t x) else colour t x)"
  "(rb_heap (paint p c t) x = None) = (rb_heap t x = None)"
  by (auto simp: paint_def lk_def vals_def colour_def fun_eq_iff option.map_comp comp_def
      node_links_def [abs_def])

lemma heap_paint:
  "rb_heap (paint p c t) x = (if x = p then map_option (set_type c) (rb_heap t x) else rb_heap t x)"
  by (simp add: paint_def)

lemma node_data_vals: "node_data t' = node_data t \<Longrightarrow> vals t' = vals t"
proof -
  have "vals s = (\<lambda>a. map_option fst (node_data s a))" for s :: "'a RBTree"
    by (auto simp: vals_def node_data_def option.map_comp comp_def)
  then show "node_data t' = node_data t \<Longrightarrow> vals t' = vals t" by simp
qed

lemma node_data_colour: "node_data t' = node_data t \<Longrightarrow> colour t' = colour t"
proof -
  have "colour s = (\<lambda>a. map_option snd (node_data s a))" for s :: "'a RBTree"
    by (auto simp: colour_def node_data_def option.map_comp comp_def)
  then show "node_data t' = node_data t \<Longrightarrow> colour t' = colour t" by simp
qed

lemma rd_eq: "rb_heap t p = Some n \<Longrightarrow> p \<noteq> NULL \<Longrightarrow> rd g t p = Some (g n)"
  by (simp add: rd_def field_def)

lemma rebalance_stop:
  assumes "rb_heap t l = Some nl" "l \<noteq> NULL"
    and "rb_parent nl = NULL \<or> colour t (rb_parent nl) = Some RBBlackNode"
  shows "rebalance l t = Some t"
  using assms by (subst rebalance.simps) (auto simp: rd_eq colour_def)

lemma rebalance_recolour:
  assumes "rb_heap t l = Some nl" "l \<noteq> NULL" "p = rb_parent nl" "p \<noteq> NULL"
    and "rb_heap t p = Some np" "rb_type np = RBRedNode" "pp = rb_parent np" "pp \<noteq> NULL"
    and "rb_heap t pp = Some npp" "u = (if l = rb_rchild np then rb_lchild npp else rb_rchild npp)"
    and "u \<noteq> NULL" "colour t u = Some RBRedNode"
  shows "rebalance l t = rebalance pp (paint p RBBlackNode (paint u RBBlackNode (paint pp RBRedNode t)))"
proof -
  obtain nu where "rb_heap t u = Some nu" "rb_type nu = RBRedNode"
    using assms(12) by (auto simp: colour_def)
  then show ?thesis
    using assms(1-11) by (subst rebalance.simps) (auto simp: rd_eq wr_set_type)
qed

lemma rebalance_outer:
  assumes "rb_heap t l = Some nl" "l \<noteq> NULL" "p = rb_parent nl" "p \<noteq> NULL"
    and "rb_heap t p = Some np" "rb_type np = RBRedNode" "pp = rb_parent np" "pp \<noteq> NULL" "pp \<noteq> p"
    and "rb_heap t pp = Some npp" "u = (if l = rb_rchild np then rb_lchild npp else rb_rchild npp)"
    and "u = NULL \<or> colour t u = Some RBBlackNode"
    and "l = rb_lchild np \<or> l = rb_rchild np" "p = rb_lchild npp \<or> p = rb_rchild npp"
  shows "rebalance l t = (if p = rb_lchild npp
    then Option.bind (right_rotate pp (paint pp RBRedNode (paint p RBBlackNode t))) (rebalance l)
    else Option.bind (left_rotate pp (paint pp RBRedNode (paint p RBBlackNode t))) (rebalance l))"
proof -
  have pu: "p \<noteq> u" using assms by (auto simp: colour_def)
  have u: "u = NULL \<or> (\<exists>nu. rb_heap t u = Some nu \<and> rb_type nu = RBBlackNode)"
    using assms(12) by (auto simp: colour_def)
  have "(if u = NULL then Some False else map_option (\<lambda>c. c = RBRedNode) (rd rb_type t u)) = Some False"
    using u by (auto simp: rd_eq)
  with pu assms(1-11,13,14) show ?thesis
    by (subst rebalance.simps) (auto simp: rd_eq wr_set_type)
qed

text \<open>What the loop keeps: the in-order sequence of nodes, their values and the counter.\<close>

definition same_content :: "'v RBTree \<Rightarrow> addr tree \<Rightarrow> 'v RBTree \<Rightarrow> bool" where
  "same_content t T t' \<longleftrightarrow> (\<exists>T'. rooted (lk t') (rb_tree t') T' \<and> inorder T' = inorder T) \<and>
     vals t' = vals t \<and> rb_count t' = rb_count t"

lemma same_contentI:
  "rooted (lk t') (rb_tree t') T' \<Longrightarrow> inorder T' = inorder T \<Longrightarrow> vals t' = vals t \<Longrightarrow>
   rb_count t' = rb_count t \<Longrightarrow> same_content t T t'"
  by (auto simp: same_content_def)

text \<open>After the rotation at the grandparent the parent of \<open>l\<close> is still \<open>p\<close>.\<close>

lemma rotated_right_links_parent:
  assumes "rotated_right m m' a c" "m c = Some nc" "m l = Some n" "l \<notin> {a, c, NULL}"
    and "l \<noteq> lk_rchild nc" "lk_lchild n \<noteq> a"
  shows "map_option lk_parent (m' l) = Some (lk_parent n)"
  using assms by (auto simp: rotated_right_def)

lemma rotated_right_keeps_parent:
  assumes "rotated_right (lk t) (lk t') a c" "rb_heap t c = Some nc" "rb_heap t l = Some nl"
    and "l \<notin> {a, c, NULL}" "l \<noteq> rb_rchild nc" "rb_lchild nl \<noteq> a"
  shows "\<exists>nl'. rb_heap t' l = Some nl' \<and> rb_parent nl' = rb_parent nl"
  using rotated_right_links_parent [OF assms(1), of "node_links nc" l "node_links nl"] assms(2-)
  by (auto simp: lk_def)

lemma rotated_left_links_parent:
  assumes "rotated_left m m' a c" "m c = Some nc" "m l = Some n" "l \<notin> {a, c, NULL}"
    and "l \<noteq> lk_lchild nc" "lk_lchild n \<noteq> a"
  shows "map_option lk_parent (m' l) = Some (lk_parent n)"
  using assms by (auto simp: rotated_left_def)

lemma rotated_left_keeps_parent:
  assumes "rotated_left (lk t) (lk t') a c" "rb_heap t c = Some nc" "rb_heap t l = Some nl"
    and "l \<notin> {a, c, NULL}" "l \<noteq> rb_lchild nc" "rb_lchild nl \<noteq> a"
  shows "\<exists>nl'. rb_heap t' l = Some nl' \<and> rb_parent nl' = rb_parent nl"
  using rotated_left_links_parent [OF assms(1), of "node_links nc" l "node_links nl"] assms(2-)
  by (auto simp: lk_def)

lemma live_node: "rooted (lk t) p T \<Longrightarrow> a \<in> set_tree T \<Longrightarrow> \<exists>n. rb_heap t a = Some n"
  using tree_at_dom [of "lk t" p NULL T a] by (auto simp: rooted_def lk_Some)

lemma parent_node:
  assumes r: "rooted (lk t) (rb_tree t) T" and l: "l \<in> set_tree T" "rb_heap t l = Some nl" "l \<noteq> rb_tree t"
  shows "\<exists>np. rb_heap t (rb_parent nl) = Some np \<and> rb_parent nl \<in> set_tree T \<and> rb_parent nl \<noteq> NULL \<and>
    (rb_lchild np = l \<or> rb_rchild np = l) \<and> depth_of l T = Suc (depth_of (rb_parent nl) T)"
proof -
  have ll: "lk t l = Some (node_links nl)" using l by (simp add: lk_def)
  show ?thesis by (rule rooted_parent [OF r l(1) ll l(3)]) (auto simp: lk_Some)
qed

lemma child_node:
  assumes r: "rooted (lk t) (rb_tree t) T" and a: "a \<in> set_tree T" "rb_heap t a = Some n"
    and c: "c = rb_lchild n \<or> c = rb_rchild n" "c \<noteq> NULL"
  shows "\<exists>k. rb_heap t c = Some k \<and> rb_parent k = a \<and> c \<in> set_tree T \<and> depth_of c T = Suc (depth_of a T)"
proof -
  have la: "lk t a = Some (node_links n)" using a by (simp add: lk_def)
  have c': "c = lk_lchild (node_links n) \<or> c = lk_rchild (node_links n)" using c by simp
  show ?thesis by (rule rooted_child [OF r a(1) la c' c(2)]) (auto simp: lk_Some)
qed

text \<open>
  The family of a node whose parent is red, under the loop's invariant that the root is black or
  is the node itself.
\<close>

definition family :: "'v RBTree \<Rightarrow> addr tree \<Rightarrow> addr \<Rightarrow> 'v RBNode \<Rightarrow> 'v RBNode \<Rightarrow> 'v RBNode \<Rightarrow> bool" where
  "family t T l nl np npp \<longleftrightarrow> l \<noteq> NULL \<and> rb_heap t l = Some nl \<and>
     rb_parent nl \<noteq> NULL \<and> rb_parent nl \<in> set_tree T \<and> rb_heap t (rb_parent nl) = Some np \<and>
     rb_parent np \<noteq> NULL \<and> rb_parent np \<in> set_tree T \<and> rb_heap t (rb_parent np) = Some npp \<and>
     (l = rb_lchild np \<or> l = rb_rchild np) \<and>
     (rb_parent nl = rb_lchild npp \<or> rb_parent nl = rb_rchild npp) \<and>
     depth_of l T = Suc (Suc (depth_of (rb_parent np) T)) \<and>
     depth_of (rb_parent nl) T = Suc (depth_of (rb_parent np) T)"

lemma familyI:
  assumes r: "rooted (lk t) (rb_tree t) T" and l: "l \<in> set_tree T" "rb_heap t l = Some nl"
    and inv: "l = rb_tree t \<or> colour t (rb_tree t) = Some RBBlackNode"
    and red: "rb_parent nl \<noteq> NULL" "colour t (rb_parent nl) = Some RBRedNode"
  shows "\<exists>np npp. family t T l nl np npp \<and> rb_type np = RBRedNode"
proof -
  have ll: "lk t l = Some (node_links nl)" using l by (simp add: lk_def)
  have l0: "l \<noteq> NULL" using l(1) r tree_at_not_null by (metis rooted_def)
  have "l \<noteq> rb_tree t" using rooted_parent_null [OF r l(1) ll] red(1) by auto
  then obtain np where np: "rb_heap t (rb_parent nl) = Some np" "rb_parent nl \<in> set_tree T"
      "rb_lchild np = l \<or> rb_rchild np = l" "depth_of l T = Suc (depth_of (rb_parent nl) T)"
    using parent_node [OF r l] by blast
  have "rb_parent nl \<noteq> rb_tree t" using inv \<open>l \<noteq> rb_tree t\<close> red(2) by auto
  then obtain npp where "rb_heap t (rb_parent np) = Some npp" "rb_parent np \<in> set_tree T"
      "rb_parent np \<noteq> NULL" "rb_lchild npp = rb_parent nl \<or> rb_rchild npp = rb_parent nl"
      "depth_of (rb_parent nl) T = Suc (depth_of (rb_parent np) T)"
    using parent_node [OF r np(2,1)] by blast
  with np l l0 red have "family t T l nl np npp \<and> rb_type np = RBRedNode"
    by (auto simp: family_def colour_def)
  then show ?thesis by blast
qed

lemma family_depth:
  assumes "family t T l nl np npp"
  shows "depth_of l T = Suc (Suc (depth_of (rb_parent np) T))"
    "depth_of (rb_parent nl) T = Suc (depth_of (rb_parent np) T)"
  using assms by (simp_all only: family_def not_False_eq_True)

lemma family_differ:
  assumes f: "family t T l nl np npp"
  shows "rb_parent np \<noteq> rb_parent nl" "l \<noteq> rb_parent nl" "l \<noteq> rb_parent np" "l \<noteq> NULL"
proof -
  note d = family_depth [OF f]
  show "rb_parent np \<noteq> rb_parent nl" using d(2) n_not_Suc_n by metis
  show "l \<noteq> rb_parent nl" using d n_not_Suc_n by metis
  show "l \<noteq> rb_parent np" using d(1) Suc_n_not_n n_not_Suc_n by (metis less_Suc_eq less_irrefl)
  show "l \<noteq> NULL" using f by (simp only: family_def not_False_eq_True)
qed

lemma familyD:
  assumes "family t T l nl np npp"
  shows "rb_heap t l = Some nl" "rb_heap t (rb_parent nl) = Some np" "rb_heap t (rb_parent np) = Some npp"
    "rb_parent nl \<in> set_tree T" "rb_parent np \<in> set_tree T" "rb_parent nl \<noteq> NULL" "rb_parent np \<noteq> NULL"
    "l = rb_lchild np \<or> l = rb_rchild np" "rb_parent nl = rb_lchild npp \<or> rb_parent nl = rb_rchild npp"
  using assms by (simp_all only: family_def not_False_eq_True)

text \<open>
  One round with a red uncle moves on to the grandparent; one without a red uncle rotates at
  the grandparent and ends the loop.
\<close>

lemma rebalance_rotates:
  assumes r: "rooted (lk t) (rb_tree t) T" and f: "family t T l nl np npp" "rb_type np = RBRedNode"
    and l: "l \<in> set_tree T"
    and u: "u = (if l = rb_rchild np then rb_lchild npp else rb_rchild npp)"
      "u = NULL \<or> colour t u = Some RBBlackNode"
  shows "\<exists>t'. rebalance l t = Some t' \<and> same_content t T t'"
proof -
  let ?p = "rb_parent nl" and ?pp = "rb_parent np"
  let ?t = "paint ?pp RBRedNode (paint ?p RBBlackNode t)"
  have pp: "?pp \<noteq> ?p" "l \<noteq> ?p" "l \<noteq> ?pp" "l \<noteq> NULL" using family_differ [OF f(1)] by blast+
  note fD = familyD [OF f(1)]
  have npp: "rb_heap ?t ?pp = Some (set_type RBRedNode npp)" "rb_heap ?t l = Some nl"
      "rb_heap ?t ?p = Some (set_type RBBlackNode np)"
    using fD pp by (auto simp: heap_paint)
  have rt: "rooted (lk ?t) (rb_tree ?t) T" using r by simp
  have ch: "rb_lchild nl \<noteq> ?pp"
  proof
    assume a: "rb_lchild nl = ?pp"
    have "depth_of ?pp T = Suc (depth_of l T)"
      using child_node [OF r l fD(1) disjI1 [OF a [symmetric]] fD(7)] by blast
    with family_depth(1) [OF f(1)] show False by linarith
  qed
  have side: "l \<noteq> rb_rchild np" if "?p = rb_lchild npp"
    using that u f(2) fD(2,6) by (auto simp: colour_def)
  have side': "l \<noteq> rb_lchild np" if "?p \<noteq> rb_lchild npp"
  proof -
    have "l = rb_rchild np"
    proof (rule ccontr)
      assume "l \<noteq> rb_rchild np"
      with u(1) that fD(9) have "u = ?p" by simp
      with u(2) f(2) fD(2,6) show False by (simp add: colour_def)
    qed
    then show ?thesis using rooted_children_differ [OF r fD(4), of "node_links np"] fD(2) pp(4) by (auto simp: lk_def)
  qed
  have eq: "rebalance l t = (if ?p = rb_lchild npp
      then Option.bind (right_rotate ?pp ?t) (rebalance l)
      else Option.bind (left_rotate ?pp ?t) (rebalance l))"
    by (rule rebalance_outer [OF fD(1) pp(4) refl fD(6,2) f(2) refl fD(7) pp(1) fD(3) u fD(8,9)])
  show ?thesis
  proof (cases "?p = rb_lchild npp")
    case True
    obtain t' where t': "right_rotate ?pp ?t = Some t'" "rotated_right (lk ?t) (lk t') ?pp ?p"
        "rb_tree t' = (if rb_tree t = ?pp then ?p else rb_tree t)" "node_data t' = node_data ?t"
        "rb_count t' = rb_count t"
      using right_rotate_ok [OF rt fD(5) npp(1), of ?p] fD(6) True by auto
    obtain nl' where "rb_heap t' l = Some nl'" "rb_parent nl' = ?p"
      using rotated_right_keeps_parent [OF t'(2) npp(3,2)] side [OF True] ch pp by auto
    moreover have "colour t' ?p = Some RBBlackNode"
      using node_data_colour [OF t'(4)] fD(2) pp by (simp add: colour_def heap_paint)
    ultimately have "rebalance l t' = Some t'" using rebalance_stop [of t' l nl'] pp(4) by simp
    moreover have "same_content t T t'"
      using rooted_rotr [OF rt fD(5) t'(2) fD(6)] t'(3,5) node_data_vals [OF t'(4)]
      by (intro same_contentI [of _ "rotr_at ?pp T"]) auto
    ultimately show ?thesis using eq True t'(1) by simp
  next
    case False
    then have pr: "?p = rb_rchild npp" using fD(9) by simp
    obtain t' where t': "left_rotate ?pp ?t = Some t'" "rotated_left (lk ?t) (lk t') ?pp ?p"
        "rb_tree t' = (if rb_tree t = ?pp then ?p else rb_tree t)" "node_data t' = node_data ?t"
        "rb_count t' = rb_count t"
      using left_rotate_ok [OF rt fD(5) npp(1), of ?p] fD(6) pr by auto
    obtain nl' where "rb_heap t' l = Some nl'" "rb_parent nl' = ?p"
      using rotated_left_keeps_parent [OF t'(2) npp(3,2)] side' [OF False] ch pp by auto
    moreover have "colour t' ?p = Some RBBlackNode"
      using node_data_colour [OF t'(4)] fD(2) pp by (simp add: colour_def heap_paint)
    ultimately have "rebalance l t' = Some t'" using rebalance_stop [of t' l nl'] pp(4) by simp
    moreover have "same_content t T t'"
      using rooted_rotl [OF rt fD(5) t'(2) fD(6)] t'(3,5) node_data_vals [OF t'(4)]
      by (intro same_contentI [of _ "rotl_at ?pp T"]) auto
    ultimately show ?thesis using eq False t'(1) by simp
  qed
qed

lemma rebalance_ok:
  "rooted (lk t) (rb_tree t) T \<Longrightarrow> l \<in> set_tree T \<Longrightarrow>
   l = rb_tree t \<or> colour t (rb_tree t) = Some RBBlackNode \<Longrightarrow>
   \<exists>t'. rebalance l t = Some t' \<and> same_content t T t'"
proof (induction "depth_of l T" arbitrary: l t rule: less_induct)
  case less
  note r = less.prems(1) and l = less.prems(2)
  have l0: "l \<noteq> NULL" using l r tree_at_not_null by (metis rooted_def)
  obtain nl where nl: "rb_heap t l = Some nl" using live_node [OF r l] by blast
  show ?case
  proof (cases "rb_parent nl \<noteq> NULL \<and> colour t (rb_parent nl) = Some RBRedNode")
    case False
    have "rb_parent nl = NULL \<or> colour t (rb_parent nl) = Some RBBlackNode"
    proof (cases "l = rb_tree t")
      case True
      then show ?thesis using rooted_parent_null [OF r l, of "node_links nl"] nl by (simp add: lk_def)
    next
      case l_root: False
      obtain np where "rb_heap t (rb_parent nl) = Some np" using parent_node [OF r l nl l_root] by blast
      with False show ?thesis by (cases "rb_type np") (auto simp: colour_def)
    qed
    then have "rebalance l t = Some t" using rebalance_stop [OF nl l0] by blast
    moreover have "same_content t T t" using r by (auto intro: same_contentI)
    ultimately show ?thesis by blast
  next
    case True
    then obtain np npp where f: "family t T l nl np npp" "rb_type np = RBRedNode"
      using familyI [OF r l nl less.prems(3)] by blast
    note fD = familyD [OF f(1)]
    define u where "u = (if l = rb_rchild np then rb_lchild npp else rb_rchild npp)"
    have u: "u = NULL \<or> (\<exists>nu. rb_heap t u = Some nu)"
      using child_node [OF r fD(5,3), of u] unfolding u_def by metis
    show ?thesis
    proof (cases "u \<noteq> NULL \<and> colour t u = Some RBRedNode")
      case True
      let ?t = "paint (rb_parent nl) RBBlackNode (paint u RBBlackNode (paint (rb_parent np) RBRedNode t))"
      have "rebalance l t = rebalance (rb_parent np) ?t"
        using True by (intro rebalance_recolour [OF fD(1) l0 refl fD(6,2) f(2) refl fD(7,3) u_def]) auto
      moreover have "\<exists>t'. rebalance (rb_parent np) ?t = Some t' \<and> same_content ?t T t'"
      proof (rule less.hyps)
        show "depth_of (rb_parent np) T < depth_of l T" using family_depth(1) [OF f(1)] by simp
        have "l \<noteq> rb_tree t"
          using rooted_parent_null [OF r l, of "node_links nl"] nl fD(6) by (auto simp: lk_def)
        then show "rb_parent np = rb_tree ?t \<or> colour ?t (rb_tree ?t) = Some RBBlackNode"
          using less.prems(3) by auto
      qed (use r fD(5) in simp_all)
      ultimately show ?thesis by (auto simp: same_content_def)
    next
      case False
      have "u = NULL \<or> colour t u = Some RBBlackNode"
      proof (rule disjCI)
        assume "colour t u \<noteq> Some RBBlackNode"
        with u False show "u = NULL" by (auto simp: colour_def) (metis RBNodeType.exhaust)
      qed
      then show ?thesis using rebalance_rotates [OF r f l u_def] by blast
    qed
  qed
qed


section \<open>Contents\<close>

definition key :: "'v RBTree \<Rightarrow> addr \<Rightarrow> 'v" where
  "key t a = the (vals t a)"

lemma key_eq: "rb_heap t a = Some n \<Longrightarrow> key t a = rb_val n"
  by (simp add: key_def vals_def)

text \<open>The tree stores the strictly ascending list \<open>xs\<close>, and its root is black.\<close>

definition holds :: "'v :: linorder RBTree \<Rightarrow> 'v list \<Rightarrow> bool" where
  "holds t xs \<longleftrightarrow> (\<exists>T. rooted (lk t) (rb_tree t) T \<and> map (key t) (inorder T) = xs \<and> keys_sorted (key t) T) \<and>
     (rb_tree t \<noteq> NULL \<longrightarrow> colour t (rb_tree t) = Some RBBlackNode)"

lemma search_from_ok: "tree_at (lk t) p q T \<Longrightarrow> search_from v p t = Some (tsearch (key t) v T)"
proof (induction T arbitrary: p q)
  case (Node l a r)
  then obtain n where "rb_heap t a = Some n" "p = a" "a \<noteq> NULL"
      "search_from v (rb_lchild n) t = Some (tsearch (key t) v l)"
      "search_from v (rb_rchild n) t = Some (tsearch (key t) v r)" by (auto simp: lk_Some)
  then show ?case by (subst search_from.simps) (simp add: key_eq)
qed (simp add: search_from.simps)

lemma insert_position_ok:
  "tree_at (lk t) p q T \<Longrightarrow> insert_position v p q' t =
     Some (if tsearch (key t) v T = NULL then Some (last_node (key t) v q' T) else None)"
proof (induction T arbitrary: p q q')
  case (Node l a r)
  then obtain n where n: "rb_heap t a = Some n" "p = a" "a \<noteq> NULL"
      "tree_at (lk t) (rb_lchild n) a l" "tree_at (lk t) (rb_rchild n) a r" by (auto simp: lk_Some)
  note Node.IH(1) [OF n(4)] Node.IH(2) [OF n(5)]
  with n(1-3) show ?case by (subst insert_position.simps) (simp add: key_eq)
qed (simp add: insert_position.simps)

lemma same_content_holds:
  assumes "same_content t T t'" "keys_sorted (key t) T"
  shows "\<exists>T'. rooted (lk t') (rb_tree t') T' \<and> inorder T' = inorder T \<and> keys_sorted (key t') T' \<and>
    map (key t') (inorder T') = map (key t) (inorder T)"
proof -
  obtain T' where T': "rooted (lk t') (rb_tree t') T'" "inorder T' = inorder T" "vals t' = vals t"
    using assms(1) by (auto simp: same_content_def)
  have k: "key t' = key t" using T'(3) by (auto simp: key_def)
  have "keys_sorted (key t') T'" using T'(2) k assms(2) by (simp add: keys_sorted_def)
  with T' k show ?thesis by auto
qed

text \<open>The state of \<open>insert\<close> after the new node is hung below its parent.\<close>

definition hang :: "addr \<Rightarrow> addr \<Rightarrow> 'v :: linorder RBTree \<Rightarrow> 'v RBTree option" where
  "hang e p t = do {
     t \<leftarrow> wr e (set_parent p) t;
     lv \<leftarrow> rd rb_val t e;
     pv \<leftarrow> rd rb_val t p;
     (if lv < pv then wr p (set_lchild e) t else wr p (set_rchild e) t) }"

lemma hang_ok:
  assumes "rb_heap t x = Some n" "x \<noteq> NULL" "e \<noteq> NULL" "rb_heap t e = None"
    and "create_node (\<lambda>_. e) v t = (e, s)"
  shows "\<exists>t'. hang e x s = Some t' \<and> leaf_added (lk t) (lk t') x e (v < rb_val n) \<and>
    rb_tree t' = rb_tree t \<and> rb_count t' = rb_count t \<and> vals t' = (vals t)(e \<mapsto> v) \<and>
    colour t' = (colour t)(e \<mapsto> RBRedNode)"
proof -
  have "x \<noteq> e" using assms by auto
  with assms show ?thesis
    by (auto simp: hang_def create_node_def wr_def rd_def field_def leaf_added_def lk_def vals_def
        colour_def fun_eq_iff node_links_def)
qed

lemma insert_alt:
  assumes "create_node (\<lambda>_. e) v t = (e, s)" "e \<noteq> NULL"
  shows "insert_body (\<lambda>_. e) v t = (if rb_tree s = NULL then do {
       s \<leftarrow> wr e (set_type RBBlackNode) (s\<lparr>rb_tree := e\<rparr>);
       Some (Some 1, s) }
     else do {
       pos \<leftarrow> insert_position v (rb_tree s) NULL s;
       (case pos of
          None \<Rightarrow> Some (Some (- 1), s)
        | Some p \<Rightarrow> do {
            s \<leftarrow> hang e p s;
            s \<leftarrow> rebalance e (s\<lparr>rb_count := rb_count s + 1\<rparr>);
            s \<leftarrow> wr (rb_tree s) (set_type RBBlackNode) s;
            Some (None, s) }) })"
  using assms by (simp add: insert_body_def hang_def cong: if_cong option.case_cong)

lemma create_node_frame:
  assumes "create_node (\<lambda>_. e) v t = (e, s)" "e \<noteq> NULL" "rb_heap t e = None"
    and "rooted (lk t) (rb_tree t) T"
  shows "rooted (lk s) (rb_tree s) T" "rb_tree s = rb_tree t" "rb_count s = rb_count t"
    "e \<notin> set_tree T" "vals s = (vals t)(e \<mapsto> v)" "colour s = (colour t)(e \<mapsto> RBRedNode)"
proof -
  show e: "e \<notin> set_tree T" using live_node [OF assms(4), of e] assms(3) by auto
  have s: "s = t\<lparr>rb_heap := (rb_heap t)(e \<mapsto>
       \<lparr>rb_val = v, rb_type = RBRedNode, rb_parent = NULL, rb_lchild = NULL, rb_rchild = NULL\<rparr>)\<rparr>"
    using assms(1,2) by (auto simp: create_node_def)
  then show st: "rb_tree s = rb_tree t" "rb_count s = rb_count t" "vals s = (vals t)(e \<mapsto> v)"
      "colour s = (colour t)(e \<mapsto> RBRedNode)"
    by (auto simp: vals_def colour_def fun_eq_iff)
  have "lk s a = lk t a" if "a \<in> set_tree T" for a
  proof -
    have "a \<noteq> e" using that e by blast
    then show ?thesis using s by (simp add: lk_def)
  qed
  then have "tree_at (lk s) (rb_tree t) NULL T"
    using assms(4) tree_at_frame [of "lk t" "rb_tree t" NULL T "lk s"] by (simp add: rooted_def)
  then show "rooted (lk s) (rb_tree s) T" using assms(4) st by (simp add: rooted_def)
qed

lemma keys_frame:
  assumes "vals s = (vals t)(e \<mapsto> v)" "e \<notin> set_tree T"
  shows "map (key s) (inorder T) = map (key t) (inorder T)" "keys_sorted (key s) T = keys_sorted (key t) T"
proof -
  show "map (key s) (inorder T) = map (key t) (inorder T)" using assms by (auto simp: key_def)
  then show "keys_sorted (key s) T = keys_sorted (key t) T" by (simp only: keys_sorted_def)
qed

lemma tsearch_cong: "(\<And>a. a \<in> set_tree T \<Longrightarrow> k a = k' a) \<Longrightarrow> tsearch k v T = tsearch k' v T"
  by (induction T) auto

lemma last_node_cong:
  "(\<And>a. a \<in> set_tree T \<Longrightarrow> k a = k' a) \<Longrightarrow> last_node k v q T = last_node k' v q T"
  by (induction T arbitrary: q) auto

lemma ins_leaf_cong:
  "(\<And>a. a \<in> set_tree T \<Longrightarrow> k a = k' a) \<Longrightarrow> ins_leaf k v e T = ins_leaf k' v e T"
  by (induction T) auto

text \<open>\<open>insert\<close> of a new value into a tree that is not empty.\<close>

lemma insert_nonempty:
  assumes r: "rooted (lk t) (rb_tree t) T" "T \<noteq> Leaf" "keys_sorted (key t) T" "v \<notin> key t ` set_tree T"
    and black: "colour t (rb_tree t) = Some RBBlackNode" and e: "e \<noteq> NULL" "rb_heap t e = None"
  shows "\<exists>t' T'. insert_body (\<lambda>_. e) v t = Some (None, t') \<and> rooted (lk t') (rb_tree t') T' \<and>
     map (key t') (inorder T') = insort v (map (key t) (inorder T)) \<and> keys_sorted (key t') T' \<and>
     set_tree T' = Set.insert e (set_tree T) \<and>
     colour t' (rb_tree t') = Some RBBlackNode \<and> rb_count t' = rb_count t + 1 \<and> vals t' = (vals t)(e \<mapsto> v)"
proof -
  obtain s where s: "create_node (\<lambda>_. e) v t = (e, s)" using e(1) by (simp add: create_node_def)
  note fr = create_node_frame [OF s e r(1)]
  have ks: "key s a = key t a" if "a \<in> set_tree T" for a
    using that fr(4,5) by (auto simp: key_def)
  let ?x = "last_node (key t) v NULL T"
  have root: "rb_tree t \<noteq> NULL" using r(1,2) tree_at_null by (auto simp: rooted_def)
  have x: "?x \<in> set_tree T" by (rule last_node_in [OF r(2)])
  have x0: "?x \<noteq> NULL" using x r(1) tree_at_not_null by (metis rooted_def)
  obtain n where n: "rb_heap t ?x = Some n" using live_node [OF r(1) x] by blast
  have none: "tsearch (key s) v T = NULL"
    using tsearch_none [OF r(3), of v] r(1,4) tree_at_not_null tsearch_cong [of T "key s" "key t", OF ks]
    by (auto simp: rooted_def)
  have pos: "insert_position v (rb_tree s) NULL s = Some (Some ?x)"
    using insert_position_ok [of s "rb_tree s" NULL T v NULL] fr(1) none
      last_node_cong [of T "key s" "key t", OF ks] by (simp add: rooted_def)
  obtain h where h: "hang e ?x s = Some h" "leaf_added (lk t) (lk h) ?x e (v < rb_val n)"
      "rb_tree h = rb_tree t" "rb_count h = rb_count t" "vals h = (vals t)(e \<mapsto> v)"
      "colour h = (colour t)(e \<mapsto> RBRedNode)"
    using hang_ok [OF n x0 e s] by blast
  let ?T = "ins_leaf (key t) v e T" and ?h = "h\<lparr>rb_count := rb_count h + 1\<rparr>"
  have sel: "lk ?h = lk h" "rb_tree ?h = rb_tree h" "vals ?h = vals h" "colour ?h = colour h"
    by (auto simp: lk_def vals_def colour_def fun_eq_iff)
  have rh: "rooted (lk ?h) (rb_tree ?h) ?T"
    using rooted_ins_leaf [of "lk t" "lk h" "key t" v T e] r(1,2) fr(4) e(1) h(2,3) key_eq [OF n] sel by simp
  have ne: "rb_tree t \<noteq> e" using black e(2) by (auto simp: colour_def)
  obtain t1 where t1: "rebalance e ?h = Some t1" "same_content ?h ?T t1"
    using rebalance_ok [OF rh, of e] black ne h(3,6) sel by auto
  have kh: "key h a = (if a = e then v else key t a)" for a using h(5) by (simp add: key_def)
  have "map (key h) (inorder ?T) = map (key h) (inorder (ins_leaf (key h) v e T))"
    using ins_leaf_cong [of T "key h" "key t"] kh fr(4) by metis
  also have "\<dots> = insort v (map (key h) (inorder T))"
    using keys_frame [OF h(5) fr(4)] r(3,4) kh fr(4) by (intro ins_leaf_insort) (auto simp: image_iff)
  finally have mk: "map (key h) (inorder ?T) = insort v (map (key t) (inorder T))"
    using keys_frame [OF h(5) fr(4)] by simp
  have kh': "key ?h = key h" by (simp add: key_def fun_eq_iff sel)
  have "sorted_wrt (<) (insort v (map (key t) (inorder T)))"
    using r(3,4) by (simp add: keys_sorted_def strict_sorted_iff distinct_insort sorted_insort)
  then have kse: "keys_sorted (key ?h) ?T" using mk kh' by (simp only: keys_sorted_def)
  obtain T' where T': "rooted (lk t1) (rb_tree t1) T'" "inorder T' = inorder ?T" "keys_sorted (key t1) T'"
      "map (key t1) (inorder T') = map (key ?h) (inorder ?T)"
    using same_content_holds [OF t1(2) kse] by blast
  have set': "set_tree T' = Set.insert e (set_tree T)" using T'(2) inorder_empty_tree set_ins_leaf by metis
  then have "T' \<noteq> Leaf" by auto
  then have t0: "rb_tree t1 \<noteq> NULL" using T'(1) tree_at_null by (auto simp: rooted_def)
  then have "rb_tree t1 \<in> set_tree T'" using T'(1) tree_at_root_in by (auto simp: rooted_def)
  then obtain nr where nr: "rb_heap t1 (rb_tree t1) = Some nr" using live_node [OF T'(1)] by blast
  let ?t = "paint (rb_tree t1) RBBlackNode t1"
  have "insert_body (\<lambda>_. e) v t = Some (None, ?t)"
    using insert_alt [OF s e(1)] root fr(2) pos h(1) t1(1) wr_set_type [of t1 "rb_tree t1"] nr t0 by simp
  moreover have "key ?t = key t1" by (simp add: key_def fun_eq_iff)
  moreover have "colour ?t (rb_tree ?t) = Some RBBlackNode" using nr by (simp add: colour_def heap_paint)
  moreover have "rb_count ?t = rb_count t + 1" "vals ?t = (vals t)(e \<mapsto> v)"
    using t1(2) h(4,5) sel by (auto simp: same_content_def)
  ultimately show ?thesis using T' set' mk kh' by (intro exI [of _ ?t] exI [of _ T']) simp
qed


lemma holds_empty: "holds t [] \<Longrightarrow> rb_tree t = NULL"
  using tree_at_null by (fastforce simp: holds_def rooted_def)

lemma holds_nonempty: "holds t xs \<Longrightarrow> xs \<noteq> [] \<Longrightarrow> rb_tree t \<noteq> NULL"
  using tree_at_null by (fastforce simp: holds_def rooted_def)

lemma holds_new: "holds RBTree_new []"
  by (auto simp: holds_def RBTree_new_def rooted_def keys_sorted_def intro: exI [of _ Leaf])

text \<open>The empty tree, the value that exists, and the new value.\<close>

lemma insert_first:
  assumes "holds t []" "e \<noteq> NULL"
  shows "\<exists>t'. insert_body (\<lambda>_. e) v t = Some (Some 1, t') \<and> holds t' [v] \<and> rb_count t' = rb_count t \<and>
    vals t' = (vals t)(e \<mapsto> v)"
proof -
  have root: "rb_tree t = NULL" by (rule holds_empty [OF assms(1)])
  obtain s where s: "create_node (\<lambda>_. e) v t = (e, s)" using assms(2) by (simp add: create_node_def)
  then have h: "rb_heap s = (rb_heap t)(e \<mapsto> \<lparr>rb_val = v, rb_type = RBRedNode, rb_parent = NULL,
      rb_lchild = NULL, rb_rchild = NULL\<rparr>)" "rb_tree s = NULL" "rb_count s = rb_count t"
    using assms(2) root by (auto simp: create_node_def)
  let ?t = "paint e RBBlackNode (s\<lparr>rb_tree := e\<rparr>)"
  have "insert_body (\<lambda>_. e) v t = Some (Some 1, ?t)"
    using insert_alt [OF s assms(2)] h assms(2) wr_set_type [of "s\<lparr>rb_tree := e\<rparr>" e] by simp
  moreover have "holds ?t [v]"
    using h assms(2) unfolding holds_def
    by (intro conjI exI [of _ "Node Leaf e Leaf"])
      (simp_all add: rooted_def lk_def keys_sorted_def key_def vals_def colour_def heap_paint)
  moreover have "vals ?t = (vals t)(e \<mapsto> v)" using h by (auto simp: vals_def fun_eq_iff heap_paint)
  ultimately show ?thesis using h(3) by (intro exI [of _ ?t]) simp
qed

lemma insert_duplicate:
  assumes "holds t xs" "v \<in> set xs" "e \<noteq> NULL" "rb_heap t e = None"
  shows "\<exists>t'. insert_body (\<lambda>_. e) v t = Some (Some (- 1), t') \<and> holds t' xs \<and> rb_count t' = rb_count t \<and>
    vals t' = (vals t)(e \<mapsto> v)"
proof -
  obtain T where T: "rooted (lk t) (rb_tree t) T" "map (key t) (inorder T) = xs" "keys_sorted (key t) T"
      "rb_tree t \<noteq> NULL \<longrightarrow> colour t (rb_tree t) = Some RBBlackNode"
    using assms(1) by (auto simp: holds_def)
  obtain s where s: "create_node (\<lambda>_. e) v t = (e, s)" using assms(3) by (simp add: create_node_def)
  note fr = create_node_frame [OF s assms(3,4) T(1)]
  note kf = keys_frame [OF fr(5,4)]
  have root: "rb_tree t \<noteq> NULL" using holds_nonempty [OF assms(1)] assms(2) by (cases xs) auto
  have "v \<in> key s ` set_tree T"
    using assms(2) T(2) kf(1) by (metis image_set inorder_empty_tree)
  then have "tsearch (key s) v T \<noteq> NULL"
    using tsearch_none [of "key s" T v] kf(2) T(1,3) tree_at_not_null by (auto simp: rooted_def)
  then have "insert_position v (rb_tree s) NULL s = Some None"
    using insert_position_ok [of s "rb_tree s" NULL T v NULL] fr(1) by (simp add: rooted_def)
  then have "insert_body (\<lambda>_. e) v t = Some (Some (- 1), s)"
    using insert_alt [OF s assms(3)] root fr(2) by simp
  moreover have "rb_tree t \<noteq> e" using T(4) root assms(4) by (auto simp: colour_def)
  then have "holds s xs" using T fr kf root by (auto simp: holds_def)
  ultimately show ?thesis using fr by auto
qed

lemma insert_new:
  assumes "holds t xs" "xs \<noteq> []" "v \<notin> set xs" "e \<noteq> NULL" "rb_heap t e = None"
  shows "\<exists>t'. insert_body (\<lambda>_. e) v t = Some (None, t') \<and> holds t' (insort v xs) \<and> rb_count t' = rb_count t + 1 \<and>
    vals t' = (vals t)(e \<mapsto> v)"
proof -
  obtain T where T: "rooted (lk t) (rb_tree t) T" "map (key t) (inorder T) = xs" "keys_sorted (key t) T"
      "rb_tree t \<noteq> NULL \<longrightarrow> colour t (rb_tree t) = Some RBBlackNode"
    using assms(1) by (auto simp: holds_def)
  have root: "rb_tree t \<noteq> NULL" by (rule holds_nonempty [OF assms(1,2)])
  have "T \<noteq> Leaf" using T(2) assms(2) by auto
  moreover have "v \<notin> key t ` set_tree T" using T(2) assms(3) by (metis image_set inorder_empty_tree)
  ultimately obtain t' T' where "insert_body (\<lambda>_. e) v t = Some (None, t')" "rooted (lk t') (rb_tree t') T'"
      "map (key t') (inorder T') = insort v xs" "keys_sorted (key t') T'"
      "colour t' (rb_tree t') = Some RBBlackNode" "rb_count t' = rb_count t + 1" "vals t' = (vals t)(e \<mapsto> v)"
    using insert_nonempty [OF T(1) _ T(3) _ _ assms(4,5)] T(2,4) root by blast
  then show ?thesis by (auto simp: holds_def)
qed

lemma search_holds:
  assumes "holds t xs"
  shows "\<exists>p. search v t = Some p \<and> (p \<noteq> NULL \<longleftrightarrow> v \<in> set xs) \<and> (p \<noteq> NULL \<longrightarrow> vals t p = Some v)"
proof -
  obtain T where T: "rooted (lk t) (rb_tree t) T" "map (key t) (inorder T) = xs" "keys_sorted (key t) T"
    using assms by (auto simp: holds_def)
  let ?p = "tsearch (key t) v T"
  have "search v t = Some ?p"
    using search_from_ok [of t "rb_tree t" NULL T v] T(1) by (simp add: search_def rooted_def)
  moreover have "set xs = key t ` set_tree T" using T(2) by (metis image_set inorder_empty_tree)
  then have "?p \<noteq> NULL \<longleftrightarrow> v \<in> set xs"
    using tsearch_none [OF T(3), of v] T(1) tree_at_not_null by (auto simp: rooted_def)
  moreover have "vals t ?p = Some v" if "?p \<noteq> NULL"
    using tsearch_found [OF that] live_node [OF T(1), of ?p] by (auto simp: key_def vals_def)
  ultimately show ?thesis by blast
qed

lemma insert_holds:
  assumes "holds t xs" "e \<noteq> NULL" "rb_heap t e = None"
  shows "\<exists>t'. insert_body (\<lambda>_. e) v t =
      Some (if v \<in> set xs then Some (- 1) else if xs = [] then Some 1 else None, t') \<and>
    holds t' (if v \<in> set xs then xs else insort v xs) \<and>
    rb_count t' = (if v \<in> set xs \<or> xs = [] then rb_count t else rb_count t + 1) \<and>
    vals t' = (vals t)(e \<mapsto> v)"
proof -
  consider "v \<in> set xs" | "xs = []" | "v \<notin> set xs" "xs \<noteq> []" by blast
  then show ?thesis
  proof cases
    case 1
    then show ?thesis using insert_duplicate [OF assms(1) 1 assms(2,3)] by auto
  next
    case 2
    then show ?thesis using insert_first [of t e v] assms(1,2) by auto
  next
    case 3
    then show ?thesis using insert_new [OF assms(1) 3(2,1) assms(2,3)] by auto
  qed
qed

section \<open>The tree as a sorted set\<close>

definition ins_op :: "addr \<Rightarrow> 'v :: linorder \<Rightarrow> 'v RBTree \<Rightarrow> 'v RBTree option" where
  "ins_op e v t = map_option snd (insert_body (\<lambda>_. e) v t)"

definition mem_op :: "'v :: linorder \<Rightarrow> 'v RBTree \<Rightarrow> bool option" where
  "mem_op v t = map_option (\<lambda>p. p \<noteq> NULL) (search v t)"

definition free_cell :: "addr \<Rightarrow> 'v RBTree \<Rightarrow> bool" where
  "free_cell e t \<longleftrightarrow> e \<noteq> NULL \<and> rb_heap t e = None"

interpretation rbs: sorted_set ins_op mem_op holds free_cell
proof
  fix s :: "'v :: linorder RBTree" and xs e v
  show "holds s xs \<Longrightarrow> sorted_wrt (<) xs" by (auto simp: holds_def keys_sorted_def)
  show "holds s xs \<Longrightarrow> mem_op v s = Some (v \<in> set xs)"
    using search_holds [of s xs v] by (auto simp: mem_op_def)
  show "\<exists>s'. ins_op e v s = Some s' \<and> holds s' (if v \<in> set xs then xs else insort v xs) \<and>
      (\<forall>e'. e' \<noteq> e \<longrightarrow> free_cell e' s \<longrightarrow> free_cell e' s')"
    if hs: "holds s xs" and fr: "free_cell e s"
  proof -
    obtain r t' where t': "insert_body (\<lambda>_. e) v s = Some (r, t')"
        "holds t' (if v \<in> set xs then xs else insort v xs)" "vals t' = (vals s)(e \<mapsto> v)"
      using insert_holds [OF hs, of e v] fr by (auto simp: free_cell_def)
    have "free_cell e' t'" if "e' \<noteq> e" "free_cell e' s" for e'
      using that fun_cong [OF t'(3), of e'] by (simp add: free_cell_def vals_def)
    with t' show ?thesis by (auto simp: ins_op_def)
  qed
qed

section \<open>Properties\<close>

text \<open>
  C5: \<open>insert\<close> on a tree that stores the strictly ascending list \<open>xs\<close>, with the new node at a free
  address. The statements of the body run to their end on every branch: a value that exists
  leaves the contents alone, a new value ends up at its sorted place; the first node is not
  counted, every later one is; the values of all other nodes are untouched. The call itself has
  a defined result in two cases only: -1 for a value that exists and 1 for the first node. A new
  value in a tree that is not empty reaches the closing brace of the function without a
  \<open>return\<close>, so the call is undefined.
\<close>

theorem rb_insert_spec:
  assumes "holds t xs" "e \<noteq> NULL" "rb_heap t e = None"
  shows "\<exists>t'. insert_body (\<lambda>_. e) v t =
      Some (if v \<in> set xs then Some (- 1) else if xs = [] then Some 1 else None, t') \<and>
    insert (\<lambda>_. e) v t =
      (if v \<in> set xs then Some (- 1, t') else if xs = [] then Some (1, t') else None) \<and>
    holds t' (if v \<in> set xs then xs else insort v xs) \<and>
    rb_count t' = (if v \<in> set xs \<or> xs = [] then rb_count t else rb_count t + 1) \<and>
    vals t' = (vals t)(e \<mapsto> v)"
  using insert_holds [OF assms, of v] by (auto simp: insert_def)

theorem rb_insert_spec_witness:
  "\<exists>t' t''. insert (\<lambda>_. 16) (5 :: int) RBTree_new = Some (1, t') \<and> holds t' [5] \<and> rb_count t' = 0 \<and>
     insert (\<lambda>_. 17) 3 t' = None \<and> insert_body (\<lambda>_. 17) 3 t' = Some (None, t'') \<and> holds t'' [3, 5]"
proof -
  from rb_insert_spec [OF holds_new, of 16 5] obtain t' :: "int RBTree"
    where t': "insert (\<lambda>_. 16) (5 :: int) RBTree_new = Some (1, t')" "holds t' [5]" "rb_count t' = 0"
      "vals t' = (vals RBTree_new)(16 \<mapsto> 5)"
    by (auto simp: RBTree_new_def)
  have "rb_heap t' 17 = None" using fun_cong [OF t'(4), of 17] by (simp add: vals_def RBTree_new_def)
  from rb_insert_spec [OF t'(2) _ this, of 3] t' show ?thesis by auto
qed

text \<open>
  \<open>search\<close> returns on every such tree, finds a node exactly for the stored values, and the node
  it returns carries the value asked for.
\<close>

theorem rb_search_spec:
  assumes "holds t xs"
  shows "\<exists>p. search v t = Some p \<and> (p \<noteq> NULL \<longleftrightarrow> v \<in> set xs) \<and> (p \<noteq> NULL \<longrightarrow> vals t p = Some v)"
  using search_holds [OF assms] .

theorem rb_search_spec_witness: "search (7 :: int) RBTree_new = Some NULL"
  using rb_search_spec [OF holds_new, of 7] by auto

text \<open>
  The calls of \<open>insert\<close> themselves, in C++: a sequence is defined as long as it brings at most one
  distinct value.
\<close>

definition ins_call :: "addr \<Rightarrow> 'v :: linorder \<Rightarrow> 'v RBTree \<Rightarrow> 'v RBTree option" where
  "ins_call e v t = map_option snd (insert (\<lambda>_. e) v t)"

lemma ins_call_holds:
  assumes "holds t xs" "free_cell e t"
  shows "ins_call e v t = (if v \<in> set xs \<or> xs = [] then ins_op e v t else None)"
  using insert_holds [OF assms(1), of e v] assms(2)
  by (auto simp: ins_call_def ins_op_def insert_def free_cell_def)

lemma subset_one: "finite A \<Longrightarrow> (\<exists>w. A \<subseteq> {w}) \<longleftrightarrow> card A \<le> 1"
  by (cases "\<exists>a. a \<in> A") (auto simp: card_le_Suc0_iff_eq subset_iff)

lemma ins_calls:
  assumes "holds t xs" "set xs \<subseteq> {w}" "distinct (map fst evs)" "\<forall>(e, v) \<in> set evs. free_cell e t"
  shows "fold_opt (\<lambda>(e, v). ins_call e v) evs t =
    (if \<exists>w. set xs \<union> snd ` set evs \<subseteq> {w} then fold_opt (\<lambda>(e, v). ins_op e v) evs t else None)"
  using assms
proof (induction evs arbitrary: t xs w)
  case Nil
  then show ?case by auto
next
  case (Cons ev evs)
  obtain e v where ev: "ev = (e, v)" by force
  have fr: "free_cell e t" using Cons.prems(4) ev by auto
  obtain t' where t': "ins_op e v t = Some t'" "holds t' (if v \<in> set xs then xs else insort v xs)"
      "\<And>e'. e' \<noteq> e \<Longrightarrow> free_cell e' t \<Longrightarrow> free_cell e' t'"
    using rbs.ins_holds [OF Cons.prems(1) fr, of v] by blast
  show ?case
  proof (cases "v \<in> set xs \<or> xs = []")
    case True
    let ?xs = "if v \<in> set xs then xs else insort v xs"
    have "\<forall>(e, v) \<in> set evs. free_cell e t'" using Cons.prems(3,4) t'(3) ev by force
    moreover have xs: "set ?xs = {v}" using True Cons.prems(2) by auto
    ultimately have "fold_opt (\<lambda>(e, v). ins_call e v) evs t' =
        (if \<exists>w. set ?xs \<union> snd ` set evs \<subseteq> {w} then fold_opt (\<lambda>(e, v). ins_op e v) evs t' else None)"
      using Cons.prems(3) by (intro Cons.IH [OF t'(2), of v]) auto
    moreover have "set ?xs \<union> snd ` set evs = set xs \<union> snd ` set (ev # evs)"
      using True Cons.prems(2) xs ev by auto
    ultimately show ?thesis using ins_call_holds [OF Cons.prems(1) fr, of v] True t'(1) ev by simp
  next
    case False
    then obtain x where "x \<in> set xs" "x \<noteq> v" by (cases xs) auto
    then have no: "\<not> (\<exists>w. set xs \<union> snd ` set (ev # evs) \<subseteq> {w})" using ev by auto
    have "ins_call e v t = None" using ins_call_holds [OF Cons.prems(1) fr, of v] False by simp
    then show ?thesis by (subst if_not_P [OF no]) (simp add: ev)
  qed
qed

text \<open>
  C4: Inserting any sequence of values, each with a new node at a different address, into an
  empty tree. The statements of the body (with the closing brace read as the end of the call)
  refine insertion into a sorted set: afterwards the tree holds the values in ascending order
  without duplicates, and \<open>search\<close> finds exactly them. As C++ the sequence of calls is defined
  exactly when at most one distinct value is inserted, with the same tree, because the call that
  brings a second one ends without a \<open>return\<close>.
\<close>

theorem rb_insert_all:
  assumes "distinct (map fst evs)" "NULL \<notin> fst ` set evs"
  shows "\<exists>t. fold_opt (\<lambda>(e, v). ins_op e v) evs RBTree_new = Some t \<and>
    holds t (sorted_list_of_set (snd ` set evs)) \<and> (\<forall>v. mem_op v t = Some (v \<in> snd ` set evs)) \<and>
    fold_opt (\<lambda>(e, v). ins_call e v) evs RBTree_new =
      (if card (snd ` set evs) \<le> 1 then Some t else None)"
proof -
  have fr: "\<forall>(e, v) \<in> set evs. free_cell e (RBTree_new :: 'a RBTree)"
    using assms(2) by (force simp: free_cell_def RBTree_new_def)
  have "(\<exists>w. snd ` set evs \<subseteq> {w}) \<longleftrightarrow> card (snd ` set evs) \<le> 1"
    by (rule subset_one) simp
  then have "fold_opt (\<lambda>(e, v). ins_call e v) evs RBTree_new =
      (if card (snd ` set evs) \<le> 1 then fold_opt (\<lambda>(e, v). ins_op e v) evs RBTree_new else None)"
    using ins_calls [OF holds_new _ assms(1) fr] by (simp only: list.set empty_subsetI Un_empty_left)
  moreover obtain t where t: "fold_opt (\<lambda>(e, v). ins_op e v) evs (RBTree_new :: 'a RBTree) = Some t"
      "holds t (sorted_list_of_set (snd ` set evs))"
    using rbs.insert_all [OF holds_new assms(1) fr] by auto
  moreover have "mem_op v t = Some (v \<in> snd ` set evs)" for v
    using rbs.mem_holds [OF t(2), of v] by simp
  ultimately show ?thesis by auto
qed

theorem rb_insert_all_witness:
  "\<exists>t. fold_opt (\<lambda>(e, v). ins_op e v) [(16, 10), (17, 5), (18, 7), (19, 5 :: int)] RBTree_new = Some t \<and>
     holds t [5, 7, 10] \<and> mem_op 7 t = Some True \<and> mem_op 8 t = Some False \<and>
     fold_opt (\<lambda>(e, v). ins_call e v) [(16, 10), (17, 5), (18, 7), (19, 5 :: int)] RBTree_new = None"
proof -
  have "sorted_list_of_set (snd ` set [(16 :: addr, 10), (17, 5), (18, 7), (19, 5 :: int)]) = [5, 7, 10]"
    by (simp add: insert_commute)
  with rb_insert_all [of "[(16, 10), (17, 5), (18, 7), (19, 5 :: int)]"] show ?thesis by auto
qed

text \<open>The nodes of a tree with colours, read off the heap with fuel; black height of a coloured tree.\<close>

fun read_tree :: "nat \<Rightarrow> addr \<Rightarrow> 'v RBTree \<Rightarrow> ('v \<times> RBNodeType) tree" where
  "read_tree 0 p t = Leaf"
| "read_tree (Suc n) p t = (if p = NULL then Leaf else case rb_heap t p of
     None \<Rightarrow> Leaf
   | Some k \<Rightarrow> Node (read_tree n (rb_lchild k) t) (rb_val k, rb_type k) (read_tree n (rb_rchild k) t))"

fun black_height :: "('v \<times> RBNodeType) tree \<Rightarrow> nat option" where
  "black_height Leaf = Some 0"
| "black_height (Node l (v, c) r) = do {
     hl \<leftarrow> black_height l;
     hr \<leftarrow> black_height r;
     (if hl = hr then Some (if c = RBBlackNode then Suc hl else hl) else None) }"

lemmas eval_heap = wr_def rd_def field_def load_def modify_def

lemma insert_two:
  assumes "a < (c :: 'v :: linorder)"
  shows "fold_opt (\<lambda>(e, v). ins_op e v) [(16, c), (17, a)] RBTree_new = Some
    \<lparr>rb_heap = [16 \<mapsto> \<lparr>rb_val = c, rb_type = RBBlackNode, rb_parent = NULL, rb_lchild = 17, rb_rchild = NULL\<rparr>,
       17 \<mapsto> \<lparr>rb_val = a, rb_type = RBRedNode, rb_parent = 16, rb_lchild = NULL, rb_rchild = NULL\<rparr>],
     rb_tree = 16, rb_count = 1\<rparr>"
proof -
  let ?h = "[16 \<mapsto> \<lparr>rb_val = c, rb_type = RBBlackNode, rb_parent = NULL, rb_lchild = 17, rb_rchild = NULL\<rparr>,
       17 \<mapsto> \<lparr>rb_val = a, rb_type = RBRedNode, rb_parent = 16, rb_lchild = NULL, rb_rchild = NULL\<rparr>]"
  have first: "ins_op 16 c RBTree_new = Some \<lparr>rb_heap = [16 \<mapsto>
      \<lparr>rb_val = c, rb_type = RBBlackNode, rb_parent = NULL, rb_lchild = NULL, rb_rchild = NULL\<rparr>],
      rb_tree = 16, rb_count = 0\<rparr>"
    by (simp add: ins_op_def RBTree_new_def insert_body_def create_node_def eval_heap)
  have reb: "rebalance 17 \<lparr>rb_heap = ?h, rb_tree = 16, rb_count = 1\<rparr> =
      Some \<lparr>rb_heap = ?h, rb_tree = 16, rb_count = 1\<rparr>"
    by (rule rebalance_stop) (simp add: colour_def)+
  have "ins_op 17 a \<lparr>rb_heap = [16 \<mapsto>
      \<lparr>rb_val = c, rb_type = RBBlackNode, rb_parent = NULL, rb_lchild = NULL, rb_rchild = NULL\<rparr>],
      rb_tree = 16, rb_count = 0\<rparr> = Some \<lparr>rb_heap = ?h, rb_tree = 16, rb_count = 1\<rparr>"
    using assms reb
    by (simp add: ins_op_def insert_body_def create_node_def eval_heap insert_position.simps fun_upd_twist)
  with first show ?thesis by simp
qed

text \<open>
  The red-black balance is not kept: \<open>insert\<close> picks the uncle by the side of the new node
  instead of the side of its parent, so for an inner grandchild the "uncle" is the parent
  itself and the nodes are recoloured instead of rotated. For every \<open>a < b < c\<close>, inserting \<open>c\<close>,
  \<open>a\<close>, \<open>b\<close> leaves a chain with two black nodes on one side and none on the other.
\<close>

theorem rb_insert_inner_unbalanced:
  assumes "a < b" "b < (c :: 'v :: linorder)"
  shows "\<exists>t. fold_opt (\<lambda>(e, v). ins_op e v) [(16, c), (17, a), (18, b)] RBTree_new = Some t \<and>
    read_tree (Suc (Suc (Suc (Suc 0)))) (rb_tree t) t =
      Node (Node Leaf (a, RBBlackNode) (Node Leaf (b, RBRedNode) Leaf)) (c, RBBlackNode) Leaf \<and>
    black_height (read_tree (Suc (Suc (Suc (Suc 0)))) (rb_tree t) t) = None"
proof -
  have a: "a < c" using assms by simp
  let ?h = "[16 \<mapsto> \<lparr>rb_val = c, rb_type = RBBlackNode, rb_parent = NULL, rb_lchild = 17, rb_rchild = NULL\<rparr>,
      17 \<mapsto> \<lparr>rb_val = a, rb_type = RBRedNode, rb_parent = 16, rb_lchild = NULL, rb_rchild = 18\<rparr>,
      18 \<mapsto> \<lparr>rb_val = b, rb_type = RBRedNode, rb_parent = 17, rb_lchild = NULL, rb_rchild = NULL\<rparr>]"
  let ?t = "paint 17 RBBlackNode (paint 17 RBBlackNode (paint 16 RBRedNode
      \<lparr>rb_heap = ?h, rb_tree = 16, rb_count = 2\<rparr>))"
  have "rebalance 18 \<lparr>rb_heap = ?h, rb_tree = 16, rb_count = 2\<rparr> = rebalance 16 ?t"
    by (rule rebalance_recolour) (simp add: colour_def)+
  also have "\<dots> = Some ?t"
    by (rule rebalance_stop) (simp add: colour_def heap_paint)+
  finally have "ins_op 18 b \<lparr>rb_heap = [
      16 \<mapsto> \<lparr>rb_val = c, rb_type = RBBlackNode, rb_parent = NULL, rb_lchild = 17, rb_rchild = NULL\<rparr>,
      17 \<mapsto> \<lparr>rb_val = a, rb_type = RBRedNode, rb_parent = 16, rb_lchild = NULL, rb_rchild = NULL\<rparr>],
      rb_tree = 16, rb_count = 1\<rparr> = Some (paint 16 RBBlackNode ?t)"
    using assms a order_less_not_sym [OF assms(1)]
    by (simp add: ins_op_def insert_body_def create_node_def eval_heap insert_position.simps fun_upd_twist
        paint_def)
  then have "fold_opt (\<lambda>(e, v). ins_op e v) ([(16, c), (17, a)] @ [(18, b)]) RBTree_new =
      Some (paint 16 RBBlackNode ?t)"
    using insert_two [OF a] unfolding fold_opt_append by simp
  moreover have "read_tree (Suc (Suc (Suc (Suc 0)))) 16 (paint 16 RBBlackNode ?t) =
      Node (Node Leaf (a, RBBlackNode) (Node Leaf (b, RBRedNode) Leaf)) (c, RBBlackNode) Leaf"
    by (simp add: heap_paint)
  ultimately show ?thesis by simp
qed

theorem rb_insert_inner_unbalanced_witness:
  "\<exists>t. fold_opt (\<lambda>(e, v). ins_op e v) [(16, 10), (17, 5), (18, 7 :: int)] RBTree_new = Some t \<and>
    black_height (read_tree (Suc (Suc (Suc (Suc 0)))) (rb_tree t) t) = None"
proof -
  have "(5 :: int) < 7" "(7 :: int) < 10" by simp_all
  from rb_insert_inner_unbalanced [OF this] show ?thesis by blast
qed


section \<open>Deletion\<close>

lemma del_absent: "holds t xs \<Longrightarrow> v \<notin> set xs \<Longrightarrow> del v t = Some t"
  using search_holds [of t xs v] by (auto simp: del_def)

lemma delete_leaf_links:
  assumes "rb_heap t d = Some nd" "d \<noteq> NULL" "d \<noteq> rb_tree t" "rb_lchild nd = NULL" "rb_rchild nd = NULL"
    and "rb_heap t (rb_parent nd) = Some np" "rb_parent nd \<noteq> NULL" "rb_parent nd \<noteq> d"
  shows "\<exists>t'. delete_leaf_node d t = Some t' \<and> leaf_removed (lk t) (lk t') d \<and> rb_tree t' = rb_tree t \<and>
    rb_count t' = rb_count t - 1 \<and> vals t' = (vals t)(d := None) \<and> colour t' = (colour t)(d := None)"
proof -
  have "\<exists>t'. delete_leaf_node d t = Some t' \<and> rb_tree t' = rb_tree t \<and> rb_count t' = rb_count t - 1 \<and>
    rb_heap t' = (rb_heap t)(rb_parent nd \<mapsto> (if rb_lchild np = d then set_lchild NULL np
      else set_rchild NULL np), d := None)"
    using assms by (auto simp: delete_leaf_node_def eval_heap Let_def)
  then obtain t' where t': "delete_leaf_node d t = Some t'" "rb_tree t' = rb_tree t"
      "rb_count t' = rb_count t - 1" "rb_heap t' = (rb_heap t)(rb_parent nd \<mapsto>
        (if rb_lchild np = d then set_lchild NULL np else set_rchild NULL np), d := None)" by blast
  have "leaf_removed (lk t) (lk t') d"
    unfolding leaf_removed_def using assms t'(4)
    by (intro exI [of _ "node_links nd"] exI [of _ "node_links np"])
      (auto simp: lk_def fun_eq_iff node_links_def)
  moreover have "vals t' = (vals t)(d := None)" "colour t' = (colour t)(d := None)"
    using t'(4) assms(6) by (auto simp: vals_def colour_def fun_eq_iff)
  ultimately show ?thesis using t' by blast
qed

lemma map_removeAll_inj:
  "distinct (map f xs) \<Longrightarrow> d \<in> set xs \<Longrightarrow> map f (removeAll d xs) = remove1 (f d) (map f xs)"
proof (induction xs)
  case (Cons x xs)
  show ?case
  proof (cases "x = d")
    case True
    with Cons.prems have "d \<notin> set xs" by auto
    with True show ?thesis by (simp add: removeAll_id)
  next
    case False
    with Cons.prems have "f x \<noteq> f d" by auto
    with Cons False show ?thesis by auto
  qed
qed simp

text \<open>
  C38: \<open>del\<close> of a value stored in a red leaf returns, removes exactly that value from the sorted
  contents, and counts it; \<open>del\<close> of a value that is not stored changes nothing.
\<close>

theorem rb_del_red_leaf:
  assumes "holds t xs" "search v t = Some d" "d \<noteq> NULL"
    and "rb_heap t d = Some nd" "rb_type nd = RBRedNode" "rb_lchild nd = NULL" "rb_rchild nd = NULL"
  shows "\<exists>t'. del v t = Some t' \<and> holds t' (remove1 v xs) \<and> rb_count t' = rb_count t - 1 \<and>
    (\<forall>w. w \<notin> set xs \<longrightarrow> del w t = Some t)"
proof -
  obtain T where T: "rooted (lk t) (rb_tree t) T" "map (key t) (inorder T) = xs" "keys_sorted (key t) T"
      "rb_tree t \<noteq> NULL \<longrightarrow> colour t (rb_tree t) = Some RBBlackNode"
    using assms(1) by (auto simp: holds_def)
  have "tsearch (key t) v T = d"
    using search_from_ok [of t "rb_tree t" NULL T v] T(1) assms(2) by (simp add: search_def rooted_def)
  then have d: "d \<in> set_tree T" "key t d = v" using tsearch_found [of "key t" v T] assms(3) by auto
  have root: "d \<noteq> rb_tree t" using T(4) assms(3-5) by (auto simp: colour_def)
  obtain np where np: "rb_heap t (rb_parent nd) = Some np" "rb_parent nd \<noteq> NULL"
      "depth_of d T = Suc (depth_of (rb_parent nd) T)"
    using parent_node [OF T(1) d(1) assms(4) root] by blast
  have "rb_parent nd \<noteq> d" using np(3) by (metis n_not_Suc_n)
  then obtain t' where t': "delete_leaf_node d t = Some t'" "leaf_removed (lk t) (lk t') d"
      "rb_tree t' = rb_tree t" "rb_count t' = rb_count t - 1" "vals t' = (vals t)(d := None)"
      "colour t' = (colour t)(d := None)"
    using delete_leaf_links [OF assms(4,3) root assms(6,7) np(1,2)] by blast
  have "del v t = Some t'" using assms(2-7) t'(1) by (simp add: del_def eval_heap)
  moreover have "holds t' (remove1 v xs)"
  proof -
    note rd = rooted_del_leaf [OF t'(2) T(1) d(1) root]
    have "map (key t') (inorder (del_leaf d T)) = map (key t) (removeAll d (inorder T))"
      unfolding rd(2) using t'(5) by (auto simp: key_def)
    also have "\<dots> = remove1 v xs"
      using map_removeAll_inj [of "key t" "inorder T" d] T(2,3) d
      by (auto simp: keys_sorted_def strict_sorted_iff)
    finally have k: "map (key t') (inorder (del_leaf d T)) = remove1 v xs" .
    have "sorted_wrt (<) (remove1 v xs)"
      using T(2,3) by (simp add: keys_sorted_def strict_sorted_iff sorted_remove1)
    with k have "keys_sorted (key t') (del_leaf d T)" by (simp only: keys_sorted_def)
    with k rd(1) T(4) t'(3,6) root show ?thesis by (auto simp: holds_def)
  qed
  moreover have "\<forall>w. w \<notin> set xs \<longrightarrow> del w t = Some t" using del_absent [OF assms(1)] by blast
  ultimately show ?thesis using t'(4) by blast
qed

text \<open>Two nodes, the second red: the tree used to witness deletion.\<close>

lemma search_eval_two:
  assumes "a < (c :: 'v :: linorder)"
    "rb_heap t 16 = Some \<lparr>rb_val = c, rb_type = ty, rb_parent = NULL, rb_lchild = 17, rb_rchild = NULL\<rparr>"
    "rb_heap t 17 = Some \<lparr>rb_val = a, rb_type = ty', rb_parent = 16, rb_lchild = NULL, rb_rchild = NULL\<rparr>"
    "rb_tree t = 16"
  shows "search a t = Some 17" "search c t = Some 16"
  using assms by (simp_all add: search_def search_from.simps load_def)

theorem rb_del_red_leaf_witness:
  "\<exists>t t'. fold_opt (\<lambda>(e, v). ins_op e v) [(16, 10), (17, 5 :: int)] RBTree_new = Some t \<and>
     holds t [5, 10] \<and> del 5 t = Some t' \<and> holds t' [10] \<and> rb_count t' = 0"
proof -
  let ?t = "\<lparr>rb_heap = [
      16 \<mapsto> \<lparr>rb_val = 10 :: int, rb_type = RBBlackNode, rb_parent = NULL, rb_lchild = 17, rb_rchild = NULL\<rparr>,
      17 \<mapsto> \<lparr>rb_val = 5, rb_type = RBRedNode, rb_parent = 16, rb_lchild = NULL, rb_rchild = NULL\<rparr>],
     rb_tree = 16, rb_count = 1\<rparr>"
  have f: "fold_opt (\<lambda>(e, v). ins_op e v) [(16, 10), (17, 5 :: int)] RBTree_new = Some ?t"
    by (rule insert_two) simp
  have "\<exists>s. fold_opt (\<lambda>(e, v). ins_op e v) [(16, 10), (17, 5 :: int)] RBTree_new = Some s \<and>
      holds s (sorted_list_of_set ({} \<union> {10, 5}))"
    using rbs.insert_all [OF holds_new, of "[(16, 10), (17, 5 :: int)]"]
    by (simp add: free_cell_def RBTree_new_def del: fold_opt.simps)
  with f have h: "holds ?t [5, 10]" by simp
  have "search 5 ?t = Some 17" by (rule search_eval_two [of 5 10]) simp_all
  from rb_del_red_leaf [OF h this] f h show ?thesis by auto
qed

text \<open>A node that is its own left child makes the search for smaller values run forever.\<close>

lemma search_self_loop:
  assumes "rb_heap t p = Some n" "p \<noteq> NULL" "rb_lchild n = p" "v < rb_val n"
  shows "search_from v p t = None"
proof (rule ccontr)
  let ?P = "\<lambda>v p t y. \<not> (\<exists>n. rb_heap t p = Some n \<and> p \<noteq> NULL \<and> rb_lchild n = p \<and> v < rb_val n)"
  assume "search_from v p t \<noteq> None"
  then obtain y where "search_from v p t = Some y" by blast
  then have "?P v p t y"
  proof (rule search_from.raw_induct [where P = ?P, rotated])
    fix f v p y and t :: "'a RBTree"
    assume IH: "\<And>v p t y. f v p t = Some y \<Longrightarrow> ?P v p t y"
      and body: "(if p \<noteq> NULL then do {
        n \<leftarrow> load (rb_heap t) p;
        (if rb_val n > v then f v (rb_lchild n) t
         else if rb_val n < v then f v (rb_rchild n) t
         else Some p) } else Some NULL) = Some y"
    show "?P v p t y"
    proof
      assume ex: "\<exists>n. rb_heap t p = Some n \<and> p \<noteq> NULL \<and> rb_lchild n = p \<and> v < rb_val n"
      with body have "f v p t = Some y" by (auto simp: load_def)
      from IH [OF this] ex show False by blast
    qed
  qed
  with assms show False by blast
qed

text \<open>
  \<open>del\<close> of a black node with a single child corrupts the tree: \<open>change_node\<close> exchanges the
  links of two adjacent nodes one by one, which makes the surviving node its own left
  child. For all \<open>a < c\<close>, after inserting \<open>c\<close> and \<open>a\<close> and deleting \<open>c\<close>, the search for any value
  below \<open>a\<close> does not terminate.
\<close>

theorem rb_del_adjacent_loops:
  assumes "a < (c :: 'v :: linorder)" "v < a"
  shows "\<exists>t t'. fold_opt (\<lambda>(e, v). ins_op e v) [(16, c), (17, a)] RBTree_new = Some t \<and>
    del c t = Some t' \<and> rd rb_lchild t' (rb_tree t') = Some (rb_tree t') \<and>
    search v t \<noteq> None \<and> search v t' = None"
proof -
  let ?t = "\<lparr>rb_heap = [
      16 \<mapsto> \<lparr>rb_val = c, rb_type = RBBlackNode, rb_parent = NULL, rb_lchild = 17, rb_rchild = NULL\<rparr>,
      17 \<mapsto> \<lparr>rb_val = a, rb_type = RBRedNode, rb_parent = 16, rb_lchild = NULL, rb_rchild = NULL\<rparr>],
     rb_tree = 16, rb_count = 1\<rparr>"
  let ?s = "\<lparr>rb_heap = [
      17 \<mapsto> \<lparr>rb_val = a, rb_type = RBBlackNode, rb_parent = NULL, rb_lchild = 17, rb_rchild = NULL\<rparr>],
     rb_tree = 17, rb_count = 0\<rparr>"
  have f: "fold_opt (\<lambda>(e, v). ins_op e v) [(16, c), (17, a)] RBTree_new = Some ?t"
    by (rule insert_two [OF assms(1)])
  have se: "search c ?t = Some 16" by (rule search_eval_two [OF assms(1)]) simp_all
  have ch: "\<exists>u. change_node 16 17 True ?t = Some u \<and> rb_tree u = 17 \<and> rb_count u = 1 \<and>
      rb_heap u 16 = Some \<lparr>rb_val = c, rb_type = RBRedNode, rb_parent = 16, rb_lchild = NULL, rb_rchild = 16\<rparr> \<and>
      rb_heap u 17 = Some \<lparr>rb_val = a, rb_type = RBBlackNode, rb_parent = NULL, rb_lchild = 17, rb_rchild = NULL\<rparr>"
    by (simp add: change_node_def eval_heap)
  then obtain u where u: "change_node 16 17 True ?t = Some u" "rb_tree u = 17" "rb_count u = 1"
      "rb_heap u 16 = Some \<lparr>rb_val = c, rb_type = RBRedNode, rb_parent = 16, rb_lchild = NULL, rb_rchild = 16\<rparr>"
      "rb_heap u 17 = Some \<lparr>rb_val = a, rb_type = RBBlackNode, rb_parent = NULL, rb_lchild = 17, rb_rchild = NULL\<rparr>"
    by blast
  have "\<exists>s. delete_leaf_node 16 u = Some s \<and> rb_tree s = 17 \<and>
      rb_heap s 17 = Some \<lparr>rb_val = a, rb_type = RBBlackNode, rb_parent = NULL, rb_lchild = 17, rb_rchild = NULL\<rparr>"
    using u by (simp add: delete_leaf_node_def eval_heap Let_def)
  then obtain s where s: "delete_leaf_node 16 u = Some s" "rb_tree s = 17"
      "rb_heap s 17 = Some \<lparr>rb_val = a, rb_type = RBBlackNode, rb_parent = NULL, rb_lchild = 17, rb_rchild = NULL\<rparr>"
    by blast
  have "del c ?t = Some s" unfolding del_def se using u(1) s(1) by (simp add: eval_heap)
  moreover have "search v s = None"
    unfolding search_def s(2) by (rule search_self_loop [OF s(3)]) (use assms(2) in simp_all)
  moreover have "search v ?t \<noteq> None"
    using assms by (simp add: search_def search_from.simps load_def)
  ultimately show ?thesis using f s by (intro exI [of _ ?t] exI [of _ s]) (simp add: eval_heap)
qed

theorem rb_del_adjacent_loops_witness:
  "\<exists>t t'. fold_opt (\<lambda>(e, v). ins_op e v) [(16, 10), (17, 5 :: int)] RBTree_new = Some t \<and>
    del 10 t = Some t' \<and> search 1 t \<noteq> None \<and> search 1 t' = None"
proof -
  have "(5 :: int) < 10" "(1 :: int) < 5" by simp_all
  from rb_del_adjacent_loops [OF this] show ?thesis by blast
qed

end
