(* ===== verification/Mg_Rbtree.thy ===== *)
theory Mg_Rbtree
  imports Util_Rbtree
begin

text \<open>
  The intrusive red-black tree of \<^verbatim>\<open>core/mg_rbtree.h\<close>. Nodes live in a heap, the key of a node is
  known only to the \<open>_compare\<close> callback, which is a parameter \<open>cmp\<close> on node addresses (positive:
  the left argument is smaller, as the header says). \<^term>\<open>None\<close> is an access through a bad
  pointer or a loop that does not end. Names that the template of \<^verbatim>\<open>utils/rbtree.h\<close> uses too
  carry the prefix \<open>mg_\<close>.
\<close>

section \<open>Data\<close>

record mg_rb_node =
  rn_type :: "8 word"
  rn_parent :: addr
  rn_lchild :: addr
  rn_rchild :: addr

record mg_rb_tree =
  rt_nodes :: "mg_rb_node heap"
  rt_count :: "64 word"
  rt_root :: addr

type_synonym compare = "addr \<Rightarrow> addr \<Rightarrow> int"

definition RBREDNODE :: "8 word" where
  "RBREDNODE = 0"

definition RBBLACKNODE :: "8 word" where
  "RBBLACKNODE = 1"

definition nrd :: "(mg_rb_node \<Rightarrow> 'f) \<Rightarrow> mg_rb_tree \<Rightarrow> addr \<Rightarrow> 'f option" where
  "nrd g t p = field g (rt_nodes t) p"

definition nwr :: "addr \<Rightarrow> (mg_rb_node \<Rightarrow> mg_rb_node) \<Rightarrow> mg_rb_tree \<Rightarrow> mg_rb_tree option" where
  "nwr p f t = map_option (\<lambda>h. t\<lparr>rt_nodes := h\<rparr>) (modify p f (rt_nodes t))"

abbreviation put_type :: "8 word \<Rightarrow> mg_rb_node \<Rightarrow> mg_rb_node" where
  "put_type c \<equiv> rn_type_update (\<lambda>_. c)"

abbreviation put_parent :: "addr \<Rightarrow> mg_rb_node \<Rightarrow> mg_rb_node" where
  "put_parent a \<equiv> rn_parent_update (\<lambda>_. a)"

abbreviation put_lchild :: "addr \<Rightarrow> mg_rb_node \<Rightarrow> mg_rb_node" where
  "put_lchild a \<equiv> rn_lchild_update (\<lambda>_. a)"

abbreviation put_rchild :: "addr \<Rightarrow> mg_rb_node \<Rightarrow> mg_rb_node" where
  "put_rchild a \<equiv> rn_rchild_update (\<lambda>_. a)"

section \<open>Operations\<close>

definition rb_node_is_red :: "addr \<Rightarrow> mg_rb_tree \<Rightarrow> bool option" where
  "rb_node_is_red node t = map_option (\<lambda>c. c = RBREDNODE) (nrd rn_type t node)"

definition rb_node_is_black :: "addr \<Rightarrow> mg_rb_tree \<Rightarrow> bool option" where
  "rb_node_is_black node t = map_option (\<lambda>c. c = RBBLACKNODE) (nrd rn_type t node)"

definition init_rb_node :: "addr \<Rightarrow> mg_rb_tree \<Rightarrow> mg_rb_tree option" where
  "init_rb_node rbnode t = nwr rbnode (\<lambda>n. n\<lparr>rn_type := RBREDNODE, rn_rchild := NULL,
     rn_lchild := NULL, rn_parent := NULL\<rparr>) t"

definition init_rb_tree :: "mg_rb_tree \<Rightarrow> mg_rb_tree" where
  "init_rb_tree t = t\<lparr>rt_count := 0, rt_root := NULL\<rparr>"

partial_function (option) search_rb_from :: "compare \<Rightarrow> addr \<Rightarrow> addr \<Rightarrow> mg_rb_tree \<Rightarrow> addr option" where
  "search_rb_from cmp node p t = (if p \<noteq> NULL then do {
       (let ret = cmp node p in
        if ret > 0 then do { l \<leftarrow> nrd rn_lchild t p; search_rb_from cmp node l t }
        else if ret < 0 then do { r \<leftarrow> nrd rn_rchild t p; search_rb_from cmp node r t }
        else Some p) }
     else Some NULL)"

text \<open>
  At the end of the loop \<open>p\<close> is null, so that both arms of \<open>insert_position ? p : nullptr\<close> are null.
\<close>

definition search_rb_node :: "compare \<Rightarrow> addr \<Rightarrow> bool \<Rightarrow> mg_rb_tree \<Rightarrow> addr option" where
  "search_rb_node cmp node ins_pos t = do {
     p \<leftarrow> search_rb_from cmp node (rt_root t) t;
     Some (if p \<noteq> NULL then p else if ins_pos then p else NULL) }"

definition mg_left_rotate :: "addr \<Rightarrow> mg_rb_tree \<Rightarrow> mg_rb_tree option" where
  "mg_left_rotate node t = do {
     p \<leftarrow> nrd rn_parent t node;
     rc \<leftarrow> nrd rn_rchild t node;
     rcl \<leftarrow> nrd rn_lchild t rc;
     t \<leftarrow> (if rcl \<noteq> NULL then nwr rcl (put_parent node) t else Some t);
     rcl \<leftarrow> nrd rn_lchild t rc;
     t \<leftarrow> nwr node (put_rchild rcl) t;
     t \<leftarrow> nwr rc (put_parent p) t;
     t \<leftarrow> (if p = NULL then Some (t\<lparr>rt_root := rc\<rparr>) else do {
         pl \<leftarrow> nrd rn_lchild t p;
         pr \<leftarrow> nrd rn_rchild t p;
         (if pl = node then nwr p (put_lchild rc) t
          else if pr = node then nwr p (put_rchild rc) t
          else Some t) });
     t \<leftarrow> nwr rc (put_lchild node) t;
     nwr node (put_parent rc) t }"

definition mg_right_rotate :: "addr \<Rightarrow> mg_rb_tree \<Rightarrow> mg_rb_tree option" where
  "mg_right_rotate node t = do {
     p \<leftarrow> nrd rn_parent t node;
     lc \<leftarrow> nrd rn_lchild t node;
     lcr \<leftarrow> nrd rn_rchild t lc;
     t \<leftarrow> (if lcr \<noteq> NULL then nwr lcr (put_parent node) t else Some t);
     lcr \<leftarrow> nrd rn_rchild t lc;
     t \<leftarrow> nwr node (put_lchild lcr) t;
     t \<leftarrow> nwr lc (put_parent p) t;
     t \<leftarrow> (if p = NULL then Some (t\<lparr>rt_root := lc\<rparr>) else do {
         pl \<leftarrow> nrd rn_lchild t p;
         (if pl = node then nwr p (put_lchild lc) t
          else nwr p (put_rchild lc) t) });
     t \<leftarrow> nwr lc (put_rchild node) t;
     nwr node (put_parent lc) t }"

definition mg_delete_leaf_node :: "addr \<Rightarrow> mg_rb_tree \<Rightarrow> mg_rb_tree option" where
  "mg_delete_leaf_node leaf t = (if leaf = rt_root t then Some (t\<lparr>rt_root := NULL\<rparr>) else do {
     p \<leftarrow> nrd rn_parent t leaf;
     pl \<leftarrow> nrd rn_lchild t p;
     (if pl = leaf then nwr p (put_lchild NULL) t else nwr p (put_rchild NULL) t) })"

definition change_rb_node :: "addr \<Rightarrow> addr \<Rightarrow> bool \<Rightarrow> mg_rb_tree \<Rightarrow> mg_rb_tree option" where
  "change_rb_node n1 n2 change_type t = (if n1 = n2 then Some t else do {
     n1p \<leftarrow> nrd rn_parent t n1;
     n2p \<leftarrow> nrd rn_parent t n2;
     tmp \<leftarrow> nrd rn_lchild t n1;
     n2l \<leftarrow> nrd rn_lchild t n2;
     t \<leftarrow> nwr n1 (put_lchild n2l) t;
     t \<leftarrow> nwr n2 (put_lchild tmp) t;
     tmp \<leftarrow> nrd rn_rchild t n1;
     n2r \<leftarrow> nrd rn_rchild t n2;
     t \<leftarrow> nwr n1 (put_rchild n2r) t;
     t \<leftarrow> nwr n2 (put_rchild tmp) t;
     t \<leftarrow> nwr n1 (put_parent n2p) t;
     t \<leftarrow> nwr n2 (put_parent n1p) t;
     t \<leftarrow> (if n1p = NULL then Some (t\<lparr>rt_root := n2\<rparr>) else do {
         l \<leftarrow> nrd rn_lchild t n1p;
         (if l = n1 then nwr n1p (put_lchild n2) t else nwr n1p (put_rchild n2) t) });
     l \<leftarrow> nrd rn_lchild t n2p;
     t \<leftarrow> (if l = n2 then nwr n2p (put_lchild n1) t else nwr n2p (put_rchild n1) t);
     (if change_type then do {
        typ \<leftarrow> nrd rn_type t n1;
        typ2 \<leftarrow> nrd rn_type t n2;
        t \<leftarrow> nwr n1 (put_type typ2) t;
        nwr n2 (put_type typ) t }
      else Some t) })"

partial_function (option) mg_leftmost :: "addr \<Rightarrow> mg_rb_tree \<Rightarrow> addr option" where
  "mg_leftmost r t = do {
     l \<leftarrow> nrd rn_lchild t r;
     (if l \<noteq> NULL then mg_leftmost l t else Some r) }"

definition mg_find_right_replace_node :: "addr \<Rightarrow> mg_rb_tree \<Rightarrow> addr option" where
  "mg_find_right_replace_node n t = do {
     r \<leftarrow> nrd rn_rchild t n;
     mg_leftmost r t }"

text \<open>The rebalancing loop of \<open>insert_rb_node\<close>.\<close>

partial_function (option) insert_fixup :: "addr \<Rightarrow> mg_rb_tree \<Rightarrow> mg_rb_tree option" where
  "insert_fixup node t = do {
     p \<leftarrow> nrd rn_parent t node;
     red \<leftarrow> (if p = NULL then Some False else rb_node_is_red p t);
     (if \<not> red then Some t else do {
       pp \<leftarrow> nrd rn_parent t p;
       pr \<leftarrow> nrd rn_rchild t p;
       u \<leftarrow> (if node = pr then nrd rn_lchild t pp else nrd rn_rchild t pp);
       ured \<leftarrow> (if u = NULL then Some False else rb_node_is_red u t);
       (if ured then do {
          t \<leftarrow> nwr pp (put_type RBREDNODE) t;
          t \<leftarrow> nwr u (put_type RBBLACKNODE) t;
          t \<leftarrow> nwr p (put_type RBBLACKNODE) t;
          insert_fixup pp t }
        else do {
          ppl \<leftarrow> nrd rn_lchild t pp;
          pl \<leftarrow> nrd rn_lchild t p;
          t \<leftarrow> (if p = ppl then
                 (if node = pl then do {
                    t \<leftarrow> nwr p (put_type RBBLACKNODE) t;
                    t \<leftarrow> nwr pp (put_type RBREDNODE) t;
                    mg_right_rotate pp t }
                  else do {
                    t \<leftarrow> mg_left_rotate p t;
                    t \<leftarrow> nwr node (put_type RBBLACKNODE) t;
                    t \<leftarrow> nwr pp (put_type RBREDNODE) t;
                    mg_right_rotate pp t })
               else
                 (if node = pr then do {
                    t \<leftarrow> nwr p (put_type RBBLACKNODE) t;
                    t \<leftarrow> nwr pp (put_type RBREDNODE) t;
                    mg_left_rotate pp t }
                  else do {
                    t \<leftarrow> mg_right_rotate p t;
                    t \<leftarrow> nwr node (put_type RBBLACKNODE) t;
                    t \<leftarrow> nwr pp (put_type RBREDNODE) t;
                    mg_left_rotate pp t }));
          insert_fixup node t }) }) }"

definition insert_rb_node :: "compare \<Rightarrow> addr \<Rightarrow> mg_rb_tree \<Rightarrow> mg_rb_tree option" where
  "insert_rb_node cmp node t = do {
     p \<leftarrow> search_rb_node cmp node True t;
     (if p = NULL then do {
        t \<leftarrow> nwr node (put_type RBBLACKNODE) (t\<lparr>rt_root := node\<rparr>);
        Some (t\<lparr>rt_count := rt_count t + 1\<rparr>) }
      else let ret = cmp node p in
        if ret = 0 then Some t
        else do {
          t \<leftarrow> (if ret > 0 then nwr p (put_lchild node) t else nwr p (put_rchild node) t);
          t \<leftarrow> insert_fixup node (t\<lparr>rt_count := rt_count t + 1\<rparr>);
          nwr (rt_root t) (put_type RBBLACKNODE) t }) }"

text \<open>
  The deletion loop, yielding the final \<open>node\<close>; the second half tests \<open>b->_lchild\<close> where the
  first half tests \<open>b->_rchild\<close>, as the source does.
\<close>

partial_function (option) delete_fixup :: "addr \<Rightarrow> addr \<Rightarrow> mg_rb_tree \<Rightarrow> (addr \<times> mg_rb_tree) option" where
  "delete_fixup node p t = do {
     go \<leftarrow> (if node = NULL then Some False
            else map_option (\<lambda>b. b \<and> node \<noteq> rt_root t) (rb_node_is_black node t));
     (if \<not> go then Some (node, t) else do {
       pl \<leftarrow> nrd rn_lchild t p;
       (if pl = node then do {
          b \<leftarrow> nrd rn_rchild t p;
          red \<leftarrow> rb_node_is_red b t;
          t \<leftarrow> (if red then do {
                 t \<leftarrow> nwr b (put_type RBBLACKNODE) t;
                 t \<leftarrow> nwr p (put_type RBREDNODE) t;
                 mg_left_rotate p t } else Some t);
          b \<leftarrow> nrd rn_rchild t p;
          bl \<leftarrow> nrd rn_lchild t b;
          br \<leftarrow> nrd rn_rchild t b;
          lb \<leftarrow> (if bl = NULL then Some True else rb_node_is_black bl t);
          both \<leftarrow> (if \<not> lb then Some False else if br = NULL then Some True else rb_node_is_black br t);
          (if both then do {
             t \<leftarrow> nwr b (put_type RBREDNODE) t;
             p' \<leftarrow> nrd rn_parent t p;
             delete_fixup p p' t }
           else do {
             brb \<leftarrow> rb_node_is_black br t;
             t \<leftarrow> (if brb then do {
                    t \<leftarrow> nwr bl (put_type RBBLACKNODE) t;
                    t \<leftarrow> nwr b (put_type RBREDNODE) t;
                    mg_right_rotate b t } else Some t);
             b \<leftarrow> nrd rn_rchild t p;
             pt \<leftarrow> nrd rn_type t p;
             t \<leftarrow> nwr b (put_type pt) t;
             t \<leftarrow> nwr p (put_type RBBLACKNODE) t;
             br \<leftarrow> nrd rn_rchild t b;
             t \<leftarrow> nwr br (put_type RBBLACKNODE) t;
             t \<leftarrow> mg_left_rotate p t;
             Some (node, t) }) }
        else do {
          b \<leftarrow> nrd rn_lchild t p;
          red \<leftarrow> rb_node_is_red b t;
          t \<leftarrow> (if red then do {
                 t \<leftarrow> nwr b (put_type RBBLACKNODE) t;
                 t \<leftarrow> nwr p (put_type RBREDNODE) t;
                 mg_right_rotate p t } else Some t);
          b \<leftarrow> nrd rn_lchild t p;
          bl \<leftarrow> nrd rn_lchild t b;
          br \<leftarrow> nrd rn_rchild t b;
          lb \<leftarrow> (if bl = NULL then Some True else rb_node_is_black bl t);
          both \<leftarrow> (if \<not> lb then Some False else if br = NULL then Some True else rb_node_is_black bl t);
          (if both then do {
             t \<leftarrow> nwr b (put_type RBREDNODE) t;
             p' \<leftarrow> nrd rn_parent t p;
             delete_fixup p p' t }
           else do {
             blb \<leftarrow> rb_node_is_black bl t;
             t \<leftarrow> (if blb then do {
                    t \<leftarrow> nwr br (put_type RBBLACKNODE) t;
                    t \<leftarrow> nwr b (put_type RBREDNODE) t;
                    mg_left_rotate b t } else Some t);
             b \<leftarrow> nrd rn_lchild t p;
             pt \<leftarrow> nrd rn_type t p;
             t \<leftarrow> nwr b (put_type pt) t;
             t \<leftarrow> nwr p (put_type RBBLACKNODE) t;
             bl \<leftarrow> nrd rn_lchild t b;
             t \<leftarrow> nwr bl (put_type RBBLACKNODE) t;
             t \<leftarrow> mg_right_rotate p t;
             Some (node, t) }) }) }) }"

definition delete_rb_node :: "compare \<Rightarrow> addr \<Rightarrow> mg_rb_tree \<Rightarrow> mg_rb_tree option" where
  "delete_rb_node cmp dnode t = do {
     d \<leftarrow> search_rb_node cmp dnode False t;
     (if d = NULL then Some t else do {
       dl \<leftarrow> nrd rn_lchild t d;
       dr \<leftarrow> nrd rn_rchild t d;
       t \<leftarrow> (if dl \<noteq> NULL \<and> dr \<noteq> NULL then do {
              r \<leftarrow> mg_find_right_replace_node d t;
              change_rb_node d r True t } else Some t);
       red \<leftarrow> rb_node_is_red d t;
       (if red then mg_delete_leaf_node d t else do {
         dl \<leftarrow> nrd rn_lchild t d;
         dr \<leftarrow> nrd rn_rchild t d;
         (if dl \<noteq> NULL then do {
            t \<leftarrow> change_rb_node d dl True t;
            mg_delete_leaf_node d t }
          else if dr \<noteq> NULL then do {
            t \<leftarrow> change_rb_node d dr True t;
            mg_delete_leaf_node d t }
          else do {
            p \<leftarrow> nrd rn_parent t d;
            (node, t) \<leftarrow> delete_fixup d p t;
            t \<leftarrow> nwr node (put_type RBBLACKNODE) t;
            mg_delete_leaf_node d t }) }) }) }"


section \<open>Insertion\<close>

lemma search_rb_from_equal:
  "search_rb_from cmp node p t = Some q \<Longrightarrow> q \<noteq> NULL \<Longrightarrow> cmp node q = 0"
proof -
  let ?P = "\<lambda>cmp node p t q. q \<noteq> NULL \<longrightarrow> cmp node q = 0"
  assume "search_rb_from cmp node p t = Some q" "q \<noteq> NULL"
  moreover have "search_rb_from cmp node p t = Some q \<Longrightarrow> ?P cmp node p t q"
    by (rule search_rb_from.raw_induct [where P = ?P, rotated])
      (auto simp: Let_def bind_Some_iff split: if_splits)
  ultimately show ?thesis by blast
qed

lemma search_rb_node_eq: "search_rb_node cmp node b t = search_rb_from cmp node (rt_root t) t"
proof -
  have "(\<lambda>p. Some (if p \<noteq> NULL then p else if b then p else NULL)) = Some" by (auto simp: fun_eq_iff)
  then show ?thesis by (simp only: search_rb_node_def bind_runit)
qed

lemma insert_rb_node_alt:
  "insert_rb_node cmp node t = do {
     p \<leftarrow> search_rb_from cmp node (rt_root t) t;
     (if p = NULL then do {
        t \<leftarrow> nwr node (put_type RBBLACKNODE) (t\<lparr>rt_root := node\<rparr>);
        Some (t\<lparr>rt_count := rt_count t + 1\<rparr>) }
      else Some t) }"
  unfolding insert_rb_node_def search_rb_node_eq
  by (rule Option.bind_cong [OF refl]) (simp add: search_rb_from_equal)

lemma insert_rb_node_fresh:
  assumes "search_rb_node cmp n False t = Some NULL" "rt_nodes t n = Some nd" "n \<noteq> NULL"
    and "rn_lchild nd = NULL" "rn_rchild nd = NULL"
  shows "\<exists>t'. insert_rb_node cmp n t = Some t' \<and> rt_root t' = n \<and> rt_count t' = rt_count t + 1 \<and>
    rt_nodes t' = (rt_nodes t)(n \<mapsto> put_type RBBLACKNODE nd)"
  using assms by (simp add: insert_rb_node_alt search_rb_node_eq nwr_def)

text \<open>
  C39: \<open>insert_rb_node\<close> never hangs a node below another one. The descent of \<open>search_rb_node\<close> ends
  with a null pointer even when it is asked for the insert position, so a node without
  an equal in the tree always becomes the new root and a node with an equal is not inserted;
  the code after that, the rebalancing included, is never reached.
\<close>

theorem mg_rb_insert_equiv:
  "insert_rb_node cmp node t = do {
     p \<leftarrow> search_rb_node cmp node False t;
     (if p = NULL then do {
        t \<leftarrow> nwr node (put_type RBBLACKNODE) (t\<lparr>rt_root := node\<rparr>);
        Some (t\<lparr>rt_count := rt_count t + 1\<rparr>) }
      else Some t) }"
  by (simp only: search_rb_node_eq insert_rb_node_alt)

text \<open>
  Inserting an initialised node into a tree that holds no equal one forgets the tree: the
  node is the new root, the counter goes up, and afterwards a search succeeds only for nodes
  equal to the new one, whatever was inserted before.
\<close>

theorem mg_rb_insert_forgets:
  assumes "search_rb_node cmp n False t = Some NULL" "rt_nodes t n = Some nd" "n \<noteq> NULL"
    and "rn_lchild nd = NULL" "rn_rchild nd = NULL"
  shows "\<exists>t'. insert_rb_node cmp n t = Some t' \<and> rt_root t' = n \<and> rt_count t' = rt_count t + 1 \<and>
    (\<forall>x. search_rb_node cmp x False t' = Some (if cmp x n = 0 then n else NULL))"
proof -
  obtain t' where t': "insert_rb_node cmp n t = Some t'" "rt_root t' = n" "rt_count t' = rt_count t + 1"
      "rt_nodes t' = (rt_nodes t)(n \<mapsto> put_type RBBLACKNODE nd)"
    using insert_rb_node_fresh [OF assms] by blast
  have "search_rb_node cmp x False t' = Some (if cmp x n = 0 then n else NULL)" for x
    unfolding search_rb_node_eq t'(2) using assms(3-5) t'(4)
    by (subst search_rb_from.simps) (simp add: nrd_def Let_def search_rb_from.simps)
  with t' show ?thesis by blast
qed

definition demo_node :: mg_rb_node where
  "demo_node = \<lparr>rn_type = 0, rn_parent = NULL, rn_lchild = NULL, rn_rchild = NULL\<rparr>"

definition demo_cmp :: compare where
  "demo_cmp l r = int r - int l"

theorem mg_rb_insert_forgets_witness:
  "\<exists>t1 t2. insert_rb_node demo_cmp 16 \<lparr>rt_nodes = [16 \<mapsto> demo_node, 32 \<mapsto> demo_node], rt_count = 0, rt_root = NULL\<rparr>
       = Some t1 \<and> search_rb_node demo_cmp 16 False t1 = Some 16 \<and>
     insert_rb_node demo_cmp 32 t1 = Some t2 \<and> search_rb_node demo_cmp 16 False t2 = Some NULL"
proof -
  let ?t0 = "\<lparr>rt_nodes = [16 \<mapsto> demo_node, 32 \<mapsto> demo_node], rt_count = 0, rt_root = NULL\<rparr>"
  let ?t1 = "\<lparr>rt_nodes = [16 \<mapsto> put_type RBBLACKNODE demo_node, 32 \<mapsto> demo_node], rt_count = 1, rt_root = 16\<rparr>"
  have one: "insert_rb_node demo_cmp 16 ?t0 = Some ?t1"
    by (simp add: insert_rb_node_alt search_rb_from.simps nwr_def fun_upd_twist)
  have two: "search_rb_node demo_cmp 32 False ?t1 = Some NULL" "search_rb_node demo_cmp 16 False ?t1 = Some 16"
    unfolding search_rb_node_eq
    by (simp_all add: search_rb_from.simps [of _ _ 16] search_rb_from.simps [of _ _ NULL] nrd_def demo_cmp_def demo_node_def)
  have "rt_nodes ?t1 32 = Some demo_node" by simp
  from mg_rb_insert_forgets [OF two(1) this] one two(2) show ?thesis
    by (force simp: demo_node_def demo_cmp_def)
qed

section \<open>Rotations\<close>

definition nlk :: "mg_rb_tree \<Rightarrow> lks" where
  "nlk t = (\<lambda>a. map_option (\<lambda>n. \<lparr>lk_parent = rn_parent n, lk_lchild = rn_lchild n, lk_rchild = rn_rchild n\<rparr>)
     (rt_nodes t a))"

text \<open>
  The same tree as a value of the template's type, with the type byte in the place of the
  value; the rotations of both files commute with it.
\<close>

definition emb_node :: "mg_rb_node \<Rightarrow> 8 word RBNode" where
  "emb_node n = \<lparr>rb_val = rn_type n, rb_type = RBRedNode, rb_parent = rn_parent n,
     rb_lchild = rn_lchild n, rb_rchild = rn_rchild n\<rparr>"

definition emb :: "mg_rb_tree \<Rightarrow> 8 word RBTree" where
  "emb t = \<lparr>rb_heap = (\<lambda>a. map_option emb_node (rt_nodes t a)), rb_tree = rt_root t, rb_count = rt_count t\<rparr>"

lemma emb_sel [simp]:
  "rb_heap (emb t) a = map_option emb_node (rt_nodes t a)" "rb_tree (emb t) = rt_root t"
  "rb_count (emb t) = rt_count t" "(emb t)\<lparr>rb_tree := r\<rparr> = emb (t\<lparr>rt_root := r\<rparr>)"
  by (simp_all add: emb_def)

lemma emb_links: "lk (emb t) = nlk t"
  by (auto simp: lk_def nlk_def emb_node_def node_links_def option.map_comp comp_def)

lemma rd_emb [simp]:
  "rd rb_parent (emb t) p = nrd rn_parent t p" "rd rb_lchild (emb t) p = nrd rn_lchild t p"
  "rd rb_rchild (emb t) p = nrd rn_rchild t p"
  by (auto simp: rd_def nrd_def field_def load_def emb_node_def option.map_comp comp_def)

lemma modify_emb:
  assumes "\<And>n. emb_node (f n) = g (emb_node n)"
  shows "wr p g (emb t) = map_option emb (nwr p f t)"
proof (cases "p = NULL \<or> rt_nodes t p = None")
  case True
  then show ?thesis by (auto simp: wr_def nwr_def modify_def load_def)
next
  case False
  then obtain n where "rt_nodes t p = Some n" "p \<noteq> NULL" by auto
  then show ?thesis by (auto simp: wr_def nwr_def emb_def assms fun_eq_iff)
qed

lemma wr_emb [simp]:
  "wr p (set_parent a) (emb t) = map_option emb (nwr p (put_parent a) t)"
  "wr p (set_lchild a) (emb t) = map_option emb (nwr p (put_lchild a) t)"
  "wr p (set_rchild a) (emb t) = map_option emb (nwr p (put_rchild a) t)"
  by (rule modify_emb, simp add: emb_node_def)+

lemma bind_map_emb: "Option.bind (map_option f m) g = Option.bind m (\<lambda>x. g (f x))"
  by (cases m) auto

lemma map_bind_emb: "map_option f (Option.bind m g) = Option.bind m (\<lambda>x. map_option f (g x))"
  by (cases m) auto

lemma left_rotate_emb: "left_rotate a (emb t) = map_option emb (mg_left_rotate a t)"
  unfolding left_rotate_def mg_left_rotate_def
  by (auto simp: map_bind_emb bind_map_emb intro!: Option.bind_cong)

lemma right_rotate_emb: "right_rotate a (emb t) = map_option emb (mg_right_rotate a t)"
  unfolding right_rotate_def mg_right_rotate_def
  by (auto simp: map_bind_emb bind_map_emb intro!: Option.bind_cong)

lemma node_data_types: "node_data (emb t') = node_data (emb t) \<Longrightarrow>
  map_option rn_type (rt_nodes t' x) = map_option rn_type (rt_nodes t x)"
  by (drule fun_cong [of _ _ x])
    (cases "rt_nodes t' x"; cases "rt_nodes t x"; auto simp: node_data_def emb_node_def)

lemma mg_left_rotate_ok:
  assumes r: "rooted (nlk t) (rt_root t) T" and a: "a \<in> set_tree T" "rt_nodes t a = Some na"
    and c: "rn_rchild na \<noteq> NULL"
  shows "\<exists>t'. mg_left_rotate a t = Some t' \<and> rooted (nlk t') (rt_root t') (rotl_at a T) \<and>
    rt_count t' = rt_count t \<and> (\<forall>x. map_option rn_type (rt_nodes t' x) = map_option rn_type (rt_nodes t x))"
proof -
  have r': "rooted (lk (emb t)) (rb_tree (emb t)) T" using r by (simp add: emb_links)
  have na: "rb_heap (emb t) a = Some (emb_node na)" using a(2) by simp
  have c': "rb_rchild (emb_node na) = rn_rchild na" by (simp add: emb_node_def)
  obtain s where s: "left_rotate a (emb t) = Some s" "rotated_left (lk (emb t)) (lk s) a (rn_rchild na)"
      "rb_tree s = (if rb_tree (emb t) = a then rn_rchild na else rb_tree (emb t))"
      "node_data s = node_data (emb t)" "rb_count s = rb_count (emb t)"
    using left_rotate_ok [OF r' a(1) na c' c] by blast
  then obtain t' where t': "mg_left_rotate a t = Some t'" "s = emb t'"
    using left_rotate_emb [of a t] by auto
  have "rooted (lk s) (rb_tree s) (rotl_at a T)" using rooted_rotl [OF r' a(1) s(2) c] s(3) by simp
  then show ?thesis using t' s(4,5) node_data_types [of t' t] by (auto simp: emb_links)
qed

lemma mg_right_rotate_ok:
  assumes r: "rooted (nlk t) (rt_root t) T" and a: "a \<in> set_tree T" "rt_nodes t a = Some na"
    and c: "rn_lchild na \<noteq> NULL"
  shows "\<exists>t'. mg_right_rotate a t = Some t' \<and> rooted (nlk t') (rt_root t') (rotr_at a T) \<and>
    rt_count t' = rt_count t \<and> (\<forall>x. map_option rn_type (rt_nodes t' x) = map_option rn_type (rt_nodes t x))"
proof -
  have r': "rooted (lk (emb t)) (rb_tree (emb t)) T" using r by (simp add: emb_links)
  have na: "rb_heap (emb t) a = Some (emb_node na)" using a(2) by simp
  have c': "rb_lchild (emb_node na) = rn_lchild na" by (simp add: emb_node_def)
  obtain s where s: "right_rotate a (emb t) = Some s" "rotated_right (lk (emb t)) (lk s) a (rn_lchild na)"
      "rb_tree s = (if rb_tree (emb t) = a then rn_lchild na else rb_tree (emb t))"
      "node_data s = node_data (emb t)" "rb_count s = rb_count (emb t)"
    using right_rotate_ok [OF r' a(1) na c' c] by blast
  then obtain t' where t': "mg_right_rotate a t = Some t'" "s = emb t'"
    using right_rotate_emb [of a t] by auto
  have "rooted (lk s) (rb_tree s) (rotr_at a T)" using rooted_rotr [OF r' a(1) s(2) c] s(3) by simp
  then show ?thesis using t' s(4,5) node_data_types [of t' t] by (auto simp: emb_links)
qed

text \<open>
  C32: The rotations are correct: on a well-linked tree, \<open>left_rotate\<close> and \<open>right_rotate\<close> at a node
  with the child they lift return, leave a well-linked tree (parent pointers and the root
  pointer included) with the same in-order sequence of nodes, and do not touch the colours
  or the counter.
\<close>

theorem mg_rb_rotations:
  assumes "rooted (nlk t) (rt_root t) T" "a \<in> set_tree T" "rt_nodes t a = Some na"
  shows "(rn_rchild na \<noteq> NULL \<longrightarrow> (\<exists>t' T'. mg_left_rotate a t = Some t' \<and> rooted (nlk t') (rt_root t') T' \<and>
      inorder T' = inorder T \<and> rt_count t' = rt_count t \<and>
      (\<forall>x. map_option rn_type (rt_nodes t' x) = map_option rn_type (rt_nodes t x)))) \<and>
    (rn_lchild na \<noteq> NULL \<longrightarrow> (\<exists>t' T'. mg_right_rotate a t = Some t' \<and> rooted (nlk t') (rt_root t') T' \<and>
      inorder T' = inorder T \<and> rt_count t' = rt_count t \<and>
      (\<forall>x. map_option rn_type (rt_nodes t' x) = map_option rn_type (rt_nodes t x))))"
  using mg_left_rotate_ok [OF assms] mg_right_rotate_ok [OF assms] inorder_rotl inorder_rotr by metis

definition demo_pair :: mg_rb_tree where
  "demo_pair = \<lparr>rt_nodes = [
     16 \<mapsto> \<lparr>rn_type = 1, rn_parent = NULL, rn_lchild = NULL, rn_rchild = 32\<rparr>,
     32 \<mapsto> \<lparr>rn_type = 0, rn_parent = 16, rn_lchild = NULL, rn_rchild = NULL\<rparr>], rt_count = 2, rt_root = 16\<rparr>"

theorem mg_rb_rotations_witness:
  "\<exists>t' T'. mg_left_rotate 16 demo_pair = Some t' \<and> rooted (nlk t') (rt_root t') T' \<and> inorder T' = [16, 32]"
proof -
  have "rooted (nlk demo_pair) (rt_root demo_pair) (Node Leaf 16 (Node Leaf 32 Leaf))"
    by (simp add: rooted_def nlk_def demo_pair_def)
  moreover have "rt_nodes demo_pair 16 =
      Some \<lparr>rn_type = 1, rn_parent = NULL, rn_lchild = NULL, rn_rchild = 32\<rparr>" by (simp add: demo_pair_def)
  ultimately show ?thesis
    using mg_rb_rotations [of demo_pair "Node Leaf 16 (Node Leaf 32 Leaf)" 16] by auto
qed

section \<open>Deletion\<close>

text \<open>
  \<open>keeps g c m\<close>: if \<open>m\<close> returns, the counter that \<open>g\<close> reads from its result is \<open>c\<close>. The rules
  follow the structure of the code.
\<close>

definition keeps :: "('r \<Rightarrow> 64 word) \<Rightarrow> 64 word \<Rightarrow> 'r option \<Rightarrow> bool" where
  "keeps g c m \<longleftrightarrow> (\<forall>r. m = Some r \<longrightarrow> g r = c)"

lemma keeps_Some: "g r = c \<Longrightarrow> keeps g c (Some r)"
  by (simp add: keeps_def)

lemma keeps_nwr: "rt_count t = c \<Longrightarrow> keeps rt_count c (nwr p f t)"
  by (auto simp: nwr_def keeps_def)

lemma keeps_if: "keeps g c a \<Longrightarrow> keeps g c b \<Longrightarrow> keeps g c (if P then a else b)"
  by simp

lemma keeps_state:
  "keeps rt_count c m \<Longrightarrow> (\<And>t. rt_count t = c \<Longrightarrow> keeps g c (f t)) \<Longrightarrow> keeps g c (Option.bind m f)"
  by (auto simp: keeps_def bind_Some_iff)

lemma keeps_pair:
  "keeps (\<lambda>r. rt_count (snd r)) c m \<Longrightarrow> (\<And>n t. rt_count t = c \<Longrightarrow> keeps g c (f n t)) \<Longrightarrow>
   keeps g c (Option.bind m (\<lambda>(n, t). f n t))"
  by (auto simp: keeps_def bind_Some_iff)

lemma keeps_addr: "(\<And>x. keeps g c (f x)) \<Longrightarrow> keeps g c (Option.bind (m :: addr option) f)"
  and keeps_bool: "(\<And>x. keeps g c (f' x)) \<Longrightarrow> keeps g c (Option.bind (m' :: bool option) f')"
  and keeps_byte: "(\<And>x. keeps g c (f'' x)) \<Longrightarrow> keeps g c (Option.bind (m'' :: 8 word option) f'')"
  by (auto simp: keeps_def bind_Some_iff)

lemmas keeps_rules = keeps_state keeps_pair keeps_addr keeps_bool keeps_byte keeps_if keeps_nwr keeps_Some

lemma keeps_left_rotate: "rt_count t = c \<Longrightarrow> keeps rt_count c (mg_left_rotate a t)"
  unfolding mg_left_rotate_def by (intro keeps_rules) simp_all

lemma keeps_right_rotate: "rt_count t = c \<Longrightarrow> keeps rt_count c (mg_right_rotate a t)"
  unfolding mg_right_rotate_def by (intro keeps_rules) simp_all

lemma keeps_delete_leaf: "rt_count t = c \<Longrightarrow> keeps rt_count c (mg_delete_leaf_node a t)"
  unfolding mg_delete_leaf_node_def by (intro keeps_rules) simp_all

lemma keeps_change: "rt_count t = c \<Longrightarrow> keeps rt_count c (change_rb_node a b ty t)"
  unfolding change_rb_node_def by (intro keeps_rules) simp_all

lemmas keeps_ops = keeps_left_rotate keeps_right_rotate keeps_delete_leaf keeps_change

lemma keepsD: "m = Some r \<Longrightarrow> keeps g c m \<Longrightarrow> g r = c"
  by (simp add: keeps_def)

lemma keeps_delete_fixup: "rt_count t = c \<Longrightarrow> keeps (\<lambda>r. rt_count (snd r)) c (delete_fixup node p t)"
proof -
  let ?P = "\<lambda>node p t r. rt_count (snd r) = rt_count t"
  have "delete_fixup node p t = Some r \<Longrightarrow> ?P node p t r" for r
    apply (rule delete_fixup.raw_induct [where P = ?P, rotated], assumption)
    apply (erule keepsD [where g = "\<lambda>r. rt_count (snd r)"])
    apply (intro keeps_rules keeps_ops)
    apply (simp_all add: keeps_def)
    done
  then show "rt_count t = c \<Longrightarrow> keeps (\<lambda>r. rt_count (snd r)) c (delete_fixup node p t)"
    by (auto simp: keeps_def)
qed

text \<open>
  \<open>delete_rb_node\<close> never touches the counter: whatever it deletes, \<open>_count\<close> afterwards is what it
  was before, so after an insertion and the deletion of the same node the counter is off by
  one.
\<close>

theorem mg_rb_delete_count:
  "delete_rb_node cmp x t = Some t' \<Longrightarrow> rt_count t' = rt_count t"
proof -
  have "keeps rt_count (rt_count t) (delete_rb_node cmp x t)"
    unfolding delete_rb_node_def by (intro keeps_rules keeps_ops keeps_delete_fixup) simp_all
  then show "delete_rb_node cmp x t = Some t' \<Longrightarrow> rt_count t' = rt_count t" by (simp add: keeps_def)
qed

theorem mg_rb_delete_count_witness:
  "\<exists>t'. delete_rb_node demo_cmp 32 demo_pair = Some t' \<and> search_rb_node demo_cmp 32 False t' = Some NULL \<and>
     rt_count t' = 2"
proof -
  have s: "search_rb_node demo_cmp 32 False demo_pair = Some 32"
    unfolding search_rb_node_eq
    by (simp add: search_rb_from.simps [of _ _ 16] search_rb_from.simps [of _ _ 32] nrd_def demo_cmp_def
        demo_pair_def)
  have "\<exists>t'. delete_rb_node demo_cmp 32 demo_pair = Some t' \<and> rt_root t' = 16 \<and>
      rt_nodes t' 16 = Some \<lparr>rn_type = 1, rn_parent = NULL, rn_lchild = NULL, rn_rchild = NULL\<rparr>"
    unfolding delete_rb_node_def s
    by (simp add: demo_pair_def nrd_def nwr_def rb_node_is_red_def RBREDNODE_def mg_delete_leaf_node_def)
  then obtain t' where t': "delete_rb_node demo_cmp 32 demo_pair = Some t'" "rt_root t' = 16"
      "rt_nodes t' 16 = Some \<lparr>rn_type = 1, rn_parent = NULL, rn_lchild = NULL, rn_rchild = NULL\<rparr>" by blast
  have "search_rb_node demo_cmp 32 False t' = Some NULL"
    unfolding search_rb_node_eq t'(2) using t'(3)
    by (simp add: search_rb_from.simps [of _ _ 16] search_rb_from.simps [of _ _ NULL] nrd_def demo_cmp_def)
  with t'(1) mg_rb_delete_count [OF t'(1)] show ?thesis by (auto simp: demo_pair_def)
qed

text \<open>
  Deleting a black leaf whose black sibling has a red child on the inner side and none on the
  outer side is undefined, on both sides: the loop asks for the colour of the missing child
  through a null pointer before it rotates.
\<close>

theorem mg_rb_delete_inner_nephew:
  assumes "search_rb_node cmp x False t = Some d" "d \<noteq> NULL" "d \<noteq> rt_root t"
    and "rt_nodes t d = Some nd" "rn_type nd = RBBLACKNODE" "rn_lchild nd = NULL" "rn_rchild nd = NULL"
    and "p = rn_parent nd" "p \<noteq> NULL" "rt_nodes t p = Some np"
    and "b \<noteq> NULL" "rt_nodes t b = Some nb" "rn_type nb = RBBLACKNODE"
    and "r \<noteq> NULL" "rt_nodes t r = Some nr" "rn_type nr = RBREDNODE"
    and "rn_lchild np = d \<and> rn_rchild np = b \<and> rn_lchild nb = r \<and> rn_rchild nb = NULL \<or>
      rn_lchild np = b \<and> b \<noteq> d \<and> rn_rchild np = d \<and> rn_lchild nb = NULL \<and> rn_rchild nb = r"
  shows "delete_rb_node cmp x t = None"
proof -
  have "delete_fixup d p t = None"
    using assms(2-17)
    by (subst delete_fixup.simps)
      (auto simp: nrd_def rb_node_is_black_def rb_node_is_red_def RBREDNODE_def RBBLACKNODE_def)
  then show ?thesis
    using assms(1-10)
    by (simp add: delete_rb_node_def nrd_def rb_node_is_red_def RBREDNODE_def RBBLACKNODE_def)
qed

definition demo_nephew :: mg_rb_tree where
  "demo_nephew = \<lparr>rt_nodes = [
     16 \<mapsto> \<lparr>rn_type = 1, rn_parent = 32, rn_lchild = NULL, rn_rchild = NULL\<rparr>,
     32 \<mapsto> \<lparr>rn_type = 1, rn_parent = NULL, rn_lchild = 16, rn_rchild = 64\<rparr>,
     64 \<mapsto> \<lparr>rn_type = 1, rn_parent = 32, rn_lchild = 48, rn_rchild = NULL\<rparr>,
     48 \<mapsto> \<lparr>rn_type = 0, rn_parent = 64, rn_lchild = NULL, rn_rchild = NULL\<rparr>], rt_count = 4, rt_root = 32\<rparr>"

theorem mg_rb_delete_inner_nephew_witness:
  "rooted (nlk demo_nephew) 32 (Node (Node Leaf 16 Leaf) 32 (Node (Node Leaf 48 Leaf) 64 Leaf)) \<and>
   delete_rb_node demo_cmp 16 demo_nephew = None"
proof -
  have s: "search_rb_node demo_cmp 16 False demo_nephew = Some 16"
    unfolding search_rb_node_eq
    by (simp add: search_rb_from.simps [of _ _ 32] search_rb_from.simps [of _ _ 16] nrd_def demo_cmp_def
        demo_nephew_def)
  have "delete_rb_node demo_cmp 16 demo_nephew = None"
    by (rule mg_rb_delete_inner_nephew [OF s, of _ 32 _ 64 _ 48])
      (simp add: demo_nephew_def RBREDNODE_def RBBLACKNODE_def)+
  then show ?thesis by (simp add: rooted_def nlk_def demo_nephew_def)
qed

end
