(* ===== verification/Mg_Log.thy ===== *)
theory Mg_Log
  imports Mg_Prelude
begin

text \<open>
  The logger of \<^verbatim>\<open>core/mg_log.c\<close> and the clock and descriptor helpers of \<^verbatim>\<open>core/mg_time.h\<close> and
  \<^verbatim>\<open>core/mg_core.h\<close>. The static variables of the file are a record; a \<open>FILE*\<close> is a number, 0 the null
  pointer, and what is printed is the list of the files and formats passed to \<open>fprintf\<close>. The results of
  system calls are arguments. \<^term>\<open>None\<close> is undefined behaviour.
\<close>

section \<open>The logger's state\<close>

definition LOG_DUMP :: int where
  "LOG_DUMP = 0"

definition LOG_FATAL :: int where
  "LOG_FATAL = 1"

definition LOG_ERROR :: int where
  "LOG_ERROR = 2"

definition LOG_WARN :: int where
  "LOG_WARN = 3"

definition LOG_INFO :: int where
  "LOG_INFO = 4"

definition LOG_DEBUG :: int where
  "LOG_DEBUG = 5"

lemmas log_levels = LOG_DUMP_def LOG_FATAL_def LOG_ERROR_def LOG_WARN_def LOG_INFO_def LOG_DEBUG_def

definition MAX_LOG_FILENAME :: nat where
  "MAX_LOG_FILENAME = 4096"

record mg_log =
  glogfp :: nat
  glog_filename :: string
  glog_level :: int
  log_out :: "(nat \<times> string) list"
  log_closed :: "nat list"

definition stdout :: nat where
  "stdout = 1"

text \<open>The initial values; \<open>debug\<close> is whether \<open>MG_DEBUG\<close> is defined.\<close>

definition log_start :: "bool \<Rightarrow> mg_log" where
  "log_start debug = \<lparr>glogfp = stdout, glog_filename = [], glog_level = (if debug then LOG_DEBUG else LOG_WARN),
     log_out = [], log_closed = []\<rparr>"

text \<open>
  The result of \<open>strlen\<close>, a \<open>size_t\<close>, is converted to an \<open>mg_int_t\<close> of 32 bits, modulo \<open>2 ^ 32\<close>. The array
  \<open>glog_filename\<close> holds \<open>MAX_LOG_FILENAME\<close> characters, the terminating zero included.
\<close>

definition int_strlen :: "string \<Rightarrow> int" where
  "int_strlen s = sint (word_of_nat (length s) :: 32 word)"

definition log_init :: "nat \<Rightarrow> string \<Rightarrow> int \<Rightarrow> mg_log \<Rightarrow> (int \<times> mg_log) option" where
  "log_init fopen filename level l =
     (if int MAX_LOG_FILENAME < int_strlen filename then Some (1, l)
      else if level < LOG_DUMP \<or> LOG_DEBUG < level then Some (2, l)
      else if fopen = 0 then Some (3, l)
      else if MAX_LOG_FILENAME < length filename + 1 then None
      else Some (0, l\<lparr>glog_filename := filename, glogfp := fopen, glog_level := level\<rparr>))"

text \<open>\<open>fclose\<close> of a file that has been closed is undefined.\<close>

definition log_uninit :: "mg_log \<Rightarrow> mg_log option" where
  "log_uninit l = (if glogfp l \<noteq> 0
     then if glogfp l \<in> set (log_closed l) then None else Some (l\<lparr>log_closed := glogfp l # log_closed l\<rparr>)
     else Some l)"

section \<open>Printing\<close>

text \<open>
  \<open>log_doit\<close> hands the \<open>va_list\<close> itself to \<open>fprintf\<close>, so a format with a conversion specification
  would read a \<open>va_list\<close> as its first argument: undefined. A closed stream must not be printed to.
\<close>

fun conversion :: "string \<Rightarrow> bool" where
  "conversion [] = False"
| "conversion [c] = (c = CHR ''%'')"
| "conversion (c # d # fmt) = (if c = CHR ''%'' then d \<noteq> CHR ''%'' \<or> conversion fmt else conversion (d # fmt))"

definition log_doit :: "nat \<Rightarrow> string \<Rightarrow> mg_log \<Rightarrow> mg_log option" where
  "log_doit fp fmt l = (if fp \<in> set (log_closed l) \<or> conversion fmt then None
     else Some (l\<lparr>log_out := log_out l @ [(fp, fmt)]\<rparr>))"

text \<open>How a call ends: it returns, or the process exits or aborts.\<close>

datatype log_end = Returned | Exited | Dumped




definition log_error :: "string \<Rightarrow> mg_log \<Rightarrow> (log_end \<times> mg_log) option" where
  "log_error fmt l = (if glog_level l < LOG_ERROR then Some (Returned, l)
     else map_option (Pair Returned) (log_doit (glogfp l) fmt l))"



section \<open>Clock and descriptors\<close>

record timeval =
  tv_sec :: int
  tv_usec :: int

definition mg_utime :: "timeval \<Rightarrow> 64 word" where
  "mg_utime tv = word_of_int (tv_sec tv * 1000000 + tv_usec tv)"

definition mg_mtime :: "timeval \<Rightarrow> 64 word" where
  "mg_mtime tv = word_of_int (tv_sec tv * 1000 + tv_usec tv)"

definition O_NONBLOCK :: "32 word" where
  "O_NONBLOCK = 2048"

text \<open>The results of the two \<open>fcntl\<close> calls are arguments; the second component is the flags set, if the second call is made.\<close>

definition set_nonblock :: "int \<Rightarrow> int \<Rightarrow> int \<times> 32 word option" where
  "set_nonblock getfl setfl = (if getfl < 0 then (- 1, None)
     else let flags = or (word_of_int getfl) O_NONBLOCK in if setfl < 0 then (- 1, Some flags) else (0, Some flags))"

definition set_block :: "int \<Rightarrow> int \<Rightarrow> int \<times> 32 word option" where
  "set_block getfl setfl = (if getfl < 0 then (- 1, None)
     else let flags = and (word_of_int getfl) (not O_NONBLOCK) in if setfl < 0 then (- 1, Some flags) else (0, Some flags))"

section \<open>Properties\<close>


lemma int_strlen_small: "length s < 2 ^ 31 \<Longrightarrow> int_strlen s = int (length s)"
  by (simp add: int_strlen_def signed_of_nat signed_take_bit_int_eq_self)



text \<open>
  A file name of exactly \<open>MAX_LOG_FILENAME\<close> characters passes the length check of \<open>log_init\<close> and
  its terminating zero is written behind the array; and after \<open>log_uninit\<close> the next message that the
  level lets through goes to the closed file.
\<close>
theorem log_limits:
  assumes "length filename = MAX_LOG_FILENAME" "fp \<noteq> 0" "LOG_DUMP \<le> level" "level \<le> LOG_DEBUG"
  shows "log_init fp filename level l = None \<and>
    (log_uninit (log_start debug) = Some u \<longrightarrow> log_error fmt u = None \<and> log_uninit u = None)"
  using assms int_strlen_small [of filename]
  by (auto simp: log_init_def MAX_LOG_FILENAME_def log_uninit_def log_start_def log_error_def log_doit_def log_levels stdout_def)

theorem log_limits_witness:
  "log_init 3 (replicate 4096 CHR ''x'') LOG_INFO (log_start True) = None \<and>
   log_uninit (log_start True) \<noteq> None \<and> log_uninit (the (log_uninit (log_start True))) = None"
  using log_limits [of "replicate 4096 CHR ''x''" 3 LOG_INFO "log_start True" True]
  by (auto simp: MAX_LOG_FILENAME_def log_levels log_uninit_def log_start_def stdout_def)

lemma uint_small: "0 \<le> x \<Longrightarrow> x < 18446744073709551616 \<Longrightarrow> uint (word_of_int x :: 64 word) = x"
  by (simp add: uint_word_of_int)

text \<open>
  \<open>mg_mtime\<close> adds microseconds to milliseconds: it agrees with the clock in milliseconds, \<open>mg_utime\<close>
  divided by 1000, only on the full second, and runs ahead of it by up to 999 seconds otherwise.
\<close>
theorem mtime_mixes_units:
  assumes "0 \<le> tv_sec tv" "tv_sec tv < 2 ^ 40" "0 \<le> tv_usec tv" "tv_usec tv < 1000000"
  shows "uint (mg_utime tv) = tv_sec tv * 1000000 + tv_usec tv \<and>
    uint (mg_mtime tv) = uint (mg_utime tv) div 1000 + (tv_usec tv - tv_usec tv div 1000) \<and>
    (uint (mg_mtime tv) = uint (mg_utime tv) div 1000 \<longleftrightarrow> tv_usec tv = 0)"
proof -
  have sec: "tv_sec tv < 1099511627776" using assms(2) by simp
  have u: "uint (mg_utime tv) = tv_sec tv * 1000000 + tv_usec tv"
    unfolding mg_utime_def by (rule uint_small) (use assms sec in linarith)+
  have m: "uint (mg_mtime tv) = tv_sec tv * 1000 + tv_usec tv"
    unfolding mg_mtime_def by (rule uint_small) (use assms sec in linarith)+
  have d: "(tv_sec tv * 1000000 + tv_usec tv) div 1000 = tv_sec tv * 1000 + tv_usec tv div 1000" by simp
  have "tv_usec tv div 1000 = tv_usec tv \<longleftrightarrow> tv_usec tv = 0"
    using int_div_less_self [of "tv_usec tv" 1000] assms(3) by (cases "tv_usec tv = 0") auto
  then show ?thesis unfolding u m d by auto
qed

theorem mtime_mixes_units_witness:
  "uint (mg_mtime \<lparr>tv_sec = 10, tv_usec = 500000\<rparr>) = 10500 + 499500"
  using mtime_mixes_units [of "\<lparr>tv_sec = 10, tv_usec = 500000\<rparr>"] by simp

end
