(* ===== verification/C_Arrays.thy ===== *)
theory C_Arrays
  imports Mg_Prelude
begin

text \<open>
  Arrays and signed integers of C as the algorithm theories use them: an array is a list that is read
  and written by integer index, \<^term>\<open>None\<close> outside its bounds; an \<open>int\<close> is a mathematical integer whose
  operations are \<^term>\<open>None\<close> when the result leaves the 32 bit range, where the language leaves them
  undefined.
\<close>

section \<open>Arrays\<close>

definition aget :: "'a list \<Rightarrow> int \<Rightarrow> 'a option" where
  "aget xs i = (if 0 \<le> i \<and> i < int (length xs) then Some (xs ! nat i) else None)"

definition aset :: "'a list \<Rightarrow> int \<Rightarrow> 'a \<Rightarrow> 'a list option" where
  "aset xs i v = (if 0 \<le> i \<and> i < int (length xs) then Some (xs[nat i := v]) else None)"

definition aswap :: "'a list \<Rightarrow> int \<Rightarrow> int \<Rightarrow> 'a list option" where
  "aswap xs i j = do {
     tmp \<leftarrow> aget xs i;
     y \<leftarrow> aget xs j;
     xs \<leftarrow> aset xs i y;
     aset xs j tmp }"

lemma aget_Some: "aget xs i = Some x \<longleftrightarrow> 0 \<le> i \<and> i < int (length xs) \<and> x = xs ! nat i"
  by (auto simp: aget_def)

lemma aget_in [simp]: "i < length xs \<Longrightarrow> aget xs (int i) = Some (xs ! i)"
  by (simp add: aget_def)

lemma aset_in [simp]: "i < length xs \<Longrightarrow> aset xs (int i) v = Some (xs[i := v])"
  by (simp add: aset_def)

lemma aswap_in [simp]:
  "i < length xs \<Longrightarrow> j < length xs \<Longrightarrow> aswap xs (int i) (int j) = Some (xs[i := xs ! j, j := xs ! i])"
  by (simp add: aswap_def)

section \<open>Signed integers\<close>

definition INT_MIN :: int where
  "INT_MIN = - (2 ^ 31)"

definition INT_MAX :: int where
  "INT_MAX = 2 ^ 31 - 1"

definition int_ok :: "int \<Rightarrow> int option" where
  "int_ok x = (if INT_MIN \<le> x \<and> x \<le> INT_MAX then Some x else None)"

definition iadd :: "int \<Rightarrow> int \<Rightarrow> int option" where
  "iadd a b = int_ok (a + b)"

definition isub :: "int \<Rightarrow> int \<Rightarrow> int option" where
  "isub a b = int_ok (a - b)"

text \<open>The remainder has the sign of the dividend.\<close>

definition irem :: "int \<Rightarrow> int \<Rightarrow> int option" where
  "irem a b = (if b = 0 then None else Some (sgn a * (\<bar>a\<bar> mod \<bar>b\<bar>)))"

lemma irem_pos [simp]: "0 \<le> a \<Longrightarrow> 0 < b \<Longrightarrow> irem a b = Some (a mod b)"
  by (cases "a = 0") (simp_all add: irem_def)

lemma int_ok_small: "\<bar>x\<bar> < 2 ^ 31 \<Longrightarrow> int_ok x = Some x"
  by (auto simp: int_ok_def INT_MIN_def INT_MAX_def)

lemma iadd_small: "\<bar>a + b\<bar> < 2 ^ 31 \<Longrightarrow> iadd a b = Some (a + b)"
  by (simp add: iadd_def int_ok_small)

lemma isub_small: "\<bar>a - b\<bar> < 2 ^ 31 \<Longrightarrow> isub a b = Some (a - b)"
  by (simp add: isub_def int_ok_small)

lemma int_ok_Some: "int_ok x = Some y \<longleftrightarrow> y = x \<and> INT_MIN \<le> x \<and> x \<le> INT_MAX"
  by (auto simp: int_ok_def)

end
