(* ===== verification/Util_Algorithm.thy ===== *)
theory Util_Algorithm
  imports C_Arrays
begin

text \<open>
  \<^verbatim>\<open>utils/algorithm.h\<close>: the sorting routines of \<open>Sequence<T>\<close> and the eight queens search of \<open>Queens\<close>.
  An array is a list that is read and written by integer index, \<^term>\<open>None\<close> outside its bounds; the
  comparison callback is a parameter. The queue \<open>Solution<T>\<close> is in the theory of the
  connection pool, with which it shares its waiting discipline.
\<close>

section \<open>Comparison\<close>

type_synonym 'a comparison = "'a \<Rightarrow> 'a \<Rightarrow> int"

text \<open>The callback compares by a key: negative for smaller, positive for greater.\<close>

definition compares :: "'a comparison \<Rightarrow> ('a \<Rightarrow> 'k :: linorder) \<Rightarrow> bool" where
  "compares cmp k \<longleftrightarrow> (\<forall>x y. (cmp x y < 0 \<longleftrightarrow> k x < k y) \<and> (cmp x y > 0 \<longleftrightarrow> k x > k y))"

section \<open>bubble\<close>

function bubble_inner :: "'a comparison \<Rightarrow> int \<Rightarrow> int \<Rightarrow> 'a list \<Rightarrow> 'a list option" where
  "bubble_inner cmp i j array = (if j < i then do {
       x \<leftarrow> aget array i;
       y \<leftarrow> aget array j;
       array \<leftarrow> (if cmp x y > 0 then aswap array i j else Some array);
       bubble_inner cmp i (j + 1) array }
     else Some array)"
  by pat_completeness auto
termination by (relation "measure (\<lambda>(cmp, i, j, array). nat (i - j))") auto

text \<open>
  The outer loop runs while \<open>i < length\<close> with \<open>i\<close> counting down: it can only end by decrementing
  the smallest \<open>int\<close>, which is undefined.
\<close>

function bubble_outer :: "'a comparison \<Rightarrow> int \<Rightarrow> int \<Rightarrow> 'a list \<Rightarrow> 'a list option" where
  "bubble_outer cmp len i array = (if i < len then do {
       array \<leftarrow> bubble_inner cmp i 0 array;
       (if i \<le> INT_MIN then None else bubble_outer cmp len (i - 1) array) }
     else Some array)"
  by pat_completeness auto
termination by (relation "measure (\<lambda>(cmp, len, i, array). nat (i - INT_MIN))") auto

definition bubble :: "'a comparison \<Rightarrow> int \<Rightarrow> 'a list \<Rightarrow> 'a list option" where
  "bubble cmp len array = (if len < 2 then Some array else bubble_outer cmp len (len - 1) array)"

section \<open>fast\_sort\<close>

partial_function (option) scan_high :: "'a comparison \<Rightarrow> 'a \<Rightarrow> int \<Rightarrow> int \<Rightarrow> 'a list \<Rightarrow> (int \<times> 'a list) option" where
  "scan_high cmp key i j array = do {
     x \<leftarrow> aget array j;
     (if cmp x key < 0 then do {
        array \<leftarrow> aset array i x;
        scan_high cmp key i (j - 1) array }
      else Some (j, array)) }"

partial_function (option) scan_low :: "'a comparison \<Rightarrow> 'a \<Rightarrow> int \<Rightarrow> int \<Rightarrow> 'a list \<Rightarrow> (int \<times> 'a list) option" where
  "scan_low cmp key i j array = do {
     x \<leftarrow> aget array i;
     (if cmp x key > 0 then do {
        array \<leftarrow> aset array j x;
        scan_low cmp key (i + 1) j array }
      else Some (i, array)) }"

partial_function (option) partition_loop ::
  "'a comparison \<Rightarrow> 'a \<Rightarrow> int \<Rightarrow> int \<Rightarrow> 'a list \<Rightarrow> (int \<times> int \<times> 'a list) option" where
  "partition_loop cmp key i j array = (if i < j then do {
       (j, array) \<leftarrow> scan_high cmp key i j array;
       (i, array) \<leftarrow> scan_low cmp key i j array;
       partition_loop cmp key i j array }
     else Some (i, j, array))"

partial_function (option) fast_sort :: "'a comparison \<Rightarrow> int \<Rightarrow> int \<Rightarrow> 'a list \<Rightarrow> 'a list option" where
  "fast_sort cmp low high array = (if low \<ge> high then Some array else do {
     key \<leftarrow> aget array low;
     (i, j, array) \<leftarrow> partition_loop cmp key low high array;
     array \<leftarrow> aset array i key;
     array \<leftarrow> fast_sort cmp low (j - 1) array;
     fast_sort cmp (j + 1) high array })"

section \<open>heap\_sort\<close>

text \<open>
  The first son \<open>dad * 2 + 1\<close> in \<open>int\<close> arithmetic, and the loop of \<open>adjust_heap\<close>, where \<open>son\<close> always is the
  first son of \<open>dad\<close> when it is tested.
\<close>

definition first_son :: "int \<Rightarrow> int option" where
  "first_son dad = do {
     d \<leftarrow> int_ok (dad * 2);
     iadd d 1 }"

partial_function (option) sift :: "'a comparison \<Rightarrow> int \<Rightarrow> int \<Rightarrow> 'a list \<Rightarrow> 'a list option" where
  "sift cmp dad end array = do {
     son \<leftarrow> first_son dad;
     (if son \<le> end then do {
       next \<leftarrow> iadd son 1;
       son \<leftarrow> (if next \<le> end then do {
                  x \<leftarrow> aget array son;
                  y \<leftarrow> aget array next;
                  Some (if cmp x y < 0 then next else son) }
                else Some son);
       d \<leftarrow> aget array dad;
       s \<leftarrow> aget array son;
       (if cmp d s > 0 then Some array else do {
          array \<leftarrow> aswap array dad son;
          sift cmp son end array }) }
     else Some array) }"

definition adjust_heap :: "'a comparison \<Rightarrow> int \<Rightarrow> int \<Rightarrow> 'a list \<Rightarrow> 'a list option" where
  "adjust_heap cmp start end array = sift cmp start end array"


text \<open>The two loops of \<open>heap_sort\<close>: building the heap from below, taking the maximum off.\<close>

function build_heap :: "'a comparison \<Rightarrow> int \<Rightarrow> int \<Rightarrow> 'a list \<Rightarrow> 'a list option" where
  "build_heap cmp len i array = (if i \<ge> 0 then do {
       array \<leftarrow> adjust_heap cmp i len array;
       build_heap cmp len (i - 1) array }
     else Some array)"
  by pat_completeness auto
termination by (relation "measure (\<lambda>(cmp, len, i, array). nat (i + 1))") auto

function extract_heap :: "'a comparison \<Rightarrow> int \<Rightarrow> 'a list \<Rightarrow> 'a list option" where
  "extract_heap cmp i array = (if i > 0 then do {
       array \<leftarrow> aswap array 0 i;
       array \<leftarrow> adjust_heap cmp 0 (i - 1) array;
       extract_heap cmp (i - 1) array }
     else Some array)"
  by pat_completeness auto
termination by (relation "measure (\<lambda>(cmp, i, array). nat i)") auto

definition heap_sort :: "'a comparison \<Rightarrow> int \<Rightarrow> 'a list \<Rightarrow> 'a list option" where
  "heap_sort cmp len array = do {
     array \<leftarrow> build_heap cmp len (len div 2 - 1) array;
     extract_heap cmp (len - 1) array }"

section \<open>Queens\<close>

text \<open>\<open>vec\<close> has nine entries; \<open>qout\<close> is what \<open>print_queen\<close> has written, a list of \<open>vec[1..8]\<close>.\<close>

record queens =
  qvec :: "int list"
  qtotal :: int
  qout :: "int list list"

definition Queens_new :: queens where
  "Queens_new = \<lparr>qvec = replicate 9 0, qtotal = 0, qout = []\<rparr>"

definition print_queen :: "queens \<Rightarrow> queens" where
  "print_queen q = q\<lparr>qout := qout q @ [map (\<lambda>i. qvec q ! i) [1..<9]]\<rparr>"

definition check :: "nat \<Rightarrow> int \<Rightarrow> int list \<Rightarrow> bool" where
  "check row col vec \<longleftrightarrow>
     list_all (\<lambda>i. col \<noteq> vec ! i \<and> \<bar>int row - int i\<bar> \<noteq> \<bar>vec ! row - vec ! i\<bar>) [0..<row]"

text \<open>
  \<open>find_queue\<close> for \<open>row \<le> 8\<close>, the rows it is called with; the inner function is the \<open>for\<close> loop over
  the columns. The increment and decrement of \<open>row\<close> around the recursive call cancel.
\<close>

function find_queue :: "nat \<Rightarrow> queens \<Rightarrow> queens" and try_cols :: "nat \<Rightarrow> int \<Rightarrow> queens \<Rightarrow> queens" where
  "find_queue row q = (if row \<ge> 8 then print_queen (q\<lparr>qtotal := qtotal q + 1\<rparr>) else try_cols row 1 q)"
| "try_cols row i q = (if i < 9 \<and> row < 8 then
     (let q = q\<lparr>qvec := (qvec q)[row := i]\<rparr>;
          q = (if check row i (qvec q) then find_queue (row + 1) q else q)
      in try_cols row (i + 1) q)
     else q)"
  by pat_completeness auto
termination
  by (relation "measure (\<lambda>x. case x of Inl (row, q) \<Rightarrow> (8 - row) * 20 + 10
      | Inr (row, i, q) \<Rightarrow> (8 - row) * 20 + nat (9 - i))") auto


section \<open>bubble: the rounds sort, the loop does not end\<close>

lemma comparesD:
  "compares cmp k \<Longrightarrow> cmp x y < 0 \<longleftrightarrow> k x < k y" "compares cmp k \<Longrightarrow> cmp x y > 0 \<longleftrightarrow> k y < k x"
  by (auto simp: compares_def)

declare bubble_inner.simps [simp del] bubble_outer.simps [simp del]

lemma take_mset_eq:
  assumes "mset a = mset b" "drop n a = drop n b"
  shows "set (take n a) = set (take n b)"
proof -
  have "mset (take n a) + mset (drop n a) = mset (take n b) + mset (drop n b)"
    using assms(1) by (metis append_take_drop_id mset_append)
  with assms(2) have "mset (take n a) = mset (take n b)" by simp
  then show ?thesis by (metis set_mset_mset)
qed

lemma bubble_inner_ok:
  assumes "compares cmp k" "i < length a" "j \<le> i" "\<forall>m < j. k (a ! i) \<le> k (a ! m)"
  shows "\<exists>a'. bubble_inner cmp (int i) (int j) a = Some a' \<and> mset a' = mset a \<and>
    drop (Suc i) a' = drop (Suc i) a \<and> (\<forall>m < i. k (a' ! i) \<le> k (a' ! m))"
  using assms(2-4)
proof (induction "i - j" arbitrary: j a)
  case 0
  then show ?case by (subst bubble_inner.simps) auto
next
  case (Suc n)
  then have ji: "j < i" by simp
  define b where "b = (if k (a ! j) < k (a ! i) then a[i := a ! j, j := a ! i] else a)"
  have step: "bubble_inner cmp (int i) (int j) a = bubble_inner cmp (int i) (int (Suc j)) b"
    using ji Suc.prems(1)
    by (subst bubble_inner.simps) (simp add: comparesD [OF assms(1)] b_def add.commute)
  have b: "length b = length a" "drop (Suc i) b = drop (Suc i) a" "mset b = mset a"
    using mset_swap [of j a i] Suc.prems(1) ji by (auto simp: b_def)
  have inv: "\<forall>m < Suc j. k (b ! i) \<le> k (b ! m)"
    using Suc.prems ji by (auto simp: less_Suc_eq nth_list_update b_def)
  have "n = i - Suc j" "i < length b" "Suc j \<le> i" using Suc.hyps(2) Suc.prems(1) ji b by auto
  then have "\<exists>a'. bubble_inner cmp (int i) (int (Suc j)) b = Some a' \<and> mset a' = mset b \<and>
      drop (Suc i) a' = drop (Suc i) b \<and> (\<forall>m < i. k (a' ! i) \<le> k (a' ! m))"
    by (rule Suc.hyps(1) [OF _ _ _ inv])
  then show ?case using step b by auto
qed

text \<open>The array after \<open>n\<close> rounds of the outer loop that starts at \<open>i\<close>.\<close>

fun bubble_rounds :: "'a comparison \<Rightarrow> nat \<Rightarrow> int \<Rightarrow> 'a list \<Rightarrow> 'a list option" where
  "bubble_rounds cmp 0 i a = Some a"
| "bubble_rounds cmp (Suc n) i a = Option.bind (bubble_inner cmp i 0 a) (bubble_rounds cmp n (i - 1))"

lemma bubble_outer_rounds:
  "i < len \<Longrightarrow> int n \<le> i - INT_MIN \<Longrightarrow>
   bubble_outer cmp len i a = Option.bind (bubble_rounds cmp n i a) (bubble_outer cmp len (i - int n))"
proof (induction n arbitrary: i a)
  case (Suc n)
  have "bubble_outer cmp len i a = Option.bind (bubble_inner cmp i 0 a) (bubble_outer cmp len (i - 1))"
    using Suc.prems by (subst bubble_outer.simps) (auto intro!: Option.bind_cong)
  also have "\<dots> = Option.bind (bubble_inner cmp i 0 a)
      (\<lambda>a. Option.bind (bubble_rounds cmp n (i - 1) a) (bubble_outer cmp len (i - int (Suc n))))"
    using Suc.IH [of "i - 1"] Suc.prems by (intro Option.bind_cong) (auto simp: algebra_simps)
  finally show ?case by (simp add: bind_assoc)
qed simp

lemma bubble_outer_None: "i < len \<Longrightarrow> bubble_outer cmp len i a = None"
proof (induction cmp len i a rule: bubble_outer.induct)
  case (1 cmp len i a)
  then show ?case by (subst bubble_outer.simps) (cases "bubble_inner cmp i 0 a"; auto)
qed

text \<open>From slot \<open>n\<close> on, every element is related to all elements before it.\<close>

definition ordered_from :: "('a \<Rightarrow> 'a \<Rightarrow> bool) \<Rightarrow> nat \<Rightarrow> 'a list \<Rightarrow> bool" where
  "ordered_from R n a \<longleftrightarrow> (\<forall>m < length a. n \<le> m \<longrightarrow> (\<forall>l < m. R (a ! l) (a ! m)))"

lemma ordered_keep:
  assumes "ordered_from R (Suc i) a" "mset a' = mset a" "drop (Suc i) a' = drop (Suc i) a"
    and "\<forall>m < i. R (a' ! m) (a' ! i)" "i < length a"
  shows "ordered_from R i a'"
  unfolding ordered_from_def
proof (intro allI impI)
  fix m l
  assume m: "m < length a'" "i \<le> m" "l < m"
  have len: "length a' = length a" using assms(2) by (rule mset_eq_length)
  have above: "a' ! x = a ! x" if "x < length a" "i < x" for x
    using arg_cong [OF assms(3), of "\<lambda>ys. ys ! (x - Suc i)"] that len by simp
  have low: "set (take (Suc i) a') = set (take (Suc i) a)" by (rule take_mset_eq [OF assms(2,3)])
  show "R (a' ! l) (a' ! m)"
  proof (cases "m = i")
    case False
    then have mi: "i < m" using m(2) by simp
    have "\<exists>l' < m. a' ! l = a ! l'"
    proof (cases "i < l")
      case True
      then show ?thesis using above [of l] m len by auto
    next
      case False
      then have "a' ! l \<in> set (take (Suc i) a')"
        using m len mi by (auto simp: in_set_conv_nth intro!: exI [of _ l])
      then obtain l' where "l' < Suc i" "a ! l' = a' ! l" using low by (auto simp: in_set_conv_nth)
      then show ?thesis using mi by (intro exI [of _ l']) auto
    qed
    then show ?thesis using assms(1) above [of m] m len mi by (auto simp: ordered_from_def)
  qed (use assms(4) m in auto)
qed

abbreviation descending_from :: "('a \<Rightarrow> 'k :: linorder) \<Rightarrow> nat \<Rightarrow> 'a list \<Rightarrow> bool" where
  "descending_from k \<equiv> ordered_from (\<lambda>x y. k y \<le> k x)"

abbreviation ascending_from :: "('a \<Rightarrow> 'k :: linorder) \<Rightarrow> nat \<Rightarrow> 'a list \<Rightarrow> bool" where
  "ascending_from k \<equiv> ordered_from (\<lambda>x y. k x \<le> k y)"

lemma bubble_rounds_ok:
  assumes "compares cmp k" "i < length a" "descending_from k (Suc i) a"
  shows "\<exists>a'. bubble_rounds cmp (Suc i) (int i) a = Some a' \<and> mset a' = mset a \<and> descending_from k 0 a'"
  using assms(2,3)
proof (induction i arbitrary: a)
  case 0
  then show ?case using bubble_inner_ok [OF assms(1), of 0 a 0] ordered_keep [of "\<lambda>x y. k y \<le> k x" 0 a] by fastforce
next
  case (Suc i)
  obtain b where b: "bubble_inner cmp (int (Suc i)) 0 a = Some b" "mset b = mset a"
      "drop (Suc (Suc i)) b = drop (Suc (Suc i)) a" "\<forall>m < Suc i. k (b ! Suc i) \<le> k (b ! m)"
    using bubble_inner_ok [OF assms(1) Suc.prems(1), of 0] by auto
  have "descending_from k (Suc i) b" by (rule ordered_keep [OF Suc.prems(2) b(2-4) Suc.prems(1)])
  moreover have "i < length b" using Suc.prems(1) mset_eq_length [OF b(2)] by simp
  ultimately show ?case using Suc.IH [of b] b by auto
qed

lemma bubble_rounds_idle: "i < 0 \<Longrightarrow> bubble_rounds cmp n i a = Some a"
proof (induction n arbitrary: i)
  case (Suc n)
  then have "bubble_inner cmp i 0 a = Some a" by (subst bubble_inner.simps) simp
  with Suc show ?case by simp
qed simp

lemma bubble_rounds_add:
  "bubble_rounds cmp (n + n') i a = Option.bind (bubble_rounds cmp n i a) (bubble_rounds cmp n' (i - int n))"
  by (induction n arbitrary: i a) (auto simp: bind_assoc algebra_simps intro!: Option.bind_cong)

lemma descending_sorted: "descending_from k 0 a \<Longrightarrow> sorted (rev (map k a))"
  by (auto simp: sorted_rev_iff_nth_mono ordered_from_def le_eq_less_or_eq)

text \<open>
  C40: \<open>bubble\<close> on an array of at least two elements: after as many rounds of the outer loop as there
  are elements, and after any larger number of rounds, the array is a permutation of the
  input in descending order; but the loop condition \<open>i < length\<close> stays true while \<open>i\<close> counts
  down, so the routine never returns: it runs on until \<open>i\<close> overflows.
\<close>

theorem bubble_sorts_never_returns:
  assumes "compares cmp k" "2 \<le> length a" "length a \<le> n"
  shows "bubble cmp (int (length a)) a = None \<and>
    (\<exists>a'. bubble_rounds cmp n (int (length a) - 1) a = Some a' \<and> mset a' = mset a \<and> sorted (rev (map k a')))"
proof
  show "bubble cmp (int (length a)) a = None"
    using assms(2) by (simp add: bubble_def bubble_outer_None)
  obtain i where i: "length a = Suc i" using assms(2) by (cases "length a") auto
  have "descending_from k (Suc i) a" using i by (simp add: ordered_from_def)
  then obtain a' where a': "bubble_rounds cmp (Suc i) (int i) a = Some a'" "mset a' = mset a"
      "descending_from k 0 a'"
    using bubble_rounds_ok [OF assms(1), of i a] i by auto
  have "bubble_rounds cmp (Suc i + (n - Suc i)) (int i) a = Some a'"
    unfolding bubble_rounds_add using a'(1) by (simp add: bubble_rounds_idle)
  then have "bubble_rounds cmp n (int i) a = Some a'" using assms(3) i by simp
  with a' i descending_sorted show "\<exists>a'. bubble_rounds cmp n (int (length a) - 1) a = Some a' \<and>
      mset a' = mset a \<and> sorted (rev (map k a'))" by auto
qed

theorem bubble_sorts_never_returns_witness:
  "bubble (\<lambda>x y. x - y) 3 [2, 1, 3 :: int] = None \<and>
   (\<exists>a'. bubble_rounds (\<lambda>x y. x - y) 3 2 [2, 1, 3 :: int] = Some a' \<and> mset a' = {#1, 2, 3#} \<and> sorted (rev a'))"
  using bubble_sorts_never_returns [of "\<lambda>x y. x - y" id "[2, 1, 3 :: int]" 3]
  by (auto simp: compares_def add_mset_commute)

section \<open>fast\_sort never returns\<close>

lemma scan_high_stay: "aget a j = Some x \<Longrightarrow> \<not> cmp x key < 0 \<Longrightarrow> scan_high cmp key i j a = Some (j, a)"
  by (subst scan_high.simps) simp

lemma scan_low_stay: "aget a i = Some x \<Longrightarrow> \<not> cmp x key > 0 \<Longrightarrow> scan_low cmp key i j a = Some (i, a)"
  by (subst scan_low.simps) simp

text \<open>A state that neither inner loop changes is repeated forever.\<close>

lemma partition_stuck:
  assumes "i < j" "scan_high cmp key i j a = Some (j, a)" "scan_low cmp key i j a = Some (i, a)"
  shows "partition_loop cmp key i j a = None"
proof (rule ccontr)
  let ?P = "\<lambda>cmp key i j a r.
    \<not> (i < j \<and> scan_high cmp key i j a = Some (j, a) \<and> scan_low cmp key i j a = Some (i, a))"
  assume "partition_loop cmp key i j a \<noteq> None"
  then obtain r where "partition_loop cmp key i j a = Some r" by blast
  then have "?P cmp key i j a r"
  proof (rule partition_loop.raw_induct [where P = ?P, rotated])
    fix f i j r and cmp :: "'a comparison" and key :: 'a and a :: "'a list"
    assume IH: "\<And>cmp key i j a r. f cmp key i j a = Some r \<Longrightarrow> ?P cmp key i j a r"
      and body: "(if i < j then do {
       (j, array) \<leftarrow> scan_high cmp key i j a;
       (i, array) \<leftarrow> scan_low cmp key i j array;
       f cmp key i j array } else Some (i, j, a)) = Some r"
    show "?P cmp key i j a r"
    proof
      assume st: "i < j \<and> scan_high cmp key i j a = Some (j, a) \<and> scan_low cmp key i j a = Some (i, a)"
      with body have "f cmp key i j a = Some r" by simp
      from IH [OF this] st show False by blast
    qed
  qed
  with assms show False by blast
qed

text \<open>
  Once the first slot holds an element below the key, the downward scan either leaves the array or
  stops at a slot above the first one.
\<close>

lemma scan_high_low:
  assumes "j < length a" "cmp (a ! 0) key < 0"
  shows "scan_high cmp key 0 (int j) a = None \<or>
    (\<exists>j' a'. scan_high cmp key 0 (int j) a = Some (int j', a') \<and> 0 < j' \<and> j' < length a' \<and>
       \<not> cmp (a' ! j') key < 0 \<and> cmp (a' ! 0) key < 0)"
  using assms
proof (induction j arbitrary: a)
  case 0
  have "scan_high cmp key 0 (int 0) a = scan_high cmp key 0 (- 1) (a[0 := a ! 0])"
    using 0 by (subst scan_high.simps) (simp add: aget_def aset_def)
  also have "\<dots> = None" by (subst scan_high.simps) (simp add: aget_def)
  finally show ?case by simp
next
  case (Suc j)
  show ?case
  proof (cases "cmp (a ! Suc j) key < 0")
    case True
    have "scan_high cmp key 0 (int (Suc j)) a = scan_high cmp key 0 (int j) (a[0 := a ! Suc j])"
      using Suc.prems True by (subst scan_high.simps) (auto simp: aget_def aset_def nat_add_distrib)
    moreover have "(a[0 := a ! Suc j]) ! 0 = a ! Suc j" using Suc.prems(1) by (cases a) auto
    ultimately show ?thesis using Suc.IH [of "a[0 := a ! Suc j]"] Suc.prems(1) True by simp
  next
    case False
    have g: "aget a (int (Suc j)) = Some (a ! Suc j)" using Suc.prems(1) by (rule aget_in)
    have "scan_high cmp key 0 (int (Suc j)) a = Some (int (Suc j), a)"
      by (rule scan_high_stay [where cmp = cmp and key = key, OF g False])
    then show ?thesis using Suc.prems False by (intro disjI2 exI [of _ "Suc j"] exI [of _ a]) simp
  qed
qed

lemma partition_None:
  assumes "length a = Suc (Suc n)" "cmp (a ! 0) (a ! 0) = 0"
  shows "partition_loop cmp (a ! 0) 0 (int (Suc n)) a = None"
proof (cases "cmp (a ! Suc n) (a ! 0) < 0")
  case False
  have g: "aget a (int (Suc n)) = Some (a ! Suc n)" "aget a 0 = Some (a ! 0)"
    using assms(1) by (simp_all add: aget_def nat_add_distrib)
  show ?thesis
    by (rule partition_stuck [OF _ scan_high_stay [where cmp = cmp and key = "a ! 0", OF g(1) False]
        scan_low_stay [OF g(2)]]) (use assms(2) in simp_all)
next
  case True
  let ?k = "a ! 0" and ?b = "a[0 := a ! Suc n]"
  have first: "scan_high cmp ?k 0 (int (Suc n)) a = scan_high cmp ?k 0 (int n) ?b"
    using assms(1) True by (subst scan_high.simps) (simp add: aget_def aset_def nat_add_distrib)
  have b: "n < length ?b" "cmp (?b ! 0) ?k < 0" using assms(1) True by simp_all
  from scan_high_low [where cmp = cmp and key = ?k, OF b] consider "scan_high cmp ?k 0 (int n) ?b = None" |
      j' a' where "scan_high cmp ?k 0 (int n) ?b = Some (int j', a')" "0 < j'" "j' < length a'"
        "\<not> cmp (a' ! j') ?k < 0" "cmp (a' ! 0) ?k < 0"
    by (elim disjE exE conjE) simp_all
  then show ?thesis
  proof cases
    case 1
    then show ?thesis by (subst partition_loop.simps) (simp add: first del: of_nat_Suc)
  next
    case 2
    have g: "aget a' (int j') = Some (a' ! j')" "aget a' 0 = Some (a' ! 0)"
      using 2(3) by (auto simp: aget_def)
    have low: "scan_low cmp ?k 0 (int j') a' = Some (0, a')"
      by (rule scan_low_stay [OF g(2)]) (use 2(5) in simp)
    have "partition_loop cmp ?k 0 (int j') a' = None"
      by (rule partition_stuck [OF _ scan_high_stay [where cmp = cmp and key = ?k, OF g(1) 2(4)] low]) (use 2(2) in simp)
    then show ?thesis
      using first 2(1) low by (subst partition_loop.simps) (simp del: of_nat_Suc)
  qed
qed

text \<open>
  \<open>fast_sort\<close> never returns: on every array of at least two elements, sorted or not, it either
  reads \<open>array[-1]\<close> or repeats the same partition state forever, because the first slot
  holds the key (or an element already moved there) and neither inner loop tests \<open>i < j\<close>.
\<close>

theorem fast_sort_never_returns:
  assumes "2 \<le> length a" "cmp (a ! 0) (a ! 0) = 0"
  shows "fast_sort cmp 0 (int (length a) - 1) a = None"
proof -
  obtain n where n: "length a = Suc (Suc n)"
    using assms(1) by (metis Suc_le_D numeral_2_eq_2 Suc_le_mono)
  have "partition_loop cmp (a ! 0) 0 (int (Suc n)) a = None" by (rule partition_None [where cmp = cmp and a = a, OF n assms(2)])
  then show ?thesis using n by (subst fast_sort.simps) (simp add: aget_def)
qed

theorem fast_sort_never_returns_witness: "fast_sort (\<lambda>x y. x - y) 0 2 [1, 2, 3 :: int] = None"
  using fast_sort_never_returns [of "[1, 2, 3 :: int]" "\<lambda>x y. x - y"] by simp


section \<open>adjust\_heap and the extraction loop\<close>

text \<open>The first \<open>hi\<close> slots form a heap below \<open>lo\<close>, except possibly between \<open>x\<close> and its sons.\<close>

definition heap_but :: "('a \<Rightarrow> 'k :: linorder) \<Rightarrow> nat \<Rightarrow> nat \<Rightarrow> nat set \<Rightarrow> 'a list \<Rightarrow> bool" where
  "heap_but k lo hi X a \<longleftrightarrow>
     (\<forall>c < hi. 0 < c \<longrightarrow> lo \<le> (c - 1) div 2 \<longrightarrow> (c - 1) div 2 \<notin> X \<longrightarrow> k (a ! c) \<le> k (a ! ((c - 1) div 2)))"

definition sons_below :: "('a \<Rightarrow> 'k :: linorder) \<Rightarrow> nat \<Rightarrow> nat \<Rightarrow> nat \<Rightarrow> 'a list \<Rightarrow> bool" where
  "sons_below k lo hi d a \<longleftrightarrow> (0 < d \<longrightarrow> lo \<le> (d - 1) div 2 \<longrightarrow>
     (\<forall>c < hi. 0 < c \<longrightarrow> (c - 1) div 2 = d \<longrightarrow> k (a ! c) \<le> k (a ! ((d - 1) div 2))))"

lemma father_cases: "(0 < c \<and> (c - 1) div 2 = d) \<longleftrightarrow> (c = 2 * d + 1 \<or> c = 2 * d + (2 :: nat))"
  by auto

text \<open>The larger son of \<open>d\<close>, as the loop chooses it.\<close>

definition top_son :: "('a \<Rightarrow> 'k :: linorder) \<Rightarrow> nat \<Rightarrow> nat \<Rightarrow> 'a list \<Rightarrow> nat" where
  "top_son k hi d a = (if 2 * d + 2 < hi \<and> k (a ! (2 * d + 1)) < k (a ! (2 * d + 2)) then 2 * d + 2 else 2 * d + 1)"

lemma top_son_max:
  "2 * d + 1 < hi \<Longrightarrow> c < hi \<Longrightarrow> 0 < c \<Longrightarrow> (c - 1) div 2 = d \<Longrightarrow> k (a ! c) \<le> k (a ! top_son k hi d a)"
  using father_cases [of c d] by (auto simp: top_son_def)

lemma top_son_son: "(top_son k hi d a - 1) div 2 = d" "0 < top_son k hi d a" "d < top_son k hi d a"
  "2 * d + 1 < hi \<Longrightarrow> top_son k hi d a < hi"
  by (auto simp: top_son_def)

lemma iadd_cases: "iadd x y = None \<or> iadd x y = Some (x + y)"
  by (simp add: iadd_def int_ok_def)

lemma first_son_cases: "first_son d = None \<or> first_son d = Some (d * 2 + 1)"
  using iadd_cases [of "d * 2" 1] by (auto simp: first_son_def int_ok_def)

text \<open>Arrays of at most \<open>2 ^ 30\<close> elements keep the index arithmetic in range.\<close>

lemma first_son_small: "d < 2 ^ 30 \<Longrightarrow> first_son (int d) = Some (int (2 * d + 1))"
proof -
  assume "d < 2 ^ 30"
  then have "int d < 2 ^ 30" by (metis of_nat_less_iff of_nat_numeral of_nat_power)
  then show ?thesis by (simp add: first_son_def int_ok_small iadd_small)
qed

lemma next_son_small: "n \<le> 2 ^ 30 \<Longrightarrow> m < n \<Longrightarrow> iadd (int m) 1 = Some (int m + 1)"
proof -
  assume "n \<le> 2 ^ 30" "m < n"
  then have "m < 2 ^ 30" by linarith
  then have "int m < 2 ^ 30" by (metis of_nat_less_iff of_nat_numeral of_nat_power)
  then show ?thesis by (intro iadd_small) simp
qed

lemma sift_choice:
  assumes "2 * d + 1 < hi" "hi \<le> length a" "length a \<le> 2 ^ 30"
  shows "sift cmp (int d) (int hi - 1) a = (let c = (if 2 * d + 2 < hi \<and> cmp (a ! (2 * d + 1)) (a ! (2 * d + 2)) < 0
      then 2 * d + 2 else 2 * d + 1) in
    if cmp (a ! d) (a ! c) > 0 then Some a else sift cmp (int c) (int hi - 1) (a[d := a ! c, c := a ! d]))"
proof -
  let ?c = "if 2 * d + 2 < hi \<and> cmp (a ! (2 * d + 1)) (a ! (2 * d + 2)) < 0 then 2 * d + 2 else 2 * d + 1"
  have "d < 2 ^ 30" using assms by linarith
  then have fs: "first_son (int d) = Some (int (2 * d + 1))" by (rule first_son_small)
  have nx: "iadd (int (2 * d + 1)) 1 = Some (int (2 * d + 2))" using next_son_small [of "length a" "2 * d + 1"] assms by simp
  have g: "2 * d + 2 < hi \<Longrightarrow> aget a (int (2 * d + 2)) = Some (a ! (2 * d + 2))" "aget a (int (2 * d + 1)) = Some (a ! (2 * d + 1))"
    "aget a (int d) = Some (a ! d)"
    using assms by (intro aget_in; simp)+
  have "(if int (2 * d + 2) \<le> int hi - 1 then do {
      x \<leftarrow> aget a (int (2 * d + 1));
      y \<leftarrow> aget a (int (2 * d + 2));
      Some (if cmp x y < 0 then int (2 * d + 2) else int (2 * d + 1)) }
    else Some (int (2 * d + 1))) = Some (int ?c)"
    using g by auto
  moreover have "?c < length a" "d < length a" "int (2 * d + 1) \<le> int hi - 1" using assms by auto
  ultimately show ?thesis
    by (subst sift.simps) (simp only: fs nx bind.simps Let_def if_True aget_in aswap_in)
qed

lemma sift_unfold:
  assumes "compares cmp k" "hi \<le> length a" "2 * d + 1 < hi" "length a \<le> 2 ^ 30"
  shows "sift cmp (int d) (int hi - 1) a = (let c = top_son k hi d a in
    if k (a ! c) < k (a ! d) then Some a else sift cmp (int c) (int hi - 1) (a[d := a ! c, c := a ! d]))"
  using sift_choice [OF assms(3,2,4), of cmp] by (simp only: top_son_def comparesD [OF assms(1)])

lemma sift_done: "hi \<le> 2 * d + 1 \<Longrightarrow> d < 2 ^ 30 \<Longrightarrow> sift cmp (int d) (int hi - 1) a = Some a"
  by (subst sift.simps) (simp only: first_son_small bind.simps, simp)

lemma sift_step_heap:
  assumes "heap_but k lo hi {d} a" "sons_below k lo hi d a" "lo \<le> d" "2 * d + 1 < hi" "hi \<le> length a"
    and "c = top_son k hi d a" "\<not> k (a ! c) < k (a ! d)" "b = a[d := a ! c, c := a ! d]"
  shows "heap_but k lo hi {c} b" "sons_below k lo hi c b"
proof -
  have c: "(c - 1) div 2 = d" "0 < c" "c < hi" "d < c" using top_son_son [where k = k and hi = hi and d = d and a = a] assms(4,6) by auto
  have b: "b ! d = a ! c" "b ! c = a ! d" "\<And>x. x \<noteq> d \<Longrightarrow> x \<noteq> c \<Longrightarrow> b ! x = a ! x"
    using assms(5,8) c by (auto simp: nth_list_update)
  show "heap_but k lo hi {c} b"
    unfolding heap_but_def
  proof (intro allI impI)
    fix x
    assume x: "x < hi" "0 < x" "lo \<le> (x - 1) div 2" "(x - 1) div 2 \<notin> {c}"
    have px: "(x - 1) div 2 < x" using x(2) by simp
    consider "x = d" | "x = c" | "x \<noteq> d" "x \<noteq> c" "(x - 1) div 2 = d" | "x \<noteq> d" "x \<noteq> c" "(x - 1) div 2 \<noteq> d"
      by blast
    then show "k (b ! x) \<le> k (b ! ((x - 1) div 2))"
    proof cases
      case 1
      then have "k (a ! c) \<le> k (a ! ((d - 1) div 2))"
        using assms(2) x c by (auto simp: sons_below_def)
      then show ?thesis using 1 b x px by auto
    next
      case 2
      then show ?thesis using assms(7) b c by auto
    next
      case 3
      then have "k (a ! x) \<le> k (a ! c)" using top_son_max [of d hi x k a] assms(4,6) x by auto
      then show ?thesis using 3 b by simp
    next
      case 4
      then show ?thesis using assms(1) b x by (auto simp: heap_but_def)
    qed
  qed
  show "sons_below k lo hi c b"
    unfolding sons_below_def
  proof (intro impI allI)
    fix x
    assume x: "x < hi" "0 < x" "(x - 1) div 2 = c"
    have "c < x" using x by auto
    then have "b ! x = a ! x" using b(3) [of x] c by simp
    moreover have "k (a ! x) \<le> k (a ! c)" using assms(1,3) x c by (auto simp: heap_but_def)
    ultimately show "k (b ! x) \<le> k (b ! ((c - 1) div 2))" using b c by simp
  qed
qed

lemma sift_ok:
  assumes "compares cmp k" "hi \<le> length a" "lo \<le> d" "heap_but k lo hi {d} a" "sons_below k lo hi d a"
    "length a \<le> 2 ^ 30" "d < 2 ^ 30"
  shows "\<exists>a'. sift cmp (int d) (int hi - 1) a = Some a' \<and> mset a' = mset a \<and> drop hi a' = drop hi a \<and>
    heap_but k lo hi {} a'"
  using assms(2-7)
proof (induction "hi - d" arbitrary: d a rule: less_induct)
  case less
  show ?case
  proof (cases "2 * d + 1 < hi")
    case False
    then have "sift cmp (int d) (int hi - 1) a = Some a" using less.prems(6) by (intro sift_done) simp_all
    moreover have "(c - 1) div 2 \<noteq> d" if "c < hi" "0 < c" for c using False that father_cases [of c d] by auto
    then have "heap_but k lo hi {} a" using less.prems(3) by (auto simp: heap_but_def)
    ultimately show ?thesis by auto
  next
    case True
    define c where "c = top_son k hi d a"
    define b where "b = a[d := a ! c, c := a ! d]"
    have c: "c < hi" "d < c" "(c - 1) div 2 = d" using top_son_son [where k = k and hi = hi and d = d and a = a] True by (auto simp: c_def)
    note un = sift_unfold [OF assms(1) less.prems(1) True less.prems(5), folded c_def, unfolded Let_def]
    show ?thesis
    proof (cases "k (a ! c) < k (a ! d)")
      case stop: True
      have "k (a ! x) \<le> k (a ! d)" if "x < hi" "0 < x" "(x - 1) div 2 = d" for x
        using top_son_max [of d hi x k a] True that stop c_def by fastforce
      then have "heap_but k lo hi {} a" using less.prems(3) by (auto simp: heap_but_def)
      then show ?thesis using un stop by auto
    next
      case False
      note st = sift_step_heap [OF less.prems(3,4,2) True less.prems(1) c_def False b_def]
      have lb: "hi \<le> length b" "lo \<le> c" "hi - c < hi - d" "length b \<le> 2 ^ 30" using less.prems(1,2,5) c by (auto simp: b_def)
      have c30: "c < 2 ^ 30" using c(1) less.prems(1,5) by linarith
      obtain a' where "sift cmp (int c) (int hi - 1) b = Some a'" "mset a' = mset b" "drop hi a' = drop hi b"
          "heap_but k lo hi {} a'"
        using less.hyps [OF lb(3,1,2) st lb(4) c30] by blast
      moreover have "mset b = mset a" using mset_swap [of c a d] c less.prems(1) by (auto simp: b_def)
      moreover have "drop hi b = drop hi a" using c by (simp add: b_def)
      ultimately show ?thesis using un False by (auto simp: b_def)
    qed
  qed
qed

lemma heap_root_max: "heap_but k 0 hi {} a \<Longrightarrow> c < hi \<Longrightarrow> k (a ! c) \<le> k (a ! 0)"
proof (induction c rule: less_induct)
  case (less c)
  show ?case
  proof (cases "c = 0")
    case False
    then have "k (a ! c) \<le> k (a ! ((c - 1) div 2))" using less.prems by (auto simp: heap_but_def)
    also have "\<dots> \<le> k (a ! 0)" using less False by simp
    finally show ?thesis .
  qed simp
qed

declare extract_heap.simps [simp del] build_heap.simps [simp del]

lemma extract_step:
  assumes "compares cmp k" "0 < i" "i < length a" "heap_but k 0 (Suc i) {} a" "ascending_from k (Suc i) a"
    "length a \<le> 2 ^ 30"
  shows "\<exists>b. extract_heap cmp (int i) a = extract_heap cmp (int (i - 1)) b \<and> mset b = mset a \<and>
    heap_but k 0 i {} b \<and> ascending_from k i b"
proof -
  define s where "s = a[0 := a ! i, i := a ! 0]"
  have s: "length s = length a" "mset s = mset a" "drop (Suc i) s = drop (Suc i) a" "s ! i = a ! 0"
  proof -
    show "mset s = mset a" unfolding s_def by (rule mset_swap) (use assms(2,3) in auto)
  qed (use assms(2,3) in \<open>auto simp: s_def\<close>)
  have "heap_but k 0 i {0} s"
    using assms(2-4) by (auto simp: heap_but_def s_def nth_list_update)
  then obtain b where b: "sift cmp (int 0) (int i - 1) s = Some b" "mset b = mset s" "drop i b = drop i s"
      "heap_but k 0 i {} b"
    using sift_ok [OF assms(1), of i s 0 0] assms(3,6) s(1) by (auto simp: sons_below_def)
  have lb: "length b = length a" by (rule mset_eq_length [OF trans [OF b(2) s(2)]])
  have swap: "aswap a 0 (int i) = Some s"
    using aswap_in [of 0 a i] assms(3) unfolding s_def by (cases a) auto
  have eq: "extract_heap cmp (int i) a = extract_heap cmp (int (i - 1)) b"
    using assms(2) b(1) by (subst extract_heap.simps) (simp add: swap adjust_heap_def of_nat_diff)
  have bi: "b ! i = a ! 0"
    using arg_cong [OF b(3), of hd] assms(3) s lb by (simp add: hd_drop_conv_nth)
  have d: "drop (Suc i) b = drop (Suc i) a"
    using arg_cong [OF b(3), of "drop 1"] s(3) by simp
  have top: "k (b ! m) \<le> k (b ! i)" if "m < i" for m
  proof -
    have "b ! m \<in> set (take (Suc i) b)" using that assms(3) lb by (auto simp: in_set_conv_nth intro!: exI [of _ m])
    then have "b ! m \<in> set (take (Suc i) a)" using take_mset_eq [of b a "Suc i"] b(2) s(2) d by auto
    then obtain l where "l < Suc i" "b ! m = a ! l" by (auto simp: in_set_conv_nth)
    then show ?thesis using heap_root_max [OF assms(4)] bi by simp
  qed
  have "ascending_from k i b"
    using ordered_keep [OF assms(5) _ d _ assms(3)] top b(2) s(2) by simp
  with eq b s show ?thesis by auto
qed

lemma extract_ok:
  assumes "compares cmp k" "i < length a" "heap_but k 0 (Suc i) {} a" "ascending_from k (Suc i) a" "length a \<le> 2 ^ 30"
  shows "\<exists>a'. extract_heap cmp (int i) a = Some a' \<and> mset a' = mset a \<and> ascending_from k 0 a'"
  using assms(2-5)
proof (induction i arbitrary: a)
  case 0
  then have "ascending_from k 0 a" by (auto simp: ordered_from_def Suc_le_eq)
  then show ?case by (subst extract_heap.simps) simp
next
  case (Suc i)
  obtain b where b: "extract_heap cmp (int (Suc i)) a = extract_heap cmp (int i) b" "mset b = mset a"
      "heap_but k 0 (Suc i) {} b" "ascending_from k (Suc i) b"
    using extract_step [OF assms(1) _ Suc.prems] by auto
  have "i < length b" "length b \<le> 2 ^ 30" using Suc.prems(1,4) mset_eq_length [OF b(2)] by simp_all
  then show ?case using Suc.IH [OF _ b(3,4)] b(1,2) by auto
qed

text \<open>
  C12: On an array of at most \<open>2 ^ 30\<close> elements, whose indexes stay in the range of \<open>int\<close>, \<open>adjust_heap\<close>
  terminates and stays inside the array when \<open>end\<close> is below its length, permutes only the slots up to
  \<open>end\<close>, and turns a subtree whose two sons are heaps into a heap. For a start from \<open>2 ^ 30\<close> on, computing the
  first son overflows.
\<close>

theorem adjust_heap_restores:
  assumes "compares cmp k" "hi \<le> length a" "length a \<le> 2 ^ 30"
  shows "(start < 2 ^ 30 \<longrightarrow> heap_but k start hi {start} a \<longrightarrow>
      (\<exists>a'. adjust_heap cmp (int start) (int hi - 1) a = Some a' \<and> mset a' = mset a \<and>
        drop hi a' = drop hi a \<and> heap_but k start hi {} a')) \<and>
    (2 ^ 30 \<le> start \<longrightarrow> adjust_heap cmp (int start) (int hi - 1) a = None)"
proof (intro conjI impI)
  assume "start < 2 ^ 30" "heap_but k start hi {start} a"
  then show "\<exists>a'. adjust_heap cmp (int start) (int hi - 1) a = Some a' \<and> mset a' = mset a \<and>
      drop hi a' = drop hi a \<and> heap_but k start hi {} a'"
    unfolding adjust_heap_def using assms(3) by (intro sift_ok [OF assms(1,2)]) (auto simp: sons_below_def)
next
  assume "2 ^ 30 \<le> start"
  then have "2 ^ 30 \<le> int start" by simp
  then have "first_son (int start) = None"
    by (simp add: first_son_def iadd_def int_ok_def INT_MAX_def split: Option.bind_split)
  then show "adjust_heap cmp (int start) (int hi - 1) a = None"
    unfolding adjust_heap_def by (subst sift.simps) simp
qed

lemma compares_int: "compares (\<lambda>x y. x - y) (id :: int \<Rightarrow> int)"
  by (simp add: compares_def)

theorem adjust_heap_restores_witness:
  "\<exists>a'. adjust_heap (\<lambda>x y. x - y) 0 2 [1, 5, 3 :: int] = Some a' \<and> mset a' = {#1, 3, 5#} \<and> heap_but id 0 3 {} a'"
proof -
  have "(c - 1) div 2 = 0" if "c < (3 :: nat)" for c using that by auto
  then have "heap_but id 0 3 {0} [1, 5, 3 :: int]" by (auto simp: heap_but_def)
  with adjust_heap_restores [OF compares_int, of 3 "[1, 5, 3]" 0] show ?thesis
    by (auto simp: add_mset_commute)
qed

text \<open>
  The second loop of \<open>heap_sort\<close> sorts: from an array that is a heap it returns a permutation of
  it in ascending order, without leaving its bounds.
\<close>

theorem extract_heap_sorts:
  assumes "compares cmp k" "a \<noteq> []" "heap_but k 0 (length a) {} a" "length a \<le> 2 ^ 30"
  shows "\<exists>a'. extract_heap cmp (int (length a) - 1) a = Some a' \<and> mset a' = mset a \<and> sorted (map k a')"
proof -
  obtain i where i: "length a = Suc i" using assms(2) by (cases a) auto
  have "ascending_from k (Suc i) a" using i by (simp add: ordered_from_def)
  then obtain a' where "extract_heap cmp (int i) a = Some a'" "mset a' = mset a" "ascending_from k 0 a'"
    using extract_ok [OF assms(1), of i a] assms(3,4) i by auto
  moreover from this have "sorted (map k a')"
    by (auto simp: sorted_iff_nth_mono_less ordered_from_def)
  ultimately show ?thesis using i by auto
qed

theorem extract_heap_sorts_witness:
  "\<exists>a'. extract_heap (\<lambda>x y. x - y) 2 [5, 1, 3 :: int] = Some a' \<and> mset a' = {#1, 3, 5#} \<and> sorted a'"
proof -
  have "(c - 1) div 2 = 0" if "c < (3 :: nat)" for c using that by auto
  then have "heap_but id 0 (length [5, 1, 3 :: int]) {} [5, 1, 3 :: int]"
    by (auto simp: heap_but_def less_Suc_eq numeral_3_eq_3)
  from extract_heap_sorts [OF compares_int _ this] show ?thesis by (auto simp: add_mset_commute)
qed

text \<open>
  \<open>heap_sort\<close> builds the heap with \<open>end = length\<close> instead of \<open>length - 1\<close>: for every array of even,
  positive length the very first \<open>adjust_heap\<close> reads \<open>array[length]\<close>, so the sort is undefined.
\<close>

theorem heap_sort_reads_past_end:
  assumes "length a = 2 * Suc n"
  shows "heap_sort cmp (int (length a)) a = None"
proof -
  have l: "int (length a) = int n * 2 + 2" using assms by simp
  consider "first_son (int n) = None" | "first_son (int n) = Some (int n * 2 + 1)" "iadd (int n * 2 + 1) 1 = None"
    | "first_son (int n) = Some (int n * 2 + 1)" "iadd (int n * 2 + 1) 1 = Some (int n * 2 + 2)"
    using first_son_cases [of "int n"] iadd_cases [of "int n * 2 + 1" 1] by (auto simp: add.commute)
  then have "sift cmp (int n) (int (length a)) a = None"
  proof cases
    case 3
    have "aget a (int n * 2 + 2) = None" using l by (simp add: aget_def)
    then show ?thesis by (subst sift.simps) (simp add: 3 l)
  qed (subst sift.simps, simp add: l)+
  then have "adjust_heap cmp (int n) (int (length a)) a = None" by (simp add: adjust_heap_def)
  then have "build_heap cmp (int (length a)) (int n) a = None"
    by (subst build_heap.simps) simp
  then show ?thesis using assms by (simp add: heap_sort_def)
qed

theorem heap_sort_reads_past_end_witness: "heap_sort (\<lambda>x y. x - y) 2 [1, 2 :: int] = None"
  using heap_sort_reads_past_end [of "[1, 2 :: int]" 0 "\<lambda>x y. x - y"] by simp

text \<open>One round of the loop when both sons are inside the array, for any \<open>end\<close> that allows them.\<close>

lemma sift_inside:
  assumes "int (2 * d + 2) \<le> e" "2 * d + 2 < length a" "length a \<le> 2 ^ 30"
  shows "sift cmp (int d) e a = (let c = (if cmp (a ! (2 * d + 1)) (a ! (2 * d + 2)) < 0 then 2 * d + 2 else 2 * d + 1) in
    if cmp (a ! d) (a ! c) > 0 then Some a else sift cmp (int c) e (a[d := a ! c, c := a ! d]))"
proof -
  let ?c = "if cmp (a ! (2 * d + 1)) (a ! (2 * d + 2)) < 0 then 2 * d + 2 else 2 * d + 1"
  have "d < 2 ^ 30" using assms by linarith
  then have fs: "first_son (int d) = Some (int (2 * d + 1))" by (rule first_son_small)
  have nx: "iadd (int (2 * d + 1)) 1 = Some (int (2 * d + 2))" using next_son_small [of "length a" "2 * d + 1"] assms by simp
  have g: "aget a (int (2 * d + 2)) = Some (a ! (2 * d + 2))" "aget a (int (2 * d + 1)) = Some (a ! (2 * d + 1))"
    using assms by (intro aget_in; simp)+
  have "(if int (2 * d + 2) \<le> e then do {
      x \<leftarrow> aget a (int (2 * d + 1));
      y \<leftarrow> aget a (int (2 * d + 2));
      Some (if cmp x y < 0 then int (2 * d + 2) else int (2 * d + 1)) }
    else Some (int (2 * d + 1))) = Some (int ?c)"
    using g assms(1) by auto
  moreover have "?c < length a" "d < length a" "int (2 * d + 1) \<le> e" using assms by auto
  ultimately show ?thesis
    by (subst sift.simps) (simp only: fs nx bind.simps Let_def if_True aget_in aswap_in)
qed

text \<open>
  A run with \<open>end = length\<close> that does not read \<open>array[length]\<close> is a run with \<open>end = length - 1\<close>.
\<close>

lemma sift_past_end:
  "sift cmp (int d) (int (length a)) a = Some a' \<Longrightarrow> length a \<le> 2 ^ 30 \<Longrightarrow> d < 2 ^ 30 \<Longrightarrow>
    sift cmp (int d) (int (length a) - 1) a = Some a'"
proof (induction "length a - d" arbitrary: d a rule: less_induct)
  case less
  consider "length a < 2 * d + 1" | "2 * d + 1 \<le> length a" "length a \<le> 2 * d + 2" | "2 * d + 2 < length a" by linarith
  then show ?case
  proof cases
    case 1
    then have "sift cmp (int d) (int (length a)) a = Some a"
      using less.prems(3) by (subst sift.simps) (simp only: first_son_small bind.simps, simp)
    then show ?thesis using less.prems 1 sift_done [of "length a" d cmp a] by simp
  next
    case 2
    then have "sift cmp (int d) (int (length a)) a = None"
      using less.prems(3)
      by (subst sift.simps) (simp only: first_son_small bind.simps, cases "2 * d + 2 = length a";
        auto simp: aget_def iadd_def int_ok_def split: Option.bind_split)
    then show ?thesis using less.prems by simp
  next
    case 3
    let ?c = "if cmp (a ! (2 * d + 1)) (a ! (2 * d + 2)) < 0 then 2 * d + 2 else 2 * d + 1"
    have u: "sift cmp (int d) e a = (if cmp (a ! d) (a ! ?c) > 0 then Some a
        else sift cmp (int ?c) e (a[d := a ! ?c, ?c := a ! d]))" if "int (2 * d + 2) \<le> e" for e
      using sift_inside [OF that 3 less.prems(2), of cmp] by (simp only: Let_def)
    have e: "int (2 * d + 2) \<le> int (length a)" "int (2 * d + 2) \<le> int (length a) - 1" using 3 by auto
    show ?thesis
    proof (cases "cmp (a ! d) (a ! ?c) > 0")
      case True
      then show ?thesis using less.prems u [OF e(1)] u [OF e(2)] by simp
    next
      case False
      define b where "b = a[d := a ! ?c, ?c := a ! d]"
      have m: "length b - ?c < length a - d" "length b = length a" "?c < 2 ^ 30" using 3 less.prems(2) by (auto simp: b_def)
      have "sift cmp (int ?c) (int (length b)) b = Some a'"
        using less.prems False u [OF e(1)] by (simp add: b_def split: if_split_asm)
      then have "sift cmp (int ?c) (int (length b) - 1) b = Some a'"
        using m less.prems(2) by (intro less.hyps [OF m(1)]) simp_all
      then show ?thesis using False u [OF e(2)] m(2) by (simp add: b_def split: if_split_asm)
    qed
  qed
qed

text \<open>Inside the array the loops return, whatever the order of the elements is.\<close>

lemma sift_total:
  "hi \<le> length a \<Longrightarrow> length a \<le> 2 ^ 30 \<Longrightarrow> d < 2 ^ 30 \<Longrightarrow>
    \<exists>a'. sift cmp (int d) (int hi - 1) a = Some a' \<and> mset a' = mset a"
proof (induction "hi - d" arbitrary: d a rule: less_induct)
  case less
  show ?case
  proof (cases "2 * d + 1 < hi")
    case False
    then show ?thesis using sift_done [of hi d cmp a] less.prems(3) by simp
  next
    case True
    let ?c = "if 2 * d + 2 < hi \<and> cmp (a ! (2 * d + 1)) (a ! (2 * d + 2)) < 0 then 2 * d + 2 else 2 * d + 1"
    define b where "b = a[d := a ! ?c, ?c := a ! d]"
    have c: "hi - ?c < hi - d" "hi \<le> length b" "length b \<le> 2 ^ 30" "?c < 2 ^ 30" "?c < length a" "d < length a"
      using True less.prems by (auto simp: b_def)
    have "mset b = mset a" unfolding b_def by (rule mset_swap) (use c in auto)
    moreover obtain a' where "sift cmp (int ?c) (int hi - 1) b = Some a'" "mset a' = mset b"
      using less.hyps [OF c(1-4)] by blast
    ultimately show ?thesis
      using sift_choice [OF True less.prems(1,2), of cmp] by (auto simp: Let_def b_def)
  qed
qed

lemma build_heap_total:
  "hi \<le> length a \<Longrightarrow> length a \<le> 2 ^ 30 \<Longrightarrow> n \<le> length a \<Longrightarrow>
    \<exists>a'. build_heap cmp (int hi - 1) (int n - 1) a = Some a' \<and> mset a' = mset a"
proof (induction n arbitrary: a)
  case 0
  then show ?case by (subst build_heap.simps) simp
next
  case (Suc n)
  have "n < 2 ^ 30" using Suc.prems by linarith
  then obtain b where b: "sift cmp (int n) (int hi - 1) a = Some b" "mset b = mset a"
    using sift_total [OF Suc.prems(1,2)] by blast
  have "length b = length a" by (rule mset_eq_length [OF b(2)])
  then obtain a' where "build_heap cmp (int hi - 1) (int n - 1) b = Some a'" "mset a' = mset b"
    using Suc.IH [of b] Suc.prems by auto
  then show ?case using b by (subst build_heap.simps) (simp add: adjust_heap_def)
qed

lemma extract_heap_total:
  "i < length a \<Longrightarrow> length a \<le> 2 ^ 30 \<Longrightarrow> \<exists>a'. extract_heap cmp (int i) a = Some a' \<and> mset a' = mset a"
proof (induction i arbitrary: a)
  case 0
  then show ?case by (subst extract_heap.simps) simp
next
  case (Suc i)
  let ?s = "a[0 := a ! Suc i, Suc i := a ! 0]"
  have sw: "aswap a 0 (int (Suc i)) = Some ?s" using aswap_in [of 0 a "Suc i"] Suc.prems(1) by (cases a) auto
  have s: "mset ?s = mset a" by (rule mset_swap) (use Suc.prems(1) in auto)
  obtain b where b: "sift cmp (int 0) (int (Suc i) - 1) ?s = Some b" "mset b = mset ?s"
    using sift_total [of "Suc i" ?s 0 cmp] Suc.prems by auto
  have l: "length b = length a" using mset_eq_length [OF b(2)] by simp
  obtain a' where "extract_heap cmp (int i) b = Some a'" "mset a' = mset b"
    using Suc.IH [of b] Suc.prems l by auto
  moreover have "extract_heap cmp (int (Suc i)) a = extract_heap cmp (int i) b"
    using b(1) sw by (subst extract_heap.simps) (simp add: adjust_heap_def)
  ultimately show ?case using b(2) s by auto
qed

text \<open>With one more slot behind the array the sort returns: that slot is all it lacks.\<close>

lemma heap_sort_one_more:
  assumes "length a < 2 ^ 30"
  shows "\<exists>b. heap_sort cmp (int (length a)) (a @ [x]) = Some b \<and> mset b = mset (a @ [x])"
proof -
  have h: "int (length a) = int (length (a @ [x])) - 1" "int (length a) div 2 = int (length a div 2)" by simp_all
  obtain b where b: "build_heap cmp (int (length a)) (int (length a div 2) - 1) (a @ [x]) = Some b" "mset b = mset (a @ [x])"
  proof -
    have "length (a @ [x]) \<le> 2 ^ 30" "length a div 2 \<le> length (a @ [x])" using assms by simp_all
    from build_heap_total [OF order_refl this, of cmp] that show thesis unfolding h(1) by blast
  qed
  have l: "length b = Suc (length a)" using mset_eq_length [OF b(2)] by simp
  show ?thesis
  proof (cases "length a")
    case 0
    then show ?thesis using b by (simp add: heap_sort_def extract_heap.simps)
  next
    case (Suc i)
    obtain c where "extract_heap cmp (int i) b = Some c" "mset c = mset b"
      using extract_heap_total [of i b cmp] l Suc assms by auto
    then show ?thesis using b Suc h(2) by (auto simp: heap_sort_def)
  qed
qed

lemma build_heap_ok:
  assumes "compares cmp k" "build_heap cmp (int (length a)) (int n - 1) a = Some a'" "heap_but k n (length a) {} a"
    "length a \<le> 2 ^ 30" "n \<le> length a"
  shows "mset a' = mset a \<and> heap_but k 0 (length a) {} a'"
  using assms(2-5)
proof (induction n arbitrary: a)
  case 0
  then show ?case by (subst (asm) build_heap.simps) simp
next
  case (Suc n)
  obtain b where b: "sift cmp (int n) (int (length a)) a = Some b"
      "build_heap cmp (int (length a)) (int n - 1) b = Some a'"
    using Suc.prems(1) by (subst (asm) build_heap.simps) (auto simp: adjust_heap_def bind_eq_Some_conv)
  have "heap_but k n (length a) {n} a"
    using Suc.prems(2) by (auto simp: heap_but_def Suc_le_eq)
  then obtain b' where "sift cmp (int n) (int (length a) - 1) a = Some b'" "mset b' = mset a" "heap_but k n (length a) {} b'"
    using sift_ok [OF assms(1), of "length a" a n n] Suc.prems(3,4) by (auto simp: sons_below_def)
  moreover from this have "b' = b" using sift_past_end [OF b(1)] Suc.prems(3,4) by simp
  ultimately have "mset b = mset a" "heap_but k n (length a) {} b" by auto
  moreover from this have "length b = length a" by (metis size_mset)
  ultimately show ?case using Suc.IH [of b] b(2) Suc.prems(3,4) by simp
qed

lemma heap_sort_sorts:
  assumes "compares cmp k" "heap_sort cmp (int (length a)) a = Some a'" "length a \<le> 2 ^ 30"
  shows "mset a' = mset a \<and> sorted (map k a')"
proof (cases "length a")
  case 0
  then have "a' = a"
    using assms(2) by (auto simp: heap_sort_def bind_eq_Some_conv build_heap.simps extract_heap.simps)
  then show ?thesis using 0 by simp
next
  case (Suc i)
  obtain b where b: "build_heap cmp (int (length a)) (int (length a) div 2 - 1) a = Some b"
      "extract_heap cmp (int (length a) - 1) b = Some a'"
    using assms(2) by (auto simp: heap_sort_def bind_eq_Some_conv)
  have "int (length a) div 2 = int (length a div 2)" by simp
  moreover have "heap_but k (length a div 2) (length a) {} a" by (auto simp: heap_but_def)
  ultimately have h: "mset b = mset a" "heap_but k 0 (length a) {} b"
    using build_heap_ok [OF assms(1), of a "length a div 2" b] b(1) assms(3) by auto
  have l: "length b = Suc i" using h(1) Suc by (metis size_mset)
  then have "ascending_from k (Suc i) b" by (simp add: ordered_from_def)
  then obtain c where "extract_heap cmp (int i) b = Some c" "mset c = mset b" "ascending_from k 0 c"
    using extract_ok [OF assms(1), of i b] h(2) l Suc assms(3) by auto
  then show ?thesis using b(2) h(1) Suc by (auto simp: sorted_iff_nth_mono_less ordered_from_def)
qed

text \<open>A heap of odd length whose sons are strictly smaller is not touched by the first loop.\<close>

lemma build_heap_idle:
  assumes "compares cmp k" "2 * n < length a" "length a \<le> 2 ^ 30"
    "\<And>c. 0 < c \<Longrightarrow> c < length a \<Longrightarrow> k (a ! c) < k (a ! ((c - 1) div 2))"
  shows "build_heap cmp (int (length a)) (int n - 1) a = Some a"
  using assms(2)
proof (induction n)
  case 0
  then show ?case by (subst build_heap.simps) simp
next
  case (Suc n)
  have "k (a ! (2 * n + 1)) < k (a ! n)" "k (a ! (2 * n + 2)) < k (a ! n)"
    using assms(4) [of "2 * n + 1"] assms(4) [of "2 * n + 2"] Suc.prems by auto
  then have "sift cmp (int n) (int (length a)) a = Some a"
    using Suc.prems assms(3) by (subst sift_inside) (auto simp: Let_def comparesD [OF assms(1)])
  then show ?case using Suc by (subst build_heap.simps) (simp add: adjust_heap_def)
qed

text \<open>
  C13: \<open>heap_sort\<close> on fewer than \<open>2 ^ 30\<close> elements never returns a wrong result: if it returns, then a
  permutation in ascending order. Otherwise it has read \<open>array[length]\<close>, because the building loop passes
  \<open>end = length\<close> instead of \<open>length - 1\<close>: with any one slot behind the array the same call
  returns and permutes these \<open>length + 1\<close> slots, so no other access is out of bounds and no loop endless. The read
  happens for every array of even, positive length, and not for an array of odd length that already is a
  strict heap.
\<close>

theorem heap_sort_outcomes:
  assumes "compares cmp k" "length a < 2 ^ 30"
  shows "(\<forall>a'. heap_sort cmp (int (length a)) a = Some a' \<longrightarrow> mset a' = mset a \<and> sorted (map k a')) \<and>
    (\<forall>x. \<exists>b. heap_sort cmp (int (length a)) (a @ [x]) = Some b \<and> mset b = mset (a @ [x])) \<and>
    (even (length a) \<longrightarrow> a \<noteq> [] \<longrightarrow> heap_sort cmp (int (length a)) a = None) \<and>
    (odd (length a) \<longrightarrow> (\<forall>c. 0 < c \<longrightarrow> c < length a \<longrightarrow> k (a ! c) < k (a ! ((c - 1) div 2))) \<longrightarrow>
      heap_sort cmp (int (length a)) a \<noteq> None)"
proof (intro conjI impI allI)
  fix a' assume "heap_sort cmp (int (length a)) a = Some a'"
  from heap_sort_sorts [OF assms(1) this] assms(2) show "mset a' = mset a" "sorted (map k a')" by auto
next
  show "\<exists>b. heap_sort cmp (int (length a)) (a @ [x]) = Some b \<and> mset b = mset (a @ [x])" for x
    by (rule heap_sort_one_more [OF assms(2)])
next
  assume "even (length a)" "a \<noteq> []"
  from this(1) obtain m where m: "length a = 2 * m" by (rule evenE)
  with \<open>a \<noteq> []\<close> have "m \<noteq> 0" by (cases m) auto
  with m show "heap_sort cmp (int (length a)) a = None"
    using heap_sort_reads_past_end [of a "m - 1" cmp] by (simp add: algebra_simps)
next
  assume o: "odd (length a)" and h: "\<forall>c. 0 < c \<longrightarrow> c < length a \<longrightarrow> k (a ! c) < k (a ! ((c - 1) div 2))"
  from o obtain m where m: "length a = Suc (2 * m)" by (auto elim!: oddE)
  have "build_heap cmp (int (length a)) (int m - 1) a = Some a"
    by (rule build_heap_idle [OF assms(1)]) (use h m assms(2) in auto)
  moreover have "int (length a) div 2 = int m" using m by simp
  moreover have "heap_but k 0 (Suc (2 * m)) {} a" "ascending_from k (Suc (2 * m)) a"
    using h m by (auto simp: heap_but_def ordered_from_def less_imp_le)
  then have "extract_heap cmp (int (length a) - 1) a \<noteq> None"
    using extract_ok [OF assms(1), of "2 * m" a] m assms(2) by auto
  ultimately show "heap_sort cmp (int (length a)) a \<noteq> None"
    by (simp add: heap_sort_def)
qed

theorem heap_sort_outcomes_witness:
  "\<exists>a'. heap_sort (\<lambda>x y. x - y) 3 [5, 1, 3 :: int] = Some a' \<and> mset a' = {#1, 3, 5#} \<and> sorted a'"
proof -
  have "\<forall>c. 0 < c \<longrightarrow> c < length [5, 1, 3 :: int] \<longrightarrow> id ([5, 1, 3 :: int] ! c) < id ([5, 1, 3] ! ((c - 1) div 2))"
    by (auto simp: less_Suc_eq numeral_3_eq_3)
  then show ?thesis
    using heap_sort_outcomes [OF compares_int, of "[5, 1, 3]"] by (auto simp: add_mset_commute split: option.splits)
qed

section \<open>The queens found\<close>

text \<open>The boards the search visits: extensions of a safe prefix, column by column, row by row.\<close>

definition safe_at :: "nat \<Rightarrow> int list \<Rightarrow> bool" where
  "safe_at row b \<longleftrightarrow> (\<forall>i < row. b ! row \<noteq> b ! i \<and> \<bar>int row - int i\<bar> \<noteq> \<bar>b ! row - b ! i\<bar>)"

definition safe_board :: "int list \<Rightarrow> bool" where
  "safe_board b \<longleftrightarrow> (\<forall>row < length b. safe_at row b)"

fun boards :: "nat \<Rightarrow> int list list" where
  "boards 0 = [[]]"
| "boards (Suc n) = concat (map (\<lambda>c. map ((#) c) (boards n)) [1..8])"

definition solutions :: "int list \<Rightarrow> int list list" where
  "solutions pre = filter safe_board (map ((@) pre) (boards (8 - length pre)))"

declare find_queue.simps [simp del] try_cols.simps [simp del]

lemma safe_board_prefix: "safe_board (p @ q) \<Longrightarrow> safe_board p"
  unfolding safe_board_def
proof (intro allI impI)
  fix row
  assume a: "\<forall>row < length (p @ q). safe_at row (p @ q)" and r: "row < length p"
  then have "safe_at row (p @ q)" by simp
  then show "safe_at row p" using r by (auto simp: safe_at_def nth_append)
qed

lemma safe_board_snoc: "safe_board (p @ [c]) \<longleftrightarrow> safe_board p \<and> safe_at (length p) (p @ [c])"
proof
  assume "safe_board (p @ [c])"
  then show "safe_board p \<and> safe_at (length p) (p @ [c])"
    using safe_board_prefix [of p "[c]"] by (simp add: safe_board_def)
next
  assume a: "safe_board p \<and> safe_at (length p) (p @ [c])"
  have "safe_at row (p @ [c])" if "row < length p" for row
    using a that by (auto simp: safe_board_def safe_at_def nth_append)
  with a show "safe_board (p @ [c])" by (auto simp: safe_board_def less_Suc_eq)
qed

lemma check_safe:
  assumes "length vec = 9" "row < 8" "take row vec = p" "vec ! row = c"
  shows "check row c vec \<longleftrightarrow> safe_at row (p @ [c])"
proof -
  have p: "length p = row" "\<And>i. i < row \<Longrightarrow> p ! i = vec ! i" using assms by auto
  then show ?thesis
    using assms(4) by (auto simp: check_def safe_at_def list_all_iff nth_append)
qed

lemma solutions_unsafe: "\<not> safe_board p \<Longrightarrow> solutions p = []"
  using safe_board_prefix by (auto simp: solutions_def filter_empty_conv)

lemma solutions_step:
  assumes "length p < 8"
  shows "solutions p = concat (map (\<lambda>c. solutions (p @ [c])) [1..8])"
proof -
  obtain n where n: "8 - length p = Suc n" "7 - length p = n" using assms by (cases "8 - length p") auto
  have e: "map ((@) (p @ [c])) bs = map (\<lambda>xs. p @ c # xs) bs" for c bs by simp
  show ?thesis
    by (simp add: solutions_def n filter_concat map_concat comp_def e)
qed

lemma solutions_full: "length p = 8 \<Longrightarrow> solutions p = (if safe_board p then [p] else [])"
  by (simp add: solutions_def)

text \<open>What the search does to its state: each solution is counted and one line printed for it.\<close>

definition finds :: "queens \<Rightarrow> int list list \<Rightarrow> queens \<Rightarrow> bool" where
  "finds q bs q' \<longleftrightarrow> qtotal q' = qtotal q + int (length bs) \<and> length (qvec q') = 9 \<and> qvec q' ! 8 = 0 \<and>
     qout q' = qout q @ map (\<lambda>b. tl b @ [0]) bs"

lemma finds_trans: "finds q bs q' \<Longrightarrow> finds q' cs q'' \<Longrightarrow> finds q (bs @ cs) q''"
  by (auto simp: finds_def)

lemma print_line:
  assumes "length v = 9" "v ! 8 = 0" "take 8 v = b"
  shows "map (\<lambda>i. v ! i) [1..<9] = tl b @ [0 :: int]"
proof (rule nth_equalityI)
  show l: "length (map (\<lambda>i. v ! i) [1..<9]) = length (tl b @ [0])" using assms by auto
  fix i
  assume "i < length (map (\<lambda>i. v ! i) [1..<9])"
  then have i: "i < 8" by simp
  show "map (\<lambda>i. v ! i) [1..<9] ! i = (tl b @ [0]) ! i"
  proof (cases "i = 7")
    case True
    then show ?thesis using assms by (auto simp: nth_append)
  next
    case False
    then have "i < 7" using i by simp
    moreover have "length (tl b) = 7" using assms by auto
    ultimately show ?thesis using assms by (auto simp: nth_append nth_tl)
  qed
qed

lemma take_prefix_eq: "take (n + 1) xs = s @ [x] \<Longrightarrow> length s = n \<Longrightarrow> take n xs = s"
  by (drule arg_cong [of _ _ "take n"]) simp

lemma search_finds:
  "length (qvec q) = 9 \<Longrightarrow> qvec q ! 8 = 0 \<Longrightarrow> row \<le> 8 \<Longrightarrow> take row (qvec q) = p \<Longrightarrow> safe_board p \<Longrightarrow>
     finds q (solutions p) (find_queue row q) \<and> take row (qvec (find_queue row q)) = p"
  "length (qvec r) = 9 \<Longrightarrow> qvec r ! 8 = 0 \<Longrightarrow> ro < 8 \<Longrightarrow> take ro (qvec r) = s \<Longrightarrow> safe_board s \<Longrightarrow> 1 \<le> i \<Longrightarrow>
     finds r (concat (map (\<lambda>c. solutions (s @ [c])) [i..8])) (try_cols ro i r) \<and>
     take ro (qvec (try_cols ro i r)) = s"
proof (induction row q and ro i r arbitrary: p and s rule: find_queue_try_cols.induct)
  case (1 row q)
  show ?case
  proof (cases "row = 8")
    case True
    have lp: "length p = 8" using "1.prems" True by auto
    have "map (\<lambda>i. qvec q ! i) [1..<9] = tl p @ [0]" using print_line [of "qvec q" p] "1.prems" True by simp
    then show ?thesis
      using "1.prems" True lp
      by (simp add: find_queue.simps print_queen_def finds_def solutions_full)
  next
    case False
    then have r: "row < 8" "\<not> 8 \<le> row" using "1.prems"(3) by auto
    have lp: "length p = row" using "1.prems" r by auto
    have "finds q (concat (map (\<lambda>c. solutions (p @ [c])) [1..8])) (try_cols row 1 q) \<and>
        take row (qvec (try_cols row 1 q)) = p"
      by (rule "1.IH") (use "1.prems" r in auto)
    then show ?thesis using r lp solutions_step [of p] by (subst (1 2) find_queue.simps) simp
  qed
next
  case (2 ro i r)
  show ?case
  proof (cases "i < 9")
    case False
    then show ?thesis using "2.prems" by (simp add: try_cols.simps finds_def)
  next
    case True
    define q1 where "q1 = r\<lparr>qvec := (qvec r)[ro := i]\<rparr>"
    define q2 where "q2 = (if check ro i (qvec q1) then find_queue (ro + 1) q1 else q1)"
    have q1: "length (qvec q1) = 9" "qvec q1 ! 8 = 0" "take ro (qvec q1) = s" "qvec q1 ! ro = i"
        "qtotal q1 = qtotal r" "qout q1 = qout r"
      using "2.prems"(1-4) by (auto simp: q1_def)
    have t1: "take (ro + 1) (qvec q1) = s @ [i]" using q1 "2.prems"(3) by (simp add: take_Suc_conv_app_nth)
    have ls: "length s = ro" using "2.prems"(1,3,4) by auto
    have chk: "check ro i (qvec q1) \<longleftrightarrow> safe_board (s @ [i])"
      using check_safe [OF q1(1) "2.prems"(3) q1(3,4)] safe_board_snoc [of s i] "2.prems"(5) ls by simp
    have f2: "finds r (solutions (s @ [i])) q2 \<and> take ro (qvec q2) = s"
    proof (cases "check ro i (qvec q1)")
      case c: True
      have "finds q1 (solutions (s @ [i])) (find_queue (ro + 1) q1) \<and>
          take (ro + 1) (qvec (find_queue (ro + 1) q1)) = s @ [i]"
        by (rule "2.IH"(1) [OF _ refl, folded q1_def]) (use True "2.prems"(3) q1 t1 chk c in auto)
      moreover from this have "take ro (qvec (find_queue (ro + 1) q1)) = s"
        by (rule take_prefix_eq [OF conjunct2 ls])
      ultimately show ?thesis using c q1 by (auto simp: q2_def finds_def)
    next
      case False
      then show ?thesis using q1 chk solutions_unsafe by (auto simp: q2_def finds_def)
    qed
    have "finds q2 (concat (map (\<lambda>c. solutions (s @ [c])) [i + 1..8])) (try_cols ro (i + 1) q2) \<and>
        take ro (qvec (try_cols ro (i + 1) q2)) = s"
      by (rule "2.IH"(2) [OF _ refl refl, folded q1_def q2_def]) (use True "2.prems"(3,5,6) f2 in \<open>auto simp: finds_def\<close>)
    moreover have "try_cols ro i r = try_cols ro (i + 1) q2"
      using True "2.prems"(3) by (subst try_cols.simps) (simp add: q1_def q2_def Let_def)
    moreover have "[i..8] = i # [i + 1..8]" using True by (simp add: upto_rec1)
    ultimately show ?thesis using f2 finds_trans by auto
  qed
qed

text \<open>
  C11: The eight queens search is exhaustive and exact: starting from a fresh object it terminates,
  and \<open>total\<close> is the number of all placements of one queen per row (columns 1 to 8) in which no
  two queens share a column or a diagonal. For each of them, in lexicographic order, one line
  is printed; the line lists the columns of rows 1 to 7 followed by a zero, since
  \<open>print_queen\<close> shows \<open>vec[1..8]\<close> while the solution sits in \<open>vec[0..7]\<close>.
\<close>

theorem queens_exact:
  "qtotal (find_queue 0 Queens_new) = int (length (filter safe_board (boards 8))) \<and>
   qout (find_queue 0 Queens_new) = map (\<lambda>b. tl b @ [0]) (filter safe_board (boards 8))"
proof -
  have "finds Queens_new (solutions []) (find_queue 0 Queens_new)"
    using search_finds(1) [of Queens_new 0 "[]"] by (simp add: Queens_new_def safe_board_def)
  moreover have "map ((@) []) (boards 8) = boards 8" by (simp add: map_idI)
  ultimately show ?thesis by (simp add: finds_def solutions_def Queens_new_def)
qed

end
