(* ===== verification/Util_Lock.thy ===== *)
theory Util_Lock
  imports Mg_Prelude
begin

text \<open>
  The synchronisation classes of \<^verbatim>\<open>utils/\<close>: the spin lock (\<^verbatim>\<open>utils/lock.h\<close>), the connection pool
  (\<^verbatim>\<open>utils/connection_pool.h\<close>) and the blocking queue \<open>Solution\<close> (\<^verbatim>\<open>utils/algorithm.h\<close>). Threads
  interleave; one step is one atomic operation of one thread: a \<open>test_and_set\<close>, one memory access, or
  a stretch of code that holds a \<open>std::mutex\<close> from taking it to releasing it or waiting.
\<close>

section \<open>SpinMutex and SpinLock\<close>

record SpinMutex =
  sm_mutex :: bool

definition SpinMutex_new :: SpinMutex where
  "SpinMutex_new = \<lparr>sm_mutex = False\<rparr>"

text \<open>\<open>atomic_flag::test_and_set\<close> sets the flag and returns what it was: one round of the loop of \<open>lock\<close>.\<close>

definition test_and_set :: "SpinMutex \<Rightarrow> bool \<times> SpinMutex" where
  "test_and_set m = (sm_mutex m, m\<lparr>sm_mutex := True\<rparr>)"

definition unlock :: "SpinMutex \<Rightarrow> SpinMutex" where
  "unlock m = m\<lparr>sm_mutex := False\<rparr>"

text \<open>
  A thread that opens a scope with a \<open>SpinLock\<close>, works on the data the lock protects (reads it, then
  writes what its operation makes of it) and leaves the scope. \<open>Locking\<close> is the loop of \<open>lock\<close> in
  the constructor.
\<close>

datatype 'd scope = NoGuard | Locking | Guarded | Loaded 'd | Stored

record 'd spin_sys =
  ss_mtx :: SpinMutex
  ss_scope :: "nat \<Rightarrow> 'd scope"
  ss_data :: 'd
  ss_done :: "nat list"

definition spin_init :: "'d \<Rightarrow> 'd spin_sys" where
  "spin_init d = \<lparr>ss_mtx = SpinMutex_new, ss_scope = (\<lambda>_. NoGuard), ss_data = d, ss_done = []\<rparr>"

inductive spin_step :: "(nat \<Rightarrow> 'd \<Rightarrow> 'd) \<Rightarrow> 'd spin_sys \<Rightarrow> 'd spin_sys \<Rightarrow> bool" for work where
  construct: "ss_scope s t = NoGuard \<Longrightarrow> spin_step work s (s\<lparr>ss_scope := (ss_scope s)(t := Locking)\<rparr>)"
| spin: "ss_scope s t = Locking \<Longrightarrow> test_and_set (ss_mtx s) = (True, m) \<Longrightarrow> spin_step work s (s\<lparr>ss_mtx := m\<rparr>)"
| enter: "ss_scope s t = Locking \<Longrightarrow> test_and_set (ss_mtx s) = (False, m) \<Longrightarrow>
    spin_step work s (s\<lparr>ss_mtx := m, ss_scope := (ss_scope s)(t := Guarded)\<rparr>)"
| load_data: "ss_scope s t = Guarded \<Longrightarrow> spin_step work s (s\<lparr>ss_scope := (ss_scope s)(t := Loaded (ss_data s))\<rparr>)"
| store_data: "ss_scope s t = Loaded d \<Longrightarrow>
    spin_step work s (s\<lparr>ss_scope := (ss_scope s)(t := Stored), ss_data := work t d, ss_done := ss_done s @ [t]\<rparr>)"
| destroy: "ss_scope s t = Stored \<Longrightarrow>
    spin_step work s (s\<lparr>ss_mtx := unlock (ss_mtx s), ss_scope := (ss_scope s)(t := NoGuard)\<rparr>)"

fun busy :: "'d scope \<Rightarrow> bool" where
  "busy NoGuard = False"
| "busy Locking = False"
| "busy _ = True"

definition inside :: "'d spin_sys \<Rightarrow> nat \<Rightarrow> bool" where
  "inside s t = busy (ss_scope s t)"

definition spin_inv :: "(nat \<Rightarrow> 'd \<Rightarrow> 'd) \<Rightarrow> 'd \<Rightarrow> 'd spin_sys \<Rightarrow> bool" where
  "spin_inv work d0 s \<longleftrightarrow> (\<forall>i j. inside s i \<longrightarrow> inside s j \<longrightarrow> i = j) \<and>
     (sm_mutex (ss_mtx s) \<longleftrightarrow> (\<exists>i. inside s i)) \<and>
     (\<forall>i d. ss_scope s i = Loaded d \<longrightarrow> d = ss_data s) \<and> ss_data s = fold work (ss_done s) d0"

lemmas spin_defs = spin_inv_def inside_def test_and_set_def unlock_def SpinMutex_new_def spin_init_def

lemma spin_inv_init: "spin_inv work d0 (spin_init d0)"
  by (simp add: spin_defs)

lemma spin_inv_step: "spin_step work s s' \<Longrightarrow> spin_inv work d0 s \<Longrightarrow> spin_inv work d0 s'"
proof (induction rule: spin_step.induct)
  case (construct s t)
  then have "inside (s\<lparr>ss_scope := (ss_scope s)(t := Locking)\<rparr>) = inside s" by (auto simp: inside_def fun_eq_iff)
  with construct show ?case by (auto simp: spin_inv_def)
next
  case (load_data s t)
  then have "inside (s\<lparr>ss_scope := (ss_scope s)(t := Loaded (ss_data s))\<rparr>) = inside s" by (auto simp: inside_def fun_eq_iff)
  with load_data show ?case by (auto simp: spin_inv_def)
next
  case (store_data s t d)
  let ?u = "s\<lparr>ss_scope := (ss_scope s)(t := Stored), ss_data := work t d, ss_done := ss_done s @ [t]\<rparr>"
  have ins: "inside ?u = inside s" using store_data.hyps by (auto simp: inside_def fun_eq_iff)
  have "i = t" if "inside s i" for i
    using store_data that unfolding spin_inv_def by (metis busy.simps(4) inside_def)
  then have "ss_scope ?u i \<noteq> Loaded x" for i x
    by (cases "i = t") (auto simp: inside_def)
  with store_data show ?case unfolding spin_inv_def ins by auto
next
  case (destroy s t)
  have "i = t" if "inside s i" for i
    using destroy that unfolding spin_inv_def by (metis busy.simps(5) inside_def)
  then have "\<not> inside (s\<lparr>ss_mtx := unlock (ss_mtx s), ss_scope := (ss_scope s)(t := NoGuard)\<rparr>) i" for i
    by (cases "i = t") (auto simp: inside_def)
  with destroy show ?case by (auto simp: spin_inv_def unlock_def)
qed (auto simp: spin_defs split: if_splits)

lemma spin_inv_reachable:
  "(spin_step work)\<^sup>*\<^sup>* s s' \<Longrightarrow> spin_inv work d0 s \<Longrightarrow> spin_inv work d0 s'"
  by (induction rule: rtranclp_induct) (auto intro: spin_inv_step)

text \<open>The thread inside can always finish its scope, and then the lock is free.\<close>

definition frees :: "(nat \<Rightarrow> 'd \<Rightarrow> 'd) \<Rightarrow> nat \<Rightarrow> 'd spin_sys \<Rightarrow> bool" where
  "frees work i s \<longleftrightarrow> (\<exists>s'. (spin_step work)\<^sup>*\<^sup>* s s' \<and> \<not> sm_mutex (ss_mtx s') \<and>
     (\<forall>t. t \<noteq> i \<longrightarrow> ss_scope s' t = ss_scope s t))"

lemma frees_step:
  assumes "spin_step work s u" "frees work i u" "\<forall>t. t \<noteq> i \<longrightarrow> ss_scope u t = ss_scope s t"
  shows "frees work i s"
  using assms unfolding frees_def by (metis converse_rtranclp_into_rtranclp)

lemma frees_free: "\<not> sm_mutex (ss_mtx s) \<Longrightarrow> frees work i s"
  unfolding frees_def by blast

lemma frees_Stored: "ss_scope s i = Stored \<Longrightarrow> frees work i s"
  by (rule frees_step [OF spin_step.destroy]) (auto intro: frees_free simp: unlock_def)

lemma frees_Loaded: "ss_scope s i = Loaded d \<Longrightarrow> frees work i s"
  by (rule frees_step [OF spin_step.store_data]) (auto intro: frees_Stored)

lemma frees_Guarded: "ss_scope s i = Guarded \<Longrightarrow> frees work i s"
  by (rule frees_step [OF spin_step.load_data]) (auto intro: frees_Loaded)

lemma spin_leave: "inside s i \<Longrightarrow> frees work i s"
  by (cases "ss_scope s i") (auto simp: inside_def intro: frees_Guarded frees_Loaded frees_Stored)

lemma spin_enter_free:
  assumes "ss_scope s t = Locking" "\<not> sm_mutex (ss_mtx s)"
  shows "\<exists>u. spin_step work s u \<and> ss_scope u t = Guarded"
proof -
  have "test_and_set (ss_mtx s) = (False, (ss_mtx s)\<lparr>sm_mutex := True\<rparr>)"
    using assms(2) by (simp add: test_and_set_def)
  from spin_step.enter [OF assms(1) this, of work] show ?thesis by force
qed

lemma spin_can_enter:
  assumes "spin_inv work d0 s" "ss_scope s t = Locking"
  shows "\<exists>u. (spin_step work)\<^sup>*\<^sup>* s u \<and> ss_scope u t = Guarded"
proof (cases "sm_mutex (ss_mtx s)")
  case True
  with assms(1) obtain i where i: "inside s i" by (auto simp: spin_inv_def)
  with assms(2) have "t \<noteq> i" by (auto simp: inside_def)
  with spin_leave [OF i, of work] assms(2) obtain s' where
    "(spin_step work)\<^sup>*\<^sup>* s s'" "\<not> sm_mutex (ss_mtx s')" "ss_scope s' t = Locking"
    by (auto simp: frees_def)
  then show ?thesis
    using spin_enter_free [of s' t work] by (meson rtranclp.rtrancl_into_rtrancl)
next
  case False
  then show ?thesis using spin_enter_free [OF assms(2)] by (meson r_into_rtranclp)
qed

section \<open>ConnectionPool and ConnectionGuard\<close>

text \<open>
  \<open>Inl\<close> a timeout: the caller waits on \<open>_non_empty\<close>. \<open>Inr\<close> the connection returned, \<^const>\<open>NULL\<close>
  for none. \<open>get_connection\<close> is the call up to its first wait, \<open>get_woken\<close> what it does after a
  notification (or a spurious wake-up), \<open>get_timeout\<close> after \<open>wait_for\<close> has reported the timeout.
\<close>

fun get_connection :: "int \<Rightarrow> addr list \<Rightarrow> (int + addr) \<times> addr list" where
  "get_connection timeout [] = (Inl timeout, [])"
| "get_connection timeout (c # pool) = (Inr c, pool)"

definition get_woken :: "int \<Rightarrow> addr list \<Rightarrow> (int + addr) \<times> addr list" where
  "get_woken timeout pool = get_connection timeout pool"

fun get_timeout :: "addr list \<Rightarrow> addr \<times> addr list" where
  "get_timeout [] = (NULL, [])"
| "get_timeout (c # pool) = (c, pool)"

definition give_back :: "addr \<Rightarrow> addr list \<Rightarrow> addr list option" where
  "give_back c pool = (if c = NULL then None else Some (pool @ [c]))"

definition add_connection :: "addr \<Rightarrow> addr list \<Rightarrow> addr list option" where
  "add_connection c pool = give_back c pool"

text \<open>A \<open>ConnectionGuard\<close>: not there, waiting in its constructor, or constructed with its \<open>_conn\<close>.\<close>

datatype cguard = GNone | GWait int | GConn addr

definition guard_of :: "int + addr \<Rightarrow> cguard" where
  "guard_of r = (case r of Inl timeout \<Rightarrow> GWait timeout | Inr c \<Rightarrow> GConn c)"

definition guard_construct :: "addr list \<Rightarrow> cguard \<times> addr list" where
  "guard_construct pool = (let (r, pool) = get_connection 100 pool in (guard_of r, pool))"

definition guard_destruct :: "addr \<Rightarrow> addr list \<Rightarrow> addr list option" where
  "guard_destruct c pool = (if c \<noteq> NULL then give_back c pool else Some pool)"

definition check_available :: "cguard \<Rightarrow> bool" where
  "check_available g = (case g of GConn c \<Rightarrow> c \<noteq> NULL | _ \<Rightarrow> False)"

record cpool =
  cp_pool :: "addr list"
  cp_guards :: "cguard list"

inductive cpool_step :: "cpool \<Rightarrow> cpool \<Rightarrow> bool" where
  cp_add: "add_connection c (cp_pool s) = Some q \<Longrightarrow> c \<notin> set (cp_pool s) \<Longrightarrow>
    GConn c \<notin> set (cp_guards s) \<Longrightarrow> cpool_step s (s\<lparr>cp_pool := q\<rparr>)"
| cp_guard: "i < length (cp_guards s) \<Longrightarrow> cp_guards s ! i = GNone \<Longrightarrow> guard_construct (cp_pool s) = (g, q) \<Longrightarrow>
    cpool_step s (s\<lparr>cp_pool := q, cp_guards := (cp_guards s)[i := g]\<rparr>)"
| cp_wake: "i < length (cp_guards s) \<Longrightarrow> cp_guards s ! i = GWait tmo \<Longrightarrow> get_woken tmo (cp_pool s) = (r, q) \<Longrightarrow>
    cpool_step s (s\<lparr>cp_pool := q, cp_guards := (cp_guards s)[i := guard_of r]\<rparr>)"
| cp_timeout: "i < length (cp_guards s) \<Longrightarrow> cp_guards s ! i = GWait tmo \<Longrightarrow> 0 < tmo \<Longrightarrow>
    get_timeout (cp_pool s) = (c, q) \<Longrightarrow>
    cpool_step s (s\<lparr>cp_pool := q, cp_guards := (cp_guards s)[i := GConn c]\<rparr>)"
| cp_leave: "i < length (cp_guards s) \<Longrightarrow> cp_guards s ! i = GConn c \<Longrightarrow> guard_destruct c (cp_pool s) = Some q \<Longrightarrow>
    cpool_step s (s\<lparr>cp_pool := q, cp_guards := (cp_guards s)[i := GNone]\<rparr>)"

fun held :: "cguard \<Rightarrow> addr multiset" where
  "held (GConn c) = (if c = NULL then {#} else {#c#})"
| "held _ = {#}"

text \<open>All connections of a system: those in the pool and those that guards hold.\<close>

definition cp_all :: "cpool \<Rightarrow> addr multiset" where
  "cp_all s = mset (cp_pool s) + sum_mset (image_mset held (mset (cp_guards s)))"

definition cp_inv :: "cpool \<Rightarrow> bool" where
  "cp_inv s \<longleftrightarrow> NULL \<notin> set (cp_pool s) \<and> (\<forall>c. count (cp_all s) c \<le> 1)"

lemma held_update:
  assumes "i < length gs"
  shows "sum_mset (image_mset held (mset (gs[i := g]))) + held (gs ! i) =
    sum_mset (image_mset held (mset gs)) + held g"
proof -
  have "mset gs = add_mset (gs ! i) (mset gs - {#gs ! i#})" using assms by simp
  then have "sum_mset (image_mset held (mset gs)) = held (gs ! i) + sum_mset (image_mset held (mset gs - {#gs ! i#}))"
    by (metis image_mset_add_mset sum_mset.insert)
  then show ?thesis using assms by (simp add: mset_update)
qed

text \<open>A step that moves the connections of one guard keeps their total.\<close>

lemma cp_all_move:
  assumes "i < length (cp_guards s)" "mset q + held g = mset (cp_pool s) + held (cp_guards s ! i)"
  shows "cp_all (s\<lparr>cp_pool := q, cp_guards := (cp_guards s)[i := g]\<rparr>) = cp_all s"
proof -
  define old new where "old = sum_mset (image_mset held (mset (cp_guards s)))"
    and "new = sum_mset (image_mset held (mset ((cp_guards s)[i := g])))"
  have "mset q + new + held (cp_guards s ! i) = mset q + held g + old"
    using held_update [OF assms(1), of g] by (simp add: old_def new_def ac_simps)
  also have "\<dots> = mset (cp_pool s) + old + held (cp_guards s ! i)"
    using assms(2) by (simp add: ac_simps)
  finally show ?thesis by (simp add: cp_all_def old_def new_def)
qed

lemma get_connection_keeps:
  "get_connection timeout p = (r, q) \<Longrightarrow> NULL \<notin> set p \<Longrightarrow> mset q + held (guard_of r) = mset p \<and> NULL \<notin> set q"
  by (cases p) (auto simp: guard_of_def)

lemma get_timeout_keeps:
  "get_timeout p = (c, q) \<Longrightarrow> NULL \<notin> set p \<Longrightarrow> mset q + held (GConn c) = mset p \<and> NULL \<notin> set q"
  by (cases p) auto


lemma give_back_keeps:
  "guard_destruct c p = Some q \<Longrightarrow> NULL \<notin> set p \<Longrightarrow> mset q = mset p + held (GConn c) \<and> NULL \<notin> set q"
  by (auto simp: guard_destruct_def give_back_def split: if_splits)

lemma held_member: "c \<in># held g \<longleftrightarrow> g = GConn c \<and> c \<noteq> NULL"
  by (cases g) auto

lemma fresh_not_held: "GConn c \<notin> set gs \<Longrightarrow> c \<notin># sum_mset (image_mset held (mset gs))"
  by (auto simp: held_member)

lemma cpool_step_total:
  "cpool_step s s' \<Longrightarrow> cp_inv s \<Longrightarrow> cp_inv s' \<and> cp_all s \<subseteq># cp_all s' \<and> length (cp_guards s') = length (cp_guards s)"
proof (induction rule: cpool_step.induct)
  case (cp_add c s q)
  then have "cp_all (s\<lparr>cp_pool := q\<rparr>) = add_mset c (cp_all s)" "c \<notin># cp_all s" "NULL \<notin> set q"
    using fresh_not_held [of c "cp_guards s"]
    by (auto simp: cp_all_def cp_inv_def add_connection_def give_back_def split: if_splits)
  with cp_add show ?case by (auto simp: cp_inv_def not_in_iff)
next
  case (cp_guard i s g q)
  then have "mset q + held g = mset (cp_pool s) + held (cp_guards s ! i)" "NULL \<notin> set q"
    using get_connection_keeps [of 100 "cp_pool s"]
    by (auto simp: guard_construct_def cp_inv_def split: prod.splits)
  with cp_guard show ?case using cp_all_move [of i s q g] by (auto simp: cp_inv_def)
next
  case (cp_wake i s tmo r q)
  then have "mset q + held (guard_of r) = mset (cp_pool s) + held (cp_guards s ! i)" "NULL \<notin> set q"
    using get_connection_keeps [of tmo "cp_pool s" r q] by (auto simp: get_woken_def cp_inv_def)
  with cp_wake show ?case using cp_all_move [of i s q "guard_of r"] by (auto simp: cp_inv_def)
next
  case (cp_timeout i s tmo c q)
  then have "mset q + held (GConn c) = mset (cp_pool s) + held (cp_guards s ! i)" "NULL \<notin> set q"
    using get_timeout_keeps [of "cp_pool s" c q] by (auto simp: cp_inv_def)
  with cp_timeout show ?case using cp_all_move [of i s q "GConn c"] by (auto simp: cp_inv_def)
next
  case (cp_leave i s c q)
  then have "mset q + held GNone = mset (cp_pool s) + held (cp_guards s ! i)" "NULL \<notin> set q"
    using give_back_keeps [of c "cp_pool s" q] by (auto simp: cp_inv_def)
  with cp_leave show ?case using cp_all_move [of i s q GNone] by (auto simp: cp_inv_def)
qed


lemma cpool_reachable:
  "cpool_step\<^sup>*\<^sup>* s s' \<Longrightarrow> cp_inv s \<Longrightarrow> cp_inv s' \<and> cp_all s \<subseteq># cp_all s' \<and> length (cp_guards s') = length (cp_guards s)"
proof (induction rule: rtranclp_induct)
  case (step u v)
  then show ?case using cpool_step_total [of u v] subset_mset.trans by fastforce
qed simp

text \<open>Two guards with the same connection would make it occur twice.\<close>

lemma cp_inv_exclusive:
  assumes "cp_inv s" "i < length (cp_guards s)" "j < length (cp_guards s)" "i \<noteq> j"
    "cp_guards s ! i = GConn c" "cp_guards s ! j = GConn c"
  shows "c = NULL"
proof (rule ccontr)
  assume "c \<noteq> NULL"
  let ?gs = "(cp_guards s)[i := GNone]"
  have "GConn c \<in> set ?gs" using assms by (metis length_list_update nth_list_update_neq nth_mem)
  then have "c \<in># sum_mset (image_mset held (mset ?gs))"
    using \<open>c \<noteq> NULL\<close> by (auto simp: held_member intro!: bexI [of _ "GConn c"])
  moreover have "sum_mset (image_mset held (mset (cp_guards s))) = add_mset c (sum_mset (image_mset held (mset ?gs)))"
    using held_update [OF assms(2), of GNone] assms(5) \<open>c \<noteq> NULL\<close> by simp
  ultimately have "2 \<le> count (cp_all s) c"
    unfolding cp_all_def by (simp add: Suc_le_eq)
  with assms(1) show False by (auto simp: cp_inv_def dest: spec [of _ c])
qed

lemma cp_inv_not_in_pool:
  assumes "cp_inv s" "i < length (cp_guards s)" "cp_guards s ! i = GConn c" "c \<noteq> NULL"
  shows "c \<notin> set (cp_pool s)"
proof
  assume "c \<in> set (cp_pool s)"
  moreover have "c \<in># sum_mset (image_mset held (mset (cp_guards s)))"
    using assms(2-4) by (auto simp: held_member intro!: bexI [of _ "GConn c"] dest: nth_mem)
  ultimately have "1 \<le> count (mset (cp_pool s)) c" "1 \<le> count (sum_mset (image_mset held (mset (cp_guards s)))) c"
    by (simp_all add: Suc_le_eq)
  then have "1 + 1 \<le> count (cp_all s) c" unfolding cp_all_def count_union by (rule add_mono)
  with assms(1) show False by (auto simp: cp_inv_def dest: spec [of _ c])
qed

lemma cp_inv_pool_distinct:
  assumes "cp_inv s"
  shows "distinct (cp_pool s)"
proof -
  have "count (mset (cp_pool s)) c \<le> 1" for c
    using assms by (auto simp: cp_inv_def cp_all_def dest!: spec [of _ c])
  then show ?thesis
    by (metis (no_types, lifting) One_nat_def count_greater_zero_iff distinct_count_atmost_1 le_antisym
      not_in_iff set_mset_mset Suc_leI)
qed

text \<open>
  A waiting guard can get a connection as long as there is one: it takes the front of the pool, or the
  guard that holds a connection leaves first.
\<close>

lemma cpool_wake_front:
  assumes "i < length (cp_guards s)" "cp_guards s ! i = GWait tmo" "cp_pool s = c # q"
  shows "cpool_step s (s\<lparr>cp_pool := q, cp_guards := (cp_guards s)[i := GConn c]\<rparr>)"
  using cpool_step.cp_wake [OF assms(1,2), of "Inr c" q] assms(3) by (simp add: get_woken_def guard_of_def)

lemma cpool_can_get:
  assumes inv: "cp_inv s" "cp_all s \<noteq> {#}" and i: "i < length (cp_guards s)" "cp_guards s ! i = GWait tmo"
  shows "\<exists>u c. cpool_step\<^sup>*\<^sup>* s u \<and> cp_guards u ! i = GConn c \<and> c \<noteq> NULL"
proof (cases "cp_pool s")
  case (Cons c q)
  then have "c \<noteq> NULL" using inv(1) by (auto simp: cp_inv_def)
  then show ?thesis using cpool_wake_front [OF i Cons] i(1) by (auto intro!: r_into_rtranclp)
next
  case Nil
  then obtain c where "c \<in># sum_mset (image_mset held (mset (cp_guards s)))"
    using inv(2) by (metis add.left_neutral cp_all_def mset.simps(1) multiset_nonemptyE)
  then obtain j where j: "j < length (cp_guards s)" "cp_guards s ! j = GConn c" "c \<noteq> NULL"
    by (auto simp: held_member in_set_conv_nth)
  let ?a = "s\<lparr>cp_pool := [c], cp_guards := (cp_guards s)[j := GNone]\<rparr>"
  have "i \<noteq> j" using i(2) j(2) by auto
  have "cpool_step s ?a"
    using cpool_step.cp_leave [OF j(1,2), of "[c]"] j(3) Nil by (simp add: guard_destruct_def give_back_def)
  moreover have "cpool_step ?a (?a\<lparr>cp_pool := [], cp_guards := (cp_guards ?a)[i := GConn c]\<rparr>)"
    using cpool_wake_front [of i ?a tmo c "[]"] i \<open>i \<noteq> j\<close> by simp
  ultimately have "cpool_step\<^sup>*\<^sup>* s (?a\<lparr>cp_pool := [], cp_guards := (cp_guards ?a)[i := GConn c]\<rparr>)"
    by (meson r_into_rtranclp rtranclp.rtrancl_into_rtrancl)
  then show ?thesis using i(1) j(3) by (intro exI conjI) (assumption, simp_all)
qed

section \<open>Solution\<close>

text \<open>
  \<open>Inl\<close>: the caller of \<open>get\<close> waits; \<open>Inr\<close> the element it took. \<open>sol_get_woken\<close> is the code after the
  wait: \<open>front\<close> of an empty queue is undefined. (The source calls \<open>push_back\<close> and \<open>pop_front\<close>, which
  \<open>std::queue\<close> spells \<open>push\<close> and \<open>pop\<close>.)
\<close>

fun sol_get :: "'a list \<Rightarrow> (unit + 'a) \<times> 'a list" where
  "sol_get [] = (Inl (), [])"
| "sol_get (x # q) = (Inr x, q)"

fun sol_get_woken :: "'a list \<Rightarrow> ('a \<times> 'a list) option" where
  "sol_get_woken [] = None"
| "sol_get_woken (x # q) = Some (x, q)"

definition sol_put :: "'a \<Rightarrow> 'a list \<Rightarrow> 'a list" where
  "sol_put x q = q @ [x]"

section \<open>Properties\<close>

text \<open>
  C14: The spin lock gives mutual exclusion and loses no update. However the steps of any number of
  threads interleave, at most one of them is inside a \<open>SpinLock\<close> scope, the flag is set exactly while
  one is, and the protected data is what the finished operations make of it one after the other. A
  thread that spins in \<open>lock\<close> can always still get in.
\<close>
theorem spin_lock_protects:
  assumes "(spin_step work)\<^sup>*\<^sup>* (spin_init d) s"
  shows "(\<forall>i j. inside s i \<longrightarrow> inside s j \<longrightarrow> i = j) \<and> (sm_mutex (ss_mtx s) \<longleftrightarrow> (\<exists>i. inside s i)) \<and>
    ss_data s = fold work (ss_done s) d \<and>
    (\<forall>t. ss_scope s t = Locking \<longrightarrow> (\<exists>u. (spin_step work)\<^sup>*\<^sup>* s u \<and> ss_scope u t = Guarded))"
proof -
  have inv: "spin_inv work d s" by (rule spin_inv_reachable [OF assms spin_inv_init])
  then show ?thesis using spin_can_enter [OF inv] by (simp add: spin_inv_def)
qed

text \<open>Two threads construct their guards; the second one waits for the first.\<close>

definition spin_demo :: "nat spin_sys" where
  "spin_demo = \<lparr>ss_mtx = \<lparr>sm_mutex = True\<rparr>, ss_scope = (\<lambda>_. NoGuard)(1 := Locking, 2 := Locking, 1 := Guarded),
     ss_data = 5, ss_done = []\<rparr>"

lemma spin_demo_reachable: "(spin_step (\<lambda>t d. d + t))\<^sup>*\<^sup>* (spin_init 5) spin_demo"
proof -
  let ?w = "\<lambda>t d. d + t"
  let ?a = "(spin_init (5 :: nat))\<lparr>ss_scope := (\<lambda>_. NoGuard)(1 := Locking)\<rparr>"
  let ?b = "?a\<lparr>ss_scope := (\<lambda>_. NoGuard)(1 := Locking, 2 := Locking)\<rparr>"
  have "spin_step ?w (spin_init 5) ?a"
    using spin_step.construct [of "spin_init 5" 1 ?w] by (simp add: spin_init_def)
  moreover have "spin_step ?w ?a ?b"
    using spin_step.construct [of ?a 2 ?w] by simp
  moreover have "spin_step ?w ?b spin_demo"
    using spin_step.enter [of ?b 1 "\<lparr>sm_mutex = True\<rparr>" ?w]
    by (simp add: spin_demo_def spin_init_def SpinMutex_new_def test_and_set_def)
  ultimately show ?thesis by (meson r_into_rtranclp rtranclp_trans)
qed

theorem spin_lock_protects_witness:
  "inside spin_demo 1 \<and> sm_mutex (ss_mtx spin_demo) \<and> ss_data spin_demo = fold (\<lambda>t d. d + t) (ss_done spin_demo) 5 \<and>
   (\<exists>u. (spin_step (\<lambda>t d. d + t))\<^sup>*\<^sup>* spin_demo u \<and> ss_scope u 2 = Guarded)"
proof -
  have "inside spin_demo 1" "ss_scope spin_demo 2 = Locking" by (simp_all add: inside_def spin_demo_def)
  then show ?thesis using spin_lock_protects [OF spin_demo_reachable] by blast
qed

text \<open>
  C16: The connection pool neither loses nor duplicates a connection. From a pool whose connections are
  distinct, however guards are constructed, woken (also spuriously), timed out and destroyed and
  connections are added: every connection stays in the pool or with a guard, in one place only, so two
  guards never share one; a destroyed guard never gives back the null connection. And a waiting guard can
  always still get a connection, if there were any.
\<close>
theorem connection_pool_exclusive:
  assumes "cpool_step\<^sup>*\<^sup>* \<lparr>cp_pool = cs, cp_guards = replicate n GNone\<rparr> s" "distinct cs" "NULL \<notin> set cs"
  shows "mset cs \<subseteq># cp_all s \<and> NULL \<notin> set (cp_pool s) \<and> distinct (cp_pool s) \<and>
    (\<forall>i < n. \<forall>j < n. \<forall>c. cp_guards s ! i = GConn c \<longrightarrow> c \<noteq> NULL \<longrightarrow>
       c \<notin> set (cp_pool s) \<and> (cp_guards s ! j = GConn c \<longrightarrow> i = j)) \<and>
    (\<forall>i < n. \<forall>tmo. cs \<noteq> [] \<longrightarrow> cp_guards s ! i = GWait tmo \<longrightarrow>
       (\<exists>u c. cpool_step\<^sup>*\<^sup>* s u \<and> cp_guards u ! i = GConn c \<and> c \<noteq> NULL))"
proof -
  have none: "sum_mset (replicate_mset n {#}) = {#}" by (induction n) auto
  have "cp_inv \<lparr>cp_pool = cs, cp_guards = replicate n GNone\<rparr>"
    using assms(2,3) by (simp add: cp_inv_def cp_all_def distinct_count_atmost_1 none)
  with cpool_reachable [OF assms(1)] have inv: "cp_inv s" "mset cs \<subseteq># cp_all s" "length (cp_guards s) = n"
    by (simp_all add: cp_all_def none)
  have "NULL \<notin> set (cp_pool s)" using inv(1) by (simp add: cp_inv_def)
  moreover have "cp_all s \<noteq> {#}" if "cs \<noteq> []" using inv(2) that by auto
  then have "\<forall>i < n. \<forall>tmo. cs \<noteq> [] \<longrightarrow> cp_guards s ! i = GWait tmo \<longrightarrow>
      (\<exists>u c. cpool_step\<^sup>*\<^sup>* s u \<and> cp_guards u ! i = GConn c \<and> c \<noteq> NULL)"
    using cpool_can_get [OF inv(1)] inv(3) by blast
  ultimately show ?thesis
    using inv(2,3) cp_inv_pool_distinct [OF inv(1)] cp_inv_not_in_pool [OF inv(1)] cp_inv_exclusive [OF inv(1)]
    by metis
qed

text \<open>Two guards on a pool of one connection: the second one waits and times out.\<close>

definition cpool_demo :: cpool where
  "cpool_demo = \<lparr>cp_pool = [], cp_guards = [GConn 16, GConn NULL]\<rparr>"

lemma cpool_demo_reachable: "cpool_step\<^sup>*\<^sup>* \<lparr>cp_pool = [16], cp_guards = replicate 2 GNone\<rparr> cpool_demo"
proof -
  let ?a = "\<lparr>cp_pool = [], cp_guards = [GConn 16, GNone]\<rparr>"
  let ?b = "\<lparr>cp_pool = [], cp_guards = [GConn 16, GWait 100]\<rparr>"
  have "cpool_step \<lparr>cp_pool = [16], cp_guards = replicate 2 GNone\<rparr> ?a"
    using cpool_step.cp_guard [of 0 "\<lparr>cp_pool = [16], cp_guards = replicate 2 GNone\<rparr>" "GConn 16" "[]"]
    by (simp add: guard_construct_def guard_of_def numeral_2_eq_2)
  moreover have "cpool_step ?a ?b"
    using cpool_step.cp_guard [of 1 ?a "GWait 100" "[]"] by (simp add: guard_construct_def guard_of_def)
  moreover have "cpool_step ?b cpool_demo"
    using cpool_step.cp_timeout [of 1 ?b 100 NULL "[]"] by (simp add: cpool_demo_def)
  ultimately show ?thesis by (meson r_into_rtranclp rtranclp_trans)
qed

theorem connection_pool_exclusive_witness:
  "mset [16] \<subseteq># cp_all cpool_demo \<and> NULL \<notin> set (cp_pool cpool_demo) \<and> cp_guards cpool_demo ! 1 = GConn NULL"
  using connection_pool_exclusive [OF cpool_demo_reachable] by (simp add: cpool_demo_def)

text \<open>
  \<open>Solution\<close> waits with \<open>if\<close> instead of \<open>while\<close>. A consumer that waits is woken by a producer's
  \<open>put\<close>, but when another consumer's \<open>get\<close> takes the element first, it reads the front of an empty
  queue; \<open>ConnectionPool\<close>, which re-tests in a loop, waits again in the same situation.
\<close>
theorem solution_stolen_wakeup:
  "fst (sol_get []) = Inl () \<and> sol_get (sol_put x []) = (Inr x, []) \<and>
   sol_get_woken (snd (sol_get (sol_put x []))) = None \<and>
   fst (get_woken timeout (snd (get_connection timeout [c]))) = Inl timeout"
  by (simp add: sol_put_def get_woken_def)

end
