(* ===== verification/Util_Buffer.thy ===== *)
theory Util_Buffer
  imports Mg_Pool
begin

unbundle bit_operations_syntax

text \<open>
  The arena \<open>BufferPool\<close> of \<^verbatim>\<open>utils/buffer.h\<close>. \<open>new char[n]\<close> is the allocator parameter of
  \<open>Mg_Pool\<close>: it sees the live blocks and returns an address, null standing for the exception
  \<open>bad_alloc\<close>. \<^term>\<open>None\<close> is that exception or a failed assertion. The operations run inside a
  \<open>SpinLock\<close> scope (theory \<open>Util_Lock\<close>), so each is one atomic step.
\<close>

section \<open>An interface: allocators that track what they handed out\<close>

text \<open>Serving a list of requests, collecting the regions handed out (last one first).\<close>

fun alloc_all :: "('r \<Rightarrow> 's \<Rightarrow> (addr \<times> 's) option) \<Rightarrow> ('r \<Rightarrow> nat) \<Rightarrow> 'r list \<Rightarrow> 's \<Rightarrow> region list \<Rightarrow>
    (region list \<times> 's) option" where
  "alloc_all alloc bytes [] s rs = Some (rs, s)"
| "alloc_all alloc bytes (r # reqs) s rs = (case alloc r s of None \<Rightarrow> None
     | Some (a, s') \<Rightarrow> alloc_all alloc bytes reqs s' ((a, bytes r) # rs))"

locale region_allocator =
  fixes arena_ok :: "'s \<Rightarrow> region list \<Rightarrow> bool"
    and alloc :: "'r \<Rightarrow> 's \<Rightarrow> (addr \<times> 's) option"
    and bytes :: "'r \<Rightarrow> nat"
  assumes ok_disjoint: "arena_ok s rs \<Longrightarrow> pairwise_disjoint rs"
    and alloc_ok: "arena_ok s rs \<Longrightarrow> alloc r s = Some (a, s') \<Longrightarrow> arena_ok s' ((a, bytes r) # rs)"
begin

lemma alloc_all_ok:
  "arena_ok s rs \<Longrightarrow> alloc_all alloc bytes reqs s rs = Some (rs', s') \<Longrightarrow>
     arena_ok s' rs' \<and> pairwise_disjoint rs' \<and> map snd rs' = rev (map bytes reqs) @ map snd rs"
proof (induction reqs arbitrary: s rs)
  case Nil
  then show ?case using ok_disjoint by auto
next
  case (Cons r reqs)
  then obtain a u where "alloc r s = Some (a, u)" "alloc_all alloc bytes reqs u ((a, bytes r) # rs) = Some (rs', s')"
    by (auto split: option.splits)
  with Cons.IH [OF alloc_ok [OF Cons.prems(1)]] show ?case by auto
qed

end

section \<open>BufferPool\<close>

definition BUFFER_BLOCK_SIZE :: "64 word" where
  "BUFFER_BLOCK_SIZE = 4 * 1024"

definition LARGE_BLOCK_SIZE :: "64 word" where
  "LARGE_BLOCK_SIZE = 1024"

record BufferPool =
  ub_buffer_pool :: "region list"
  ub_memory_usage :: "64 word"
  ub_cur_ptr :: addr
  ub_cur_remain :: "64 word"

definition BufferPool_new :: BufferPool where
  "BufferPool_new = \<lparr>ub_buffer_pool = [], ub_memory_usage = 0, ub_cur_ptr = NULL, ub_cur_remain = 0\<rparr>"

definition allocate_new_block :: "allocator \<Rightarrow> 64 word \<Rightarrow> BufferPool \<Rightarrow> (addr \<times> BufferPool) option" where
  "allocate_new_block al sz p = (let result = al (ub_buffer_pool p) (unat sz) in
     if result = NULL then None
     else Some (result, p\<lparr>ub_buffer_pool := ub_buffer_pool p @ [(result, unat sz)],
       ub_memory_usage := ub_memory_usage p + sz\<rparr>))"

definition allocate_fallback :: "allocator \<Rightarrow> 64 word \<Rightarrow> BufferPool \<Rightarrow> (addr \<times> BufferPool) option" where
  "allocate_fallback al sz p =
     (if LARGE_BLOCK_SIZE \<le> sz then allocate_new_block al sz p
      else do {
        (ptr, p) \<leftarrow> allocate_new_block al BUFFER_BLOCK_SIZE p;
        let p = p\<lparr>ub_cur_ptr := ptr, ub_cur_remain := BUFFER_BLOCK_SIZE\<rparr>;
        let result = ub_cur_ptr p;
        Some (result, p\<lparr>ub_cur_ptr := ub_cur_ptr p + unat sz, ub_cur_remain := ub_cur_remain p - sz\<rparr>)
      })"

definition allocate :: "allocator \<Rightarrow> 64 word \<Rightarrow> BufferPool \<Rightarrow> (addr \<times> BufferPool) option" where
  "allocate al sz p =
     (if \<not> 0 < sz then None
      else if sz < ub_cur_remain p
      then Some (ub_cur_ptr p, p\<lparr>ub_cur_ptr := ub_cur_ptr p + unat sz, ub_cur_remain := ub_cur_remain p - sz\<rparr>)
      else allocate_fallback al sz p)"

definition allocate_align :: "allocator \<Rightarrow> 64 word \<Rightarrow> BufferPool \<Rightarrow> (addr \<times> BufferPool) option" where
  "allocate_align al sz p =
     (if \<not> 0 < sz then None
      else let align = 8 :: 32 word in
        if align AND (align - 1) = 0 then None
        else let md = ucast (word_of_nat (ub_cur_ptr p) AND ucast (align - 1) :: 64 word) :: 32 word;
                 slot = (if md = 0 then 0 else align - md);
                 needed = sz + ucast slot
             in if ub_cur_remain p < needed then allocate_fallback al sz p
                else Some (ub_cur_ptr p + unat slot,
                  p\<lparr>ub_cur_ptr := ub_cur_ptr p + unat needed, ub_cur_remain := ub_cur_remain p - needed\<rparr>))"

definition memory_usage :: "BufferPool \<Rightarrow> 64 word" where
  "memory_usage p = ub_memory_usage p"

text \<open>The destructor deletes every block of \<open>_buffer_pool\<close>; the result is what is still allocated.\<close>

definition BufferPool_delete :: "BufferPool \<Rightarrow> region list \<Rightarrow> region list" where
  "BufferPool_delete p live = fold remove1 (ub_buffer_pool p) live"

section \<open>The arena's invariant\<close>

definition window :: "BufferPool \<Rightarrow> region" where
  "window p = (ub_cur_ptr p, unat (ub_cur_remain p))"

definition arena_ok :: "BufferPool \<Rightarrow> region list \<Rightarrow> bool" where
  "arena_ok p rs \<longleftrightarrow> pairwise_disjoint rs \<and> list_all (\<lambda>r. list_ex (subregion r) (ub_buffer_pool p)) rs \<and>
     list_all (disjoint_regions (window p)) rs \<and>
     (ub_cur_remain p = 0 \<or> list_ex (subregion (window p)) (ub_buffer_pool p)) \<and>
     ub_memory_usage p = word_of_nat (sum_list (map snd (ub_buffer_pool p)))"

lemma arena_ok_new: "arena_ok BufferPool_new []"
  by (simp add: arena_ok_def BufferPool_new_def)

text \<open>A fresh block overlaps nothing that lies in the blocks the pool has.\<close>

lemma fresh_block:
  assumes "malloc_ok al" "al bs n \<noteq> NULL" "list_ex (subregion r) bs"
  shows "disjoint_regions (al bs n, n) r"
proof -
  from assms(3) obtain b where "b \<in> set bs" "subregion r b" by (auto simp: list_ex_iff)
  moreover have "disjoint_regions b (al bs n, n)"
    using assms(1,2) \<open>b \<in> set bs\<close> by (auto simp: malloc_ok_def list_all_iff disjoint_regions_sym [of b])
  ultimately show ?thesis using subregion_disjoint disjoint_regions_sym by blast
qed


lemma subregion_snoc: "list_ex (subregion r) bs \<Longrightarrow> list_ex (subregion r) (bs @ [b])"
  by (auto simp: list_ex_iff)

lemma new_block_ok:
  assumes ok: "malloc_ok al" and inv: "arena_ok p rs" and new: "allocate_new_block al sz p = Some (a, p')"
  shows "arena_ok p' ((a, unat sz) # rs)" "arena_ok p' rs" "(a, unat sz) \<in> set (ub_buffer_pool p')"
    "list_all (disjoint_regions (a, unat sz)) rs"
proof -
  from new have a: "a = al (ub_buffer_pool p) (unat sz)" "a \<noteq> NULL"
    and p': "p' = p\<lparr>ub_buffer_pool := ub_buffer_pool p @ [(a, unat sz)], ub_memory_usage := ub_memory_usage p + sz\<rparr>"
    by (auto simp: allocate_new_block_def Let_def split: if_splits)
  have fr: "disjoint_regions (a, unat sz) r" if "list_ex (subregion r) (ub_buffer_pool p)" for r
    using fresh_block [OF ok _ that] a by simp
  then show dis: "list_all (disjoint_regions (a, unat sz)) rs"
    using inv by (auto simp: arena_ok_def list_all_iff)
  have "disjoint_regions (window p) (a, unat sz)"
    using inv fr [of "window p"] disjoint_regions_sym
    by (auto simp: arena_ok_def window_def disjoint_regions_def)
  moreover show p'rs: "arena_ok p' rs"
    using inv by (auto simp: arena_ok_def p' window_def list_all_iff intro: subregion_snoc)
  ultimately show "arena_ok p' ((a, unat sz) # rs)"
    using dis by (auto simp: arena_ok_def p' window_def subregion_def)
  show "(a, unat sz) \<in> set (ub_buffer_pool p')" by (simp add: p')
qed

text \<open>Handing out the front of the window.\<close>

lemma cut_window_ok:
  assumes inv: "arena_ok p rs" and sz: "0 < sz" "sz < ub_cur_remain p"
  shows "arena_ok (p\<lparr>ub_cur_ptr := ub_cur_ptr p + unat sz, ub_cur_remain := ub_cur_remain p - sz\<rparr>)
    ((ub_cur_ptr p, unat sz) # rs)"
proof -
  have le: "unat sz < unat (ub_cur_remain p)" "unat (ub_cur_remain p - sz) = unat (ub_cur_remain p) - unat sz"
    using sz by (simp_all add: word_less_nat_alt unat_sub order_less_imp_le)
  have sub: "subregion (ub_cur_ptr p, unat sz) (window p)"
      "subregion (ub_cur_ptr p + unat sz, unat (ub_cur_remain p) - unat sz) (window p)"
    using le by (auto simp: subregion_def window_def)
  have win: "list_ex (subregion (window p)) (ub_buffer_pool p)"
    using inv sz by (auto simp: arena_ok_def)
  have trans: "list_ex (subregion r) (ub_buffer_pool p)" if "subregion r (window p)" for r
    using subregion_within [OF that win] .
  have dis: "disjoint_regions r s" if "subregion r (window p)" "s \<in> set rs" for r s
    using inv that subregion_disjoint by (auto simp: arena_ok_def list_all_iff)
  have "disjoint_regions (ub_cur_ptr p + unat sz, unat (ub_cur_remain p) - unat sz) (ub_cur_ptr p, unat sz)"
    by (auto simp: disjoint_regions_def)
  with inv show ?thesis
    using trans [OF sub(1)] trans [OF sub(2)] dis [OF sub(1)] dis [OF sub(2)] le(2)
    by (simp add: arena_ok_def window_def list_all_iff)
qed

lemma allocate_fallback_ok:
  assumes ok: "malloc_ok al" and inv: "arena_ok p rs" and sz: "0 < sz"
    and res: "allocate_fallback al sz p = Some (a, p')"
  shows "arena_ok p' ((a, unat sz) # rs)"
proof (cases "LARGE_BLOCK_SIZE \<le> sz")
  case True
  with res new_block_ok(1) [OF ok inv] show ?thesis by (simp add: allocate_fallback_def)
next
  case False
  with res obtain q where q: "allocate_new_block al BUFFER_BLOCK_SIZE p = Some (a, q)"
    and p': "p' = q\<lparr>ub_cur_ptr := a + unat sz, ub_cur_remain := BUFFER_BLOCK_SIZE - sz\<rparr>"
    by (auto simp: allocate_fallback_def bind_Some_iff)
  let ?q = "q\<lparr>ub_cur_ptr := a, ub_cur_remain := BUFFER_BLOCK_SIZE\<rparr>"
  have "list_ex (subregion (a, unat BUFFER_BLOCK_SIZE)) (ub_buffer_pool q)"
    using new_block_ok(3) [OF ok inv q] by (force simp: list_ex_iff subregion_def)
  then have "arena_ok ?q rs"
    using new_block_ok(2,4) [OF ok inv q] by (simp add: arena_ok_def window_def)
  moreover have "sz < BUFFER_BLOCK_SIZE"
    using False by (simp add: LARGE_BLOCK_SIZE_def BUFFER_BLOCK_SIZE_def word_less_nat_alt word_le_nat_alt)
  ultimately show ?thesis using cut_window_ok [of ?q rs sz] sz p' by simp
qed

lemma allocate_ok:
  assumes "malloc_ok al" "arena_ok p rs" "allocate al sz p = Some (a, p')"
  shows "arena_ok p' ((a, unat sz) # rs)"
  using assms cut_window_ok [OF assms(2), of sz] allocate_fallback_ok [OF assms(1,2), of sz a p']
  by (auto simp: allocate_def split: if_splits)

lemma allocate_arena: "malloc_ok al \<Longrightarrow> region_allocator arena_ok (allocate al) unat"
proof
  show "pairwise_disjoint rs" if "arena_ok p rs" for p rs
    using that by (simp add: arena_ok_def)
qed (rule allocate_ok)

text \<open>With the allocator of \<open>Mg_Pool\<close> that hands out ascending addresses, \<open>allocate\<close> is an instance.\<close>

interpretation bump_arena: region_allocator arena_ok "allocate bump_malloc" unat
  by (rule allocate_arena [OF bump_malloc_ok])

lemma allocate_total:
  assumes "\<forall>bs n. al bs n \<noteq> NULL" "0 < sz"
  shows "\<exists>a p'. allocate al sz p = Some (a, p')"
proof -
  have "\<exists>a q. allocate_new_block al n p = Some (a, q)" for n
    using assms(1) by (simp add: allocate_new_block_def Let_def)
  then have "\<exists>a q. allocate_fallback al sz p = Some (a, q)"
    unfolding allocate_fallback_def by (metis (no_types, lifting) bind.bind_lunit case_prod_conv)
  with assms(2) show ?thesis by (simp add: allocate_def)
qed

lemma allocate_all_total:
  assumes "\<forall>bs n. al bs n \<noteq> NULL" "list_all (\<lambda>sz. 0 < sz) szs"
  shows "\<exists>rs' p'. alloc_all (allocate al) unat szs p rs = Some (rs', p')"
  using assms(2)
proof (induction szs arbitrary: p rs)
  case (Cons sz szs)
  then obtain a q where "allocate al sz p = Some (a, q)" using allocate_total [OF assms(1), of sz p] by auto
  with Cons show ?case by simp
qed simp

section \<open>Properties\<close>

text \<open>
  C17: The arena serves every sequence of non-empty requests when \<open>new\<close> does. The regions have the
  requested sizes, are pairwise disjoint and lie in the pool's blocks, \<open>memory_usage\<close> is the total
  size of the blocks (as a \<open>size_t\<close>), and a request of zero bytes fails its assertion.
\<close>
theorem arena_allocates:
  assumes "malloc_ok al" "\<forall>bs n. al bs n \<noteq> NULL" "list_all (\<lambda>sz. 0 < sz) szs"
  shows "\<exists>rs p. alloc_all (allocate al) unat szs BufferPool_new [] = Some (rs, p) \<and>
    map snd rs = rev (map unat szs) \<and> pairwise_disjoint rs \<and>
    list_all (\<lambda>r. list_ex (subregion r) (ub_buffer_pool p)) rs \<and>
    memory_usage p = word_of_nat (sum_list (map snd (ub_buffer_pool p))) \<and> allocate al 0 p = None"
proof -
  obtain rs p where run: "alloc_all (allocate al) unat szs BufferPool_new [] = Some (rs, p)"
    using allocate_all_total [OF assms(2,3)] by blast
  from region_allocator.alloc_all_ok [OF allocate_arena [OF assms(1)] arena_ok_new run]
  show ?thesis using run by (auto simp: arena_ok_def memory_usage_def allocate_def)
qed

theorem arena_allocates_witness:
  "\<exists>rs p. alloc_all (allocate bump_malloc) unat [100, 2000, 3900, 200] BufferPool_new [] = Some (rs, p) \<and>
    map snd rs = [200, 3900, 2000, 100] \<and> pairwise_disjoint rs"
  using arena_allocates [OF bump_malloc_ok bump_malloc_total, of "[100, 2000, 3900, 200]"] by auto

text \<open>
  \<open>allocate_align\<close> never serves a request: the assertion on the alignment demands that it is not
  a power of two, and \<open>sizeof(void *)\<close> is one.
\<close>
theorem allocate_align_aborts: "allocate_align al sz p = None"
  by (simp add: allocate_align_def)

end
