(* ===== verification/Util_Hash.thy ===== *)
theory Util_Hash
  imports Mg_Prelude
begin

unbundle bit_operations_syntax

text \<open>
  The hash function of \<^verbatim>\<open>utils/hash.h\<close>. The byte order of the machine is a parameter: \<^const>\<open>True\<close> for
  little endian. A buffer is the list of its bytes; reading behind it is \<^term>\<open>None\<close>.
\<close>

section \<open>Byte order\<close>

text \<open>The value of a \<open>uint32_t\<close> whose four bytes lie in memory in this order.\<close>

definition load32 :: "bool \<Rightarrow> 8 word \<Rightarrow> 8 word \<Rightarrow> 8 word \<Rightarrow> 8 word \<Rightarrow> 32 word" where
  "load32 little a b c d = (if little
     then ucast a OR push_bit 8 (ucast b) OR push_bit 16 (ucast c) OR push_bit 24 (ucast d)
     else ucast d OR push_bit 8 (ucast c) OR push_bit 16 (ucast b) OR push_bit 24 (ucast a))"

text \<open>
  The union is initialised through its first member, the \<open>char\<close>: its bytes are 1, 0, 0, 0 on every
  machine.
\<close>

definition is_little :: "bool \<Rightarrow> bool" where
  "is_little little = (let l = [1, 0, 0, 0 :: 8 word] in l ! 0 = 1)"

definition DecodeFixed32 :: "bool \<Rightarrow> 8 word \<Rightarrow> 8 word \<Rightarrow> 8 word \<Rightarrow> 8 word \<Rightarrow> 32 word" where
  "DecodeFixed32 little c0 c1 c2 c3 = (if is_little little then load32 little c0 c1 c2 c3
     else ucast c0 OR push_bit 8 (ucast c1) OR push_bit 16 (ucast c2) OR push_bit 24 (ucast c3))"

section \<open>murmur hash\<close>

definition murmur_m :: "32 word" where
  "murmur_m = 0xc6a4a793"

definition murmur_r :: nat where
  "murmur_r = 24"

definition mix_word :: "32 word \<Rightarrow> 32 word \<Rightarrow> 32 word" where
  "mix_word w h = (let h = h + w; h = h * murmur_m in h XOR drop_bit 16 h)"

text \<open>The loop over four bytes at a time; what is left of the data comes with the hash.\<close>

fun murmur_loop :: "bool \<Rightarrow> 8 word list \<Rightarrow> 32 word \<Rightarrow> 32 word \<times> 8 word list" where
  "murmur_loop little (a # b # c # d # data) h =
     murmur_loop little data (mix_word (DecodeFixed32 little a b c d) h)"
| "murmur_loop little data h = (h, data)"

text \<open>The \<open>switch\<close> with its fall-through: \<open>case 3\<close> runs into \<open>case 2\<close> and that into \<open>case 1\<close>.\<close>

definition murmur_tail :: "8 word list \<Rightarrow> 32 word \<Rightarrow> 32 word" where
  "murmur_tail data h =
     (let case3 = length data = 3; case2 = case3 \<or> length data = 2; case1 = case2 \<or> length data = 1;
          h = (if case3 then h + push_bit 16 (ucast (data ! 2)) else h);
          h = (if case2 then h + push_bit 8 (ucast (data ! 1)) else h)
      in if case1 then (let h = h + ucast (data ! 0); h = h * murmur_m in h XOR drop_bit murmur_r h) else h)"

definition murmur_hash :: "bool \<Rightarrow> 8 word list \<Rightarrow> 64 word \<Rightarrow> 32 word \<Rightarrow> 32 word option" where
  "murmur_hash little data n seed =
     (if length data < unat n then None
      else let h = seed XOR ucast (n * ucast murmur_m);
               (h, rest) = murmur_loop little (take (unat n) data) h
           in Some (murmur_tail rest h))"

section \<open>The mixing steps are bijections\<close>

lemma murmur_m_inverse: "murmur_m * 0xd8198e9b = 1"
  by (simp add: murmur_m_def)

lemma mul_m_inj:
  assumes "h * murmur_m = h' * murmur_m"
  shows "h = h'"
proof -
  have "h * murmur_m * 0xd8198e9b = h' * murmur_m * 0xd8198e9b" using assms by (rule arg_cong)
  then show ?thesis unfolding mult.assoc murmur_m_inverse by (simp only: mult_1_right)
qed

text \<open>Shifting by at least half the width and xor-ing undoes itself.\<close>

lemma xorshift_involution:
  assumes "16 \<le> k"
  shows "(h XOR drop_bit k h) XOR drop_bit k (h XOR drop_bit k h) = (h :: 32 word)"
proof (rule bit_word_eqI)
  fix i assume "i < LENGTH(32)"
  moreover have "\<not> bit h (k + k + i)" using assms by (intro impossible_bit) simp
  ultimately show "bit ((h XOR drop_bit k h) XOR drop_bit k (h XOR drop_bit k h)) i = bit h i"
    by (auto simp: bit_xor_iff bit_drop_bit_eq add.assoc)
qed

lemma xorshift_inj: "16 \<le> k \<Longrightarrow> h XOR drop_bit k h = h' XOR drop_bit k h' \<Longrightarrow> h = (h' :: 32 word)"
  by (metis xorshift_involution)

lemma mix_word_inj: "mix_word w h = mix_word w h' \<Longrightarrow> h = h'"
  using xorshift_inj [of 16 "(h + w) * murmur_m" "(h' + w) * murmur_m"] mul_m_inj [of "h + w" "h' + w"]
  by (simp add: mix_word_def Let_def)

lemma mix_word_inj_word: "mix_word w h = mix_word w' h \<Longrightarrow> w = w'"
  using xorshift_inj [of 16 "(h + w) * murmur_m" "(h + w') * murmur_m"] mul_m_inj [of "h + w" "h + w'"]
  by (simp add: mix_word_def Let_def)

lemma murmur_loop_rest: "snd (murmur_loop little data h) = snd (murmur_loop little data h')"
  by (induction little data h arbitrary: h' rule: murmur_loop.induct) auto

lemma murmur_loop_inj: "murmur_loop little data h = murmur_loop little data h' \<Longrightarrow> h = h'"
  by (induction little data h arbitrary: h' rule: murmur_loop.induct) (auto dest!: mix_word_inj)

lemma last_mix_inj:
  assumes "(x + a) * murmur_m XOR drop_bit murmur_r ((x + a) * murmur_m) =
    (y + a) * murmur_m XOR drop_bit murmur_r ((y + a) * murmur_m)"
  shows "x = y"
  using xorshift_inj [OF _ assms] mul_m_inj [of "x + a" "y + a"] by (simp add: murmur_r_def)

text \<open>What the \<open>switch\<close> adds to the hash before the last multiplication.\<close>

definition tail_sum :: "8 word list \<Rightarrow> 32 word" where
  "tail_sum data = (if length data = 3 then push_bit 16 (ucast (data ! 2)) else 0) +
     ((if length data = 3 \<or> length data = 2 then push_bit 8 (ucast (data ! 1)) else 0) + ucast (data ! 0))"

lemma murmur_tail_eq:
  "murmur_tail data h = (if length data \<in> {1, 2, 3}
     then (h + tail_sum data) * murmur_m XOR drop_bit murmur_r ((h + tail_sum data) * murmur_m) else h)"
  by (simp add: murmur_tail_def tail_sum_def Let_def add.assoc)

lemma murmur_tail_inj: "murmur_tail data h = murmur_tail data h' \<Longrightarrow> h = h'"
  unfolding murmur_tail_eq by (metis last_mix_inj)

lemma murmur_loop_append:
  "4 dvd length pre \<Longrightarrow> murmur_loop little (pre @ data) h = murmur_loop little data (fst (murmur_loop little pre h))"
proof (induction little pre h rule: murmur_loop.induct)
  case (1 little a b c d rest h)
  then have "4 dvd Suc (Suc (Suc (Suc (length rest))))" by simp
  then have "4 dvd length rest" by presburger
  with 1 show ?case by simp
qed (auto dest: dvd_imp_le)

lemma DecodeFixed32_little: "DecodeFixed32 True a b c d = load32 True a b c d"
  by (simp add: DecodeFixed32_def is_little_def)


lemma load32_bytes:
  "ucast (load32 True a b c d) = a" "ucast (drop_bit 8 (load32 True a b c d)) = b"
  "ucast (drop_bit 16 (load32 True a b c d)) = c" "ucast (drop_bit 24 (load32 True a b c d)) = d"
  by (rule bit_word_eqI; auto simp: load32_def bit_simps dest: bit_imp_le_length)+

lemma load32_swap: "load32 False a b c d = load32 True d c b a"
  by (simp add: load32_def)

lemma load32_inj: "load32 little a b c d = load32 little a' b' c' d' \<Longrightarrow> a = a' \<and> b = b' \<and> c = c' \<and> d = d'"
  using load32_bytes by (cases little) (auto simp: load32_swap, metis+)

lemma DecodeFixed32_load: "DecodeFixed32 little a b c d = load32 little a b c d"
  by (simp add: DecodeFixed32_def is_little_def)

definition murmur_rest :: "bool \<Rightarrow> 8 word list \<Rightarrow> 32 word \<Rightarrow> 32 word" where
  "murmur_rest little data h = (case murmur_loop little data h of (h, rest) \<Rightarrow> murmur_tail rest h)"

lemma murmur_hash_eq:
  "unat n = length data \<Longrightarrow>
     murmur_hash little data n seed = Some (murmur_rest little data (seed XOR ucast (n * ucast murmur_m)))"
  by (simp add: murmur_hash_def murmur_rest_def split: prod.split)

lemma murmur_rest_inj:
  assumes "murmur_rest little data h = murmur_rest little data h'"
  shows "h = h'"
proof -
  have "fst (murmur_loop little data h) = fst (murmur_loop little data h')"
    using assms murmur_loop_rest [of little data h h']
    by (auto simp: murmur_rest_def split: prod.splits dest: murmur_tail_inj)
  with murmur_loop_rest [of little data h h'] show ?thesis by (intro murmur_loop_inj) (rule prod_eqI)
qed

lemma murmur_rest_block:
  assumes "4 dvd length pre"
  shows "murmur_rest little (pre @ a # b # c # d # post) h =
    murmur_rest little post (mix_word (load32 little a b c d) (fst (murmur_loop little pre h)))"
  by (simp add: murmur_rest_def murmur_loop_append [OF assms] DecodeFixed32_load)

lemma xor_inj: "seed XOR x = seed' XOR x \<Longrightarrow> seed = (seed' :: 32 word)"
  by (metis xor.assoc xor.right_neutral xor_self_eq)

section \<open>Properties\<close>

text \<open>
  C18: The hash is defined on a buffer of exactly \<open>n\<close> bytes, and it loses no information in one
  argument at a time: for a given message it is injective in the seed, and two messages of the same
  length that differ in one aligned group of four bytes have different hashes. \<open>DecodeFixed32\<close> reads
  in the byte order of the machine, which on a little endian machine is the order of its portable branch.
\<close>
theorem murmur_hash_injective:
  assumes "4 dvd length pre" "unat n = length (pre @ [a, b, c, d] @ post)"
  shows "(\<exists>h. murmur_hash little (pre @ [a, b, c, d] @ post) n seed = Some h) \<and>
    (murmur_hash little (pre @ [a, b, c, d] @ post) n seed = murmur_hash little (pre @ [a, b, c, d] @ post) n seed' \<longrightarrow>
       seed = seed') \<and>
    (murmur_hash little (pre @ [a, b, c, d] @ post) n seed = murmur_hash little (pre @ [a', b', c', d'] @ post) n seed \<longrightarrow>
       [a, b, c, d] = [a', b', c', d']) \<and>
    DecodeFixed32 True a b c d = ucast a OR push_bit 8 (ucast b) OR push_bit 16 (ucast c) OR push_bit 24 (ucast d)"
proof (intro conjI impI)
  show "\<exists>h. murmur_hash little (pre @ [a, b, c, d] @ post) n seed = Some h"
    using murmur_hash_eq [OF assms(2)] by blast
next
  assume "murmur_hash little (pre @ [a, b, c, d] @ post) n seed = murmur_hash little (pre @ [a, b, c, d] @ post) n seed'"
  then show "seed = seed'"
    unfolding murmur_hash_eq [OF assms(2)] by (auto dest!: murmur_rest_inj xor_inj)
next
  assume eq: "murmur_hash little (pre @ [a, b, c, d] @ post) n seed = murmur_hash little (pre @ [a', b', c', d'] @ post) n seed"
  have n': "unat n = length (pre @ [a', b', c', d'] @ post)" using assms(2) by simp
  from eq show "[a, b, c, d] = [a', b', c', d']"
    unfolding murmur_hash_eq [OF assms(2)] murmur_hash_eq [OF n']
    by (auto simp: murmur_rest_block [OF assms(1)] dest!: murmur_rest_inj mix_word_inj_word load32_inj)
qed (simp add: DecodeFixed32_load load32_def)

theorem murmur_hash_injective_witness:
  "murmur_hash True [1, 2, 3, 4, 5] 5 7 \<noteq> murmur_hash True [1, 2, 3, 4, 5] 5 8 \<and>
   murmur_hash True [1, 2, 3, 4, 5] 5 7 \<noteq> murmur_hash True [1, 2, 3, 9, 5] 5 7"
  using murmur_hash_injective [of "[]" 5 1 2 3 4 "[5]" True 7 8 1 2 3 9] by simp

text \<open>
  \<open>is_little\<close> answers yes on every machine, so on a big endian one \<open>DecodeFixed32\<close> never takes its
  portable branch and the hash of a message depends on the machine.
\<close>
theorem is_little_constant:
  "is_little False \<and> DecodeFixed32 False a b c d = DecodeFixed32 True d c b a \<and>
   murmur_hash False [1, 2, 3, 4] 4 0 \<noteq> murmur_hash True [1, 2, 3, 4] 4 0"
proof -
  have "(load32 False 1 2 3 4 = load32 True 1 2 3 4) = False" by (simp add: load32_def)
  then have "mix_word (load32 False 1 2 3 4) h \<noteq> mix_word (load32 True 1 2 3 4) h" for h
    using mix_word_inj_word by blast
  then show ?thesis
    by (simp add: murmur_hash_def is_little_def DecodeFixed32_load load32_swap murmur_tail_def)
qed

end
