(* ===== verification/Util_Multi.thy ===== *)
theory Util_Multi
  imports Mg_Prelude
begin

text \<open>
  Starting processes and threads, \<^verbatim>\<open>utils/multi.h\<close>. A \<open>std::map\<close> from process or thread numbers to
  \<open>true\<close> is the sorted list of its keys, in which the iterators run. The results of the system calls are
  arguments: \<open>waitpid n p\<close> and \<open>kill n t\<close> are what the \<open>n\<close>-th call returns for its argument.
  \<^term>\<open>None\<close> is undefined behaviour or a loop that does not end.
\<close>

section \<open>Waiting for processes\<close>

text \<open>The inner loop of \<open>watch_process\<close>: one \<open>waitpid\<close> per process; it yields the calls made so far.\<close>

fun watch_pass :: "(nat \<Rightarrow> int \<Rightarrow> int) \<Rightarrow> nat \<Rightarrow> int list \<Rightarrow> nat \<times> int list" where
  "watch_pass waitpid n [] = (n, [])"
| "watch_pass waitpid n (p # pool) = (let ret = waitpid n p in
     case watch_pass waitpid (Suc n) pool of (n, pool) \<Rightarrow>
       if ret = p then (n, pool) else (n, p # pool))"

partial_function (option) watch_process :: "(nat \<Rightarrow> int \<Rightarrow> int) \<Rightarrow> nat \<Rightarrow> int list \<Rightarrow> nat option" where
  "watch_process waitpid n pool = (if pool \<noteq> [] then
     (case watch_pass waitpid n pool of (n, pool) \<Rightarrow> watch_process waitpid n pool)
   else Some n)"

section \<open>Threads\<close>

record multi_stat =
  success :: int
  failed :: int

text \<open>
  \<open>thread\<close> runs the registered function, if there is one; \<open>register_func\<close> sets it.
\<close>

definition register_func :: "('s \<Rightarrow> 's) \<Rightarrow> ('s \<Rightarrow> 's) option" where
  "register_func func = Some func"

definition thread :: "('s \<Rightarrow> 's) option \<Rightarrow> 's \<Rightarrow> 's" where
  "thread gfunc s = (case gfunc of None \<Rightarrow> s | Some func \<Rightarrow> func s)"

text \<open>
  The first loop of \<open>thread_create\<close>. \<open>create i\<close> is the result of the \<open>i\<close>-th \<open>pthread_create\<close> and the
  thread it started; where it fails \<open>pid[i]\<close> keeps no defined value.
\<close>

fun create_loop :: "(nat \<Rightarrow> int \<times> nat) \<Rightarrow> nat list \<Rightarrow> nat option list \<times> nat list \<times> multi_stat \<Rightarrow>
    nat option list \<times> nat list \<times> multi_stat" where
  "create_loop create [] st = st"
| "create_loop create (i # is) (pid, pool, ms) = (case create i of (ret, t) \<Rightarrow>
     if ret \<noteq> 0 then create_loop create is (pid, pool, ms\<lparr>failed := failed ms + 1\<rparr>)
     else create_loop create is (pid[i := Some t], insort_insert t pool, ms\<lparr>success := success ms + 1\<rparr>))"

text \<open>The inner loop of the wait: a call \<open>pthread_kill(pid[i], 0)\<close> per entry of \<open>pid\<close>.\<close>

fun kill_pass :: "(nat \<Rightarrow> nat \<Rightarrow> int) \<Rightarrow> nat \<Rightarrow> nat option list \<Rightarrow> nat list \<Rightarrow> (nat \<times> nat list) option" where
  "kill_pass kill n [] pool = Some (n, pool)"
| "kill_pass kill n (p # pid) pool = do {
     t \<leftarrow> p;
     kill_pass kill (Suc n) pid (if kill n t = 0 then remove1 t pool else pool) }"

partial_function (option) thread_wait :: "(nat \<Rightarrow> nat \<Rightarrow> int) \<Rightarrow> nat \<Rightarrow> nat option list \<Rightarrow> nat list \<Rightarrow> nat option" where
  "thread_wait kill n pid pool = (if length pool > 0 then do {
     (n, pool) \<leftarrow> kill_pass kill n pid pool;
     thread_wait kill n pid pool }
   else Some n)"

text \<open>The array \<open>pid\<close> has variable length, which must be positive.\<close>

definition thread_create :: "(nat \<Rightarrow> int \<times> nat) \<Rightarrow> (nat \<Rightarrow> nat \<Rightarrow> int) \<Rightarrow> int \<Rightarrow> multi_stat \<Rightarrow> (nat \<times> multi_stat) option" where
  "thread_create create kill threadnum ms =
     (if threadnum \<le> 0 then None else
      case create_loop create [0..<nat threadnum] (replicate (nat threadnum) None, [], ms) of (pid, pool, ms) \<Rightarrow> do {
        n \<leftarrow> thread_wait kill 0 pid pool;
        Some (n, ms) })"

section \<open>Resource limits and processes\<close>

text \<open>
  \<open>set_multi_env\<close>: the results of the two \<open>setrlimit\<close> calls and the soft limits that \<open>getrlimit\<close> then
  reports; \<^const>\<open>False\<close> is \<open>exit(0)\<close>.
\<close>

record rlimit_results =
  set_stack :: int
  set_nofile :: int
  get_stack :: int
  get_nofile :: int

definition set_multi_env :: "rlimit_results \<Rightarrow> bool" where
  "set_multi_env r =
     (if set_stack r \<noteq> 0 then False
      else if set_nofile r \<noteq> 0 then False
      else if get_stack r \<noteq> 1024 then False
      else if get_nofile r \<noteq> 100000 then False
      else True)"

text \<open>The \<open>fork\<close> loop of \<open>multi_create\<close>: \<open>k\<close> forks are left, \<open>i\<close> were made.\<close>

fun fork_loop :: "(nat \<Rightarrow> int) \<Rightarrow> nat \<Rightarrow> nat \<Rightarrow> int \<Rightarrow> int list \<Rightarrow> int \<times> int list" where
  "fork_loop forks i 0 pid pool = (pid, pool)"
| "fork_loop forks i (Suc k) pid pool = (let pid = forks i in
     if pid \<le> 0 then (pid, pool) else fork_loop forks (Suc i) k pid (insort_insert pid pool))"

record multi_env =
  env_rlimit :: rlimit_results
  env_fork :: "nat \<Rightarrow> int"
  env_waitpid :: "nat \<Rightarrow> int \<Rightarrow> int"
  env_create :: "nat \<Rightarrow> int \<times> nat"
  env_kill :: "nat \<Rightarrow> nat \<Rightarrow> int"

text \<open>How the process that called \<open>multi_create\<close>, or a child of it, ends the call.\<close>

datatype multi_result = Exits | Child_returns multi_stat | Parent_returns "int list"

definition multi_create :: "multi_env \<Rightarrow> int \<Rightarrow> int \<Rightarrow> multi_stat \<Rightarrow> multi_result option" where
  "multi_create env procnum threadnum ms =
     (if \<not> set_multi_env (env_rlimit env) then Some Exits
      else case fork_loop (env_fork env) 0 (nat procnum) (- 1) [] of (pid, pool) \<Rightarrow>
        if pid = 0 then do {
          (n, ms) \<leftarrow> thread_create (env_create env) (env_kill env) threadnum ms;
          Some (Child_returns ms) }
        else do {
          n \<leftarrow> watch_process (env_waitpid env) 0 pool;
          Some (Parent_returns pool) })"

section \<open>What the wait for processes does\<close>

lemma watch_pass_eq:
  "watch_pass w n pool = (n + length pool, map snd (filter (\<lambda>(i, p). w i p \<noteq> p) (enumerate n pool)))"
  by (induction pool arbitrary: n) (auto simp: Let_def split: prod.splits)

lemma watch_pass_set:
  "watch_pass w n pool = (n', pool') \<Longrightarrow> n' = n + length pool \<and> set pool' \<subseteq> set pool \<and>
     (\<forall>p\<in>set pool - set pool'. \<exists>k\<ge>n. k < n' \<and> w k p = p)"
proof (induction pool arbitrary: n n' pool')
  case (Cons q pool)
  obtain pl where r: "watch_pass w (Suc n) pool = (n', pl)" and pool': "pool' = (if w n q = q then pl else q # pl)"
    using Cons.prems by (auto simp: Let_def split: prod.splits if_splits)
  note IH = Cons.IH [OF r]
  have "\<exists>k\<ge>n. k < n' \<and> w k p = p" if p: "p \<in> set (q # pool) - set pool'" for p
  proof (cases "p \<in> set pool - set pl")
    case True
    then show ?thesis using IH by (meson Suc_leD)
  next
    case False
    then have "p = q" "w n q = q" using p pool' by (auto split: if_splits)
    then show ?thesis using IH by auto
  qed
  then show ?case using IH pool' by auto
qed simp

lemma watch_process_waits:
  assumes "watch_process w n pool = Some m"
  shows "n \<le> m \<and> (\<forall>p\<in>set pool. \<exists>k\<ge>n. k < m \<and> w k p = p)"
  using assms
proof (rule watch_process.raw_induct [where P = "\<lambda>w n pool m. n \<le> m \<and> (\<forall>p\<in>set pool. \<exists>k\<ge>n. k < m \<and> w k p = p)", rotated])
  fix f and w :: "nat \<Rightarrow> int \<Rightarrow> int" and n m and pool :: "int list"
  assume IH: "\<And>w n pool m. f w n pool = Some m \<Longrightarrow> n \<le> m \<and> (\<forall>p\<in>set pool. \<exists>k\<ge>n. k < m \<and> w k p = p)"
    and body: "(if pool \<noteq> [] then (case watch_pass w n pool of (n, pool) \<Rightarrow> f w n pool) else Some n) = Some m"
  obtain n' pool' where r: "watch_pass w n pool = (n', pool')" by fastforce
  note s = watch_pass_set [OF r]
  show "n \<le> m \<and> (\<forall>p\<in>set pool. \<exists>k\<ge>n. k < m \<and> w k p = p)"
  proof (cases "pool = []")
    case False
    then have rec: "f w n' pool' = Some m" using body r by simp
    have "\<exists>k\<ge>n. k < m \<and> w k p = p" if "p \<in> set pool" for p
    proof (cases "p \<in> set pool'")
      case True
      then show ?thesis using IH [OF rec] s by (meson le_add1 le_trans)
    next
      case False
      then show ?thesis using IH [OF rec] s that by (meson DiffI order_less_le_trans)
    qed
    then show ?thesis using IH [OF rec] s by auto
  qed (use body in auto)
qed

lemma watch_process_returns:
  assumes "\<forall>p\<in>set pool. \<forall>k\<ge>N. w k p = p"
  shows "\<exists>m. watch_process w n pool = Some m"
  using assms
proof (induction "N - n" arbitrary: n pool rule: less_induct)
  case less
  show ?case
  proof (cases "pool = []")
    case False
    obtain n' pool' where r: "watch_pass w n pool = (n', pool')" by fastforce
    note s = watch_pass_set [OF r]
    show ?thesis
    proof (cases "N \<le> n")
      case True
      have "filter (\<lambda>(i, p). w i p \<noteq> p) (enumerate n pool) = []"
        using less.prems True by (auto simp: filter_empty_conv in_set_enumerate_eq)
      then have "pool' = []" using r by (simp add: watch_pass_eq)
      with r False show ?thesis by (simp add: watch_process.simps)
    next
      case Nle: False
      have "N - n' < N - n" using s False Nle by (cases pool) auto
      from less.hyps [OF this, of pool'] less.prems s r False show ?thesis
        by (auto simp: watch_process.simps [of w n pool])
    qed
  qed (simp add: watch_process.simps)
qed

section \<open>Creating processes\<close>

lemma fork_loop_children:
  assumes "\<forall>i'<k. forks (i + i') > 0" "k = n \<or> k < n \<and> forks (i + k) < 0" "pid \<noteq> 0"
  shows "\<exists>pid'. fork_loop forks i n pid pool = (pid', fold insort_insert (map forks [i..<i + k]) pool) \<and> pid' \<noteq> 0"
  using assms
proof (induction k arbitrary: i n pid pool)
  case 0
  then show ?case by (cases n) auto
next
  case (Suc k)
  then obtain n' where n: "n = Suc n'" by (cases n) auto
  have "forks i > 0" using Suc.prems(1) by (metis add_0_right zero_less_Suc)
  moreover have "\<forall>i'<k. forks (Suc i + i') > 0" using Suc.prems(1) by auto
  moreover have "[i..<i + Suc k] = i # [Suc i..<Suc i + k]" by (simp add: upt_conv_Cons)
  ultimately show ?case using Suc.IH [of "Suc i" n' "forks i" "insort_insert (forks i) pool"] Suc.prems(2) n
    by (auto simp: Let_def)
qed

lemma fold_insort_insert:
  fixes pool :: "'a :: linorder list"
  assumes "sorted pool" "distinct pool"
  shows "fold insort_insert xs pool = sorted_list_of_set (set pool \<union> set xs)"
  using assms
proof (induction xs arbitrary: pool)
  case Nil
  then show ?case by (simp add: sorted_list_of_set.idem_if_sorted_distinct)
next
  case (Cons x xs)
  then show ?case
    using Cons.IH [of "insort_insert x pool"] by (simp add: sorted_insort_insert distinct_insort_insert set_insort_insert)
qed

section \<open>Waiting for threads\<close>

lemma create_loop_all:
  assumes "\<forall>i<n. fst (create i) = 0" "k \<le> n" "length pid = n"
  shows "create_loop create [k..<n] (pid, pool, ms) =
    (take k pid @ map (\<lambda>i. Some (snd (create i))) [k..<n], fold insort_insert (map (snd \<circ> create) [k..<n]) pool,
     ms\<lparr>success := success ms + int (n - k)\<rparr>)"
  using assms(2,3)
proof (induction "n - k" arbitrary: k pid pool ms)
  case 0
  then show ?case by simp
next
  case (Suc d)
  then have k: "k < n" by simp
  obtain t where t: "create k = (0, t)" using assms(1) k by (metis prod.collapse)
  have "int (n - k) = 1 + int (n - Suc k)" using k by simp
  moreover have "take (Suc k) (pid[k := Some t]) = take k pid @ [Some t]"
    using k Suc.prems(2) by (simp add: take_Suc_conv_app_nth)
  ultimately show ?case
    using Suc.hyps(1) [of "Suc k" "pid[k := Some t]"] Suc.hyps(2) Suc.prems k t
    by (simp add: upt_conv_Cons add.assoc)
qed

text \<open>One pass of calls on initialised entries.\<close>

lemma kill_pass_stable:
  assumes "\<forall>t\<in>set ts. (\<forall>k. kill k t = 0) \<or> (\<forall>k. kill k t \<noteq> 0)" "distinct pool"
  shows "\<exists>pool'. kill_pass kill n (map Some ts) pool = Some (n + length ts, pool') \<and> distinct pool' \<and>
    set pool' = {t \<in> set pool. t \<in> set ts \<longrightarrow> (\<forall>k. kill k t \<noteq> 0)}"
  using assms
proof (induction ts arbitrary: n pool)
  case (Cons t ts)
  let ?p = "if kill n t = 0 then remove1 t pool else pool"
  have "\<exists>pool'. kill_pass kill (Suc n) (map Some ts) ?p = Some (Suc n + length ts, pool') \<and> distinct pool' \<and>
      set pool' = {t \<in> set ?p. t \<in> set ts \<longrightarrow> (\<forall>k. kill k t \<noteq> 0)}"
    using Cons.IH [of ?p "Suc n"] Cons.prems by (auto simp: distinct_remove1)
  then show ?case using Cons.prems by (auto simp: set_remove1_eq)
qed simp

lemma thread_wait_dead:
  assumes "\<forall>t\<in>set ts. (\<forall>k. kill k t = 0) \<or> (\<forall>k. kill k t \<noteq> 0)" "d \<in> set ts" "\<forall>k. kill k d \<noteq> 0"
    "distinct pool" "d \<in> set pool"
  shows "thread_wait kill n (map Some ts) pool = None"
proof (rule ccontr)
  assume "thread_wait kill n (map Some ts) pool \<noteq> None"
  then obtain m where "thread_wait kill n (map Some ts) pool = Some m" by blast
  then have "map Some ts = map Some ts \<longrightarrow> kill = kill \<longrightarrow> distinct pool \<longrightarrow> d \<notin> set pool"
  proof (rule thread_wait.raw_induct [where P = "\<lambda>kl n pid pool m. pid = map Some ts \<longrightarrow> kl = kill \<longrightarrow> distinct pool \<longrightarrow> d \<notin> set pool", rotated])
    fix f and kl :: "nat \<Rightarrow> nat \<Rightarrow> int" and n m and pid :: "nat option list" and pool :: "nat list"
    assume IH: "\<And>kl n pid pool m. f kl n pid pool = Some m \<Longrightarrow>
        pid = map Some ts \<longrightarrow> kl = kill \<longrightarrow> distinct pool \<longrightarrow> d \<notin> set pool"
      and body: "(if length pool > 0 then do { (n, pool) \<leftarrow> kill_pass kl n pid pool; f kl n pid pool } else Some n) = Some m"
    show "pid = map Some ts \<longrightarrow> kl = kill \<longrightarrow> distinct pool \<longrightarrow> d \<notin> set pool"
    proof (intro impI)
      assume eq: "pid = map Some ts" "kl = kill" "distinct pool"
      obtain pool' where p: "kill_pass kill n (map Some ts) pool = Some (n + length ts, pool')" "distinct pool'"
        "set pool' = {t \<in> set pool. t \<in> set ts \<longrightarrow> (\<forall>k. kill k t \<noteq> 0)}"
        using kill_pass_stable [OF assms(1) eq(3)] by blast
      show "d \<notin> set pool"
      proof (cases "pool = []")
        case False
        then have "f kill (n + length ts) (map Some ts) pool' = Some m" using body p(1) eq by simp
        with IH p(2) have "d \<notin> set pool'" by blast
        then show ?thesis using p(3) assms(3) by simp
      qed simp
    qed
  qed
  with assms(4,5) show False by simp
qed

section \<open>Properties\<close>

text \<open>
  C23: A process that starts \<open>j\<close> children (all that were asked for, or those before a failing
  \<open>fork\<close>) returns from \<open>multi_create\<close> if and only if every child is eventually reported by \<open>waitpid\<close>,
  and then it has waited for exactly these children. A child for which \<open>waitpid\<close> fails for good (as it does
  with \<open>ECHILD\<close> when the system reaps children itself) keeps it in the loop for ever. The hypothesis on
  \<open>waitpid\<close> is what the call would answer for a child that has not been reported yet: from some call on
  its number, or never.
\<close>
theorem multi_create_parent:
  assumes "set_multi_env (env_rlimit env)" "\<forall>i<j. env_fork env i > 0"
    "j = nat procnum \<or> j < nat procnum \<and> env_fork env j < 0"
    "\<forall>i<j. (\<exists>N. \<forall>k\<ge>N. env_waitpid env k (env_fork env i) = env_fork env i) \<or>
       (\<forall>k. env_waitpid env k (env_fork env i) \<noteq> env_fork env i)"
  shows "multi_create env procnum threadnum ms =
    (if \<forall>i<j. \<exists>k. env_waitpid env k (env_fork env i) = env_fork env i
     then Some (Parent_returns (sorted_list_of_set (env_fork env ` {..<j}))) else None)"
proof -
  let ?w = "env_waitpid env" and ?f = "env_fork env"
  let ?pool = "sorted_list_of_set (?f ` {..<j})"
  obtain pid where "fork_loop ?f 0 (nat procnum) (- 1) [] = (pid, fold insort_insert (map ?f [0..<0 + j]) [])" "pid \<noteq> 0"
    using fork_loop_children [of j ?f 0 "nat procnum" "- 1" "[]"] assms(2,3) by auto
  moreover have "fold insort_insert (map ?f [0..<0 + j]) [] = ?pool"
    by (subst fold_insort_insert) (simp_all add: atLeast0LessThan)
  ultimately have create: "multi_create env procnum threadnum ms =
      map_option (\<lambda>_. Parent_returns ?pool) (watch_process ?w 0 ?pool)"
    using assms(1) by (simp add: multi_create_def map_conv_bind_option comp_def)
  show ?thesis
  proof (cases "\<forall>i<j. \<exists>k. ?w k (?f i) = ?f i")
    case True
    then have "\<forall>i<j. \<exists>N. \<forall>k\<ge>N. ?w k (?f i) = ?f i" using assms(4) by blast
    then obtain N where N: "\<forall>i<j. \<forall>k\<ge>N i. ?w k (?f i) = ?f i" by metis
    have "\<forall>k\<ge>Max (N ` {..<j}). ?w k (?f i) = ?f i" if "i < j" for i
    proof -
      have "N i \<le> Max (N ` {..<j})" using that by (intro Max_ge) auto
      then show ?thesis using N that by (meson le_trans)
    qed
    then have "\<exists>m. watch_process ?w 0 ?pool = Some m"
      by (intro watch_process_returns [where N = "Max (N ` {..<j})"]) auto
    then show ?thesis using create True by auto
  next
    case False
    then obtain i where i: "i < j" "\<forall>k. ?w k (?f i) \<noteq> ?f i" by blast
    then have "?f i \<in> set ?pool" by simp
    then have "watch_process ?w 0 ?pool = None"
      using watch_process_waits [of ?w 0 ?pool] i(2) by (metis option.exhaust)
    then show ?thesis using create False by simp
  qed
qed

definition demo_multi_env :: multi_env where
  "demo_multi_env = \<lparr>env_rlimit = \<lparr>set_stack = 0, set_nofile = 0, get_stack = 1024, get_nofile = 100000\<rparr>,
     env_fork = (\<lambda>i. if i = 0 then 102 else if i = 1 then 101 else - 1),
     env_waitpid = (\<lambda>k p. if k < 5 then - 1 else p), env_create = (\<lambda>i. (0, i)), env_kill = (\<lambda>_ _. 0)\<rparr>"

theorem multi_create_parent_witness:
  "multi_create demo_multi_env 4 1 \<lparr>success = 0, failed = 0\<rparr> = Some (Parent_returns [101, 102])"
proof -
  have lt: "{..<2 :: nat} = {0, 1}" by auto
  have "multi_create demo_multi_env 4 1 \<lparr>success = 0, failed = 0\<rparr> =
    (if \<forall>i<2. \<exists>k. env_waitpid demo_multi_env k (env_fork demo_multi_env i) = env_fork demo_multi_env i
     then Some (Parent_returns (sorted_list_of_set (env_fork demo_multi_env ` {..<2}))) else None)"
    by (rule multi_create_parent) (auto simp: demo_multi_env_def set_multi_env_def numeral_2_eq_2 less_Suc_eq intro!: exI [of _ 5])
  also have "\<dots> = Some (Parent_returns [101, 102])"
    by (auto simp: demo_multi_env_def lt intro!: exI [of _ 5])
  finally show ?thesis .
qed

text \<open>
  The wait of \<open>thread_create\<close> is inverted. \<open>pthread_kill(t, 0)\<close> answers 0 for a thread that
  exists. When every thread was created, the function returns after one pass of
  \<open>n\<close> calls if every thread is still running, without waiting for any of them, and it never returns once
  a thread has ended before its first check.
\<close>
theorem thread_create_wait_inverted:
  assumes "0 < n" "\<forall>i<n. fst (create i) = 0"
    "\<forall>i<n. (\<forall>k. kill k (snd (create i)) = 0) \<or> (\<forall>k. kill k (snd (create i)) \<noteq> 0)"
  shows "thread_create create kill (int n) ms =
    (if \<forall>i<n. kill 0 (snd (create i)) = 0 then Some (n, ms\<lparr>success := success ms + int n\<rparr>) else None)"
proof -
  let ?ts = "map (snd \<circ> create) [0..<n]"
  let ?pool = "sorted_list_of_set (set ?ts)"
  have loop: "create_loop create [0..<n] (replicate n None, [], ms) =
      (map Some ?ts, ?pool, ms\<lparr>success := success ms + int n\<rparr>)"
    using create_loop_all [OF assms(2), of 0 "replicate n None" "[]" ms] fold_insort_insert [of "[]" ?ts] by simp
  have stable: "\<forall>t\<in>set ?ts. (\<forall>k. kill k t = 0) \<or> (\<forall>k. kill k t \<noteq> 0)" using assms(3) by auto
  have "thread_wait kill 0 (map Some ?ts) ?pool = (if \<forall>i<n. kill 0 (snd (create i)) = 0 then Some n else None)"
  proof (cases "\<forall>i<n. kill 0 (snd (create i)) = 0")
    case True
    obtain pool' where p: "kill_pass kill 0 (map Some ?ts) ?pool = Some (0 + length ?ts, pool')"
      "set pool' = {t \<in> set ?pool. t \<in> set ?ts \<longrightarrow> (\<forall>k. kill k t \<noteq> 0)}"
      using kill_pass_stable [OF stable, of ?pool 0] by auto
    have "set pool' = {}" unfolding p(2) using True by auto
    then have "pool' = []" by simp
    moreover have "?pool \<noteq> []" using assms(1) by simp
    ultimately show ?thesis using True p(1) by (simp add: thread_wait.simps)
  next
    case False
    then obtain i where i: "i < n" "\<forall>k. kill k (snd (create i)) \<noteq> 0" using assms(3) by blast
    then have "thread_wait kill 0 (map Some ?ts) ?pool = None"
      by (intro thread_wait_dead [OF stable, of "snd (create i)"]) auto
    then show ?thesis using False by simp
  qed
  then show ?thesis using loop assms(1) by (simp add: thread_create_def)
qed

theorem thread_create_wait_inverted_witness:
  "thread_create (\<lambda>i. (0, i + 7)) (\<lambda>_ t. if t = 8 then 3 else 0) (int 2) \<lparr>success = 0, failed = 0\<rparr> = None"
  by (subst thread_create_wait_inverted) (auto simp: numeral_2_eq_2 less_Suc_eq)

end
