(* ===== verification/Util_Ip.thy ===== *)
theory Util_Ip
  imports C_Arrays
begin

text \<open>
  The address check of \<^verbatim>\<open>utils/ip.h\<close>. A C string is the list of its characters before the terminating
  NUL. The conversion \<open>%d\<close> of \<open>sscanf\<close> is written out as the C standard has it: white space is skipped,
  an optional sign and the longest run of digits are read, a missing number is a matching failure, and a
  number that does not fit in an \<open>int\<close> is undefined (\<^term>\<open>None\<close>).
\<close>

section \<open>Scanning an integer\<close>

definition isspace :: "char \<Rightarrow> bool" where
  "isspace c \<longleftrightarrow> (of_char c :: nat) = 32 \<or> 9 \<le> (of_char c :: nat) \<and> (of_char c :: nat) \<le> 13"

definition isdigit :: "char \<Rightarrow> bool" where
  "isdigit c \<longleftrightarrow> 48 \<le> (of_char c :: nat) \<and> (of_char c :: nat) \<le> 57"

definition digit_value :: "char \<Rightarrow> nat" where
  "digit_value c = of_char c - 48"

definition decimal :: "string \<Rightarrow> nat" where
  "decimal ds = foldl (\<lambda>n c. 10 * n + digit_value c) 0 ds"

fun scan_sign :: "string \<Rightarrow> bool \<times> string" where
  "scan_sign [] = (False, [])"
| "scan_sign (c # s) = (if c = CHR ''-'' then (True, s) else if c = CHR ''+'' then (False, s) else (False, c # s))"

definition scan_d :: "string \<Rightarrow> (int \<times> string) option option" where
  "scan_d s = (case scan_sign (dropWhile isspace s) of (neg, s) \<Rightarrow>
     let ds = takeWhile isdigit s; v = (if neg then - int (decimal ds) else int (decimal ds)) in
     if ds = [] then Some None
     else do { v \<leftarrow> int_ok v; Some (Some (v, dropWhile isdigit s)) })"

text \<open>The format \<open>%d.%d. \<dots>\<close> with \<open>n\<close> dots: the integers assigned before the first failure.\<close>

fun scan_fields :: "nat \<Rightarrow> string \<Rightarrow> int list option" where
  "scan_fields n s = (case scan_d s of
      None \<Rightarrow> None
    | Some None \<Rightarrow> Some []
    | Some (Some (v, s)) \<Rightarrow> (case n of 0 \<Rightarrow> Some [v]
        | Suc m \<Rightarrow> (case s of [] \<Rightarrow> Some [v]
            | c # s \<Rightarrow> if c = CHR ''.'' then map_option ((#) v) (scan_fields m s) else Some [v])))"

declare scan_fields.simps [simp del]

section \<open>ipvalid\<close>

text \<open>The loop over the four integers.\<close>

fun octets_ok :: "int list \<Rightarrow> bool" where
  "octets_ok [] = True"
| "octets_ok (v # a) = (if v < 0 \<or> v > 255 then False else octets_ok a)"

fun ipvalid :: "string option \<Rightarrow> bool option" where
  "ipvalid None = Some False"
| "ipvalid (Some ip) = do {
     a \<leftarrow> scan_fields 3 ip;
     (if length a \<noteq> 4 then Some False else Some (octets_ok a)) }"

section \<open>What is accepted\<close>

text \<open>A text that \<open>%d\<close> reads as \<open>v\<close>: white space, a sign, digits.\<close>

definition field_of :: "string \<Rightarrow> int \<Rightarrow> bool" where
  "field_of f v \<longleftrightarrow> (\<exists>ws sg ds. f = ws @ sg @ ds \<and> list_all isspace ws \<and> sg \<in> {'''', ''+'', ''-''} \<and>
     ds \<noteq> [] \<and> list_all isdigit ds \<and> v = (if sg = ''-'' then - int (decimal ds) else int (decimal ds)))"

text \<open>The field ends where the digits end.\<close>

definition no_digit_next :: "string \<Rightarrow> bool" where
  "no_digit_next r \<longleftrightarrow> (case r of [] \<Rightarrow> True | c # _ \<Rightarrow> \<not> isdigit c)"

lemma no_digit_next_simps [simp]: "no_digit_next []" "no_digit_next (c # r) \<longleftrightarrow> \<not> isdigit c"
  by (simp_all add: no_digit_next_def)

lemma isdigit_not:
  assumes "isdigit c"
  shows "\<not> isspace c" "c \<noteq> CHR ''-''" "c \<noteq> CHR ''+''"
  using assms by (auto simp: isdigit_def isspace_def)

lemma scan_digits:
  assumes "list_all isdigit ds" "no_digit_next r"
  shows "takeWhile isdigit (ds @ r) = ds" "dropWhile isdigit (ds @ r) = r"
  using assms by (induction ds) (cases r; simp)+

lemma scan_sign_split:
  "scan_sign s = (neg, t) \<longleftrightarrow> (\<exists>sg. s = sg @ t \<and> (sg = ''-'' \<and> neg \<or> sg = ''+'' \<and> \<not> neg \<or>
     sg = '''' \<and> \<not> neg \<and> (t = [] \<or> hd t \<noteq> CHR ''-'' \<and> hd t \<noteq> CHR ''+'')))"
  by (cases s) auto

lemma scan_d_field:
  assumes "field_of f v" "int_ok v = Some v" "no_digit_next r"
  shows "scan_d (f @ r) = Some (Some (v, r))"
proof -
  obtain ws sg ds where f: "f = ws @ sg @ ds" "list_all isspace ws" "sg \<in> {'''', ''+'', ''-''}" "ds \<noteq> []"
    "list_all isdigit ds" "v = (if sg = ''-'' then - int (decimal ds) else int (decimal ds))"
    using assms(1) by (auto simp: field_of_def)
  have d: "isdigit (hd ds)" "hd ds # tl ds = ds" using f(4,5) by (cases ds; simp)+
  have sp: "\<not> isspace CHR ''+''" "\<not> isspace CHR ''-''" by (simp_all add: isspace_def)
  have "dropWhile isspace (f @ r) = sg @ ds @ r"
    using f(2,3) d(1) isdigit_not(1) [OF d(1)] sp f(4) unfolding f(1)
    by (induction ws) (cases ds; auto)+
  moreover have "scan_sign (sg @ ds @ r) = (sg = ''-'', ds @ r)"
    using f(3,4) isdigit_not [OF d(1)] by (cases ds) auto
  ultimately show ?thesis
    using scan_digits [OF f(5) assms(3)] f(4,6) assms(2) by (auto simp: scan_d_def)
qed

lemma dropWhile_no_digit: "no_digit_next (dropWhile isdigit s)"
  by (induction s) auto

lemma scan_d_SomeD:
  assumes "scan_d s = Some (Some (v, r))"
  shows "\<exists>f. s = f @ r \<and> field_of f v \<and> no_digit_next r"
proof -
  obtain neg t where t: "scan_sign (dropWhile isspace s) = (neg, t)" by fastforce
  let ?ds = "takeWhile isdigit t"
  from assms t have v: "?ds \<noteq> []" "r = dropWhile isdigit t"
    "v = (if neg then - int (decimal ?ds) else int (decimal ?ds))"
    by (auto simp: scan_d_def int_ok_def Let_def bind_Some_iff split: if_splits)
  from t obtain sg where sg: "dropWhile isspace s = sg @ t" "sg \<in> {'''', ''+'', ''-''}" "sg = ''-'' \<longleftrightarrow> neg"
    by (auto simp: scan_sign_split)
  have "s = (takeWhile isspace s @ sg @ ?ds) @ r"
    using sg(1) v(2) takeWhile_dropWhile_id [of isspace s] takeWhile_dropWhile_id [of isdigit t] by simp
  moreover have "field_of (takeWhile isspace s @ sg @ ?ds) v"
    unfolding field_of_def using sg(2,3) v(1,3)
    by (intro exI [of _ "takeWhile isspace s"] exI [of _ sg] exI [of _ ?ds]) (auto simp: list_all_iff dest: set_takeWhileD)
  ultimately show ?thesis using v(2) dropWhile_no_digit by blast
qed

lemma scan_fields_0:
  "field_of f v \<Longrightarrow> int_ok v = Some v \<Longrightarrow> no_digit_next r \<Longrightarrow> scan_fields 0 (f @ r) = Some [v]"
  by (simp add: scan_fields.simps [of 0] scan_d_field)

lemma scan_fields_Suc:
  assumes "field_of f v" "int_ok v = Some v"
  shows "scan_fields (Suc n) (f @ CHR ''.'' # s) = map_option ((#) v) (scan_fields n s)"
proof -
  have "no_digit_next (CHR ''.'' # s)" by (simp add: isdigit_def)
  with assms show ?thesis by (simp add: scan_fields.simps [of "Suc n"] scan_d_field)
qed

lemma scan_fields_0D:
  assumes "scan_fields 0 s = Some [v]"
  shows "\<exists>f r. s = f @ r \<and> field_of f v \<and> no_digit_next r"
  using assms scan_d_SomeD [of s v] by (auto simp: scan_fields.simps [of 0 s] split: option.splits prod.splits)

lemma scan_fields_SucD:
  assumes "scan_fields (Suc n) s = Some (v # w # vs)"
  shows "\<exists>f s'. s = f @ CHR ''.'' # s' \<and> field_of f v \<and> scan_fields n s' = Some (w # vs)"
  using assms scan_d_SomeD [of s v]
  by (auto simp: scan_fields.simps [of "Suc n" s] split: option.splits prod.splits list.splits if_splits)

text \<open>A decimal number without sign and leading zeros, as it is usually written.\<close>

fun show_nat :: "nat \<Rightarrow> string" where
  "show_nat n = (if n < 10 then [char_of (48 + n)] else show_nat (n div 10) @ [char_of (48 + n mod 10)])"

declare show_nat.simps [simp del]

lemma digit_char: "d < 10 \<Longrightarrow> isdigit (char_of (48 + d)) \<and> digit_value (char_of (48 + d :: nat)) = d"
  by (simp add: isdigit_def digit_value_def)

lemma show_nat_digits: "list_all isdigit (show_nat n) \<and> show_nat n \<noteq> [] \<and> decimal (show_nat n) = n"
proof (induction n rule: show_nat.induct)
  case (1 n)
  show ?case
    using 1 digit_char [of n] digit_char [of "n mod 10"]
    by (cases "n < 10") (simp_all add: show_nat.simps [of n] decimal_def)
qed

lemma show_nat_field: "field_of (show_nat n) (int n)"
  using show_nat_digits [of n] unfolding field_of_def by (intro exI [of _ "[]"] exI [of _ "show_nat n"]) auto

section \<open>Properties\<close>

text \<open>
  C24: \<open>ipvalid\<close> accepts exactly the texts that start with four fields separated by single dots, each a
  number from 0 to 255 that may have white space and a sign before it and any number of leading zeros;
  whatever follows the last digit of the fourth field is ignored.
\<close>
theorem ipvalid_accepts:
  "ipvalid (Some ip) = Some True \<longleftrightarrow> (\<exists>f1 f2 f3 f4 r a b c d.
     ip = f1 @ CHR ''.'' # f2 @ CHR ''.'' # f3 @ CHR ''.'' # f4 @ r \<and> no_digit_next r \<and>
     field_of f1 a \<and> field_of f2 b \<and> field_of f3 c \<and> field_of f4 d \<and> {a, b, c, d} \<subseteq> {0..255})"
    (is "?L \<longleftrightarrow> ?R")
proof
  assume ?L
  then obtain a b c d where s: "scan_fields 3 ip = Some [a, b, c, d]" and ok: "octets_ok [a, b, c, d]"
    by (auto simp: bind_Some_iff numeral_eq_Suc length_Suc_conv split: if_splits)
  from s obtain f1 s1 where 1: "ip = f1 @ CHR ''.'' # s1" "field_of f1 a" "scan_fields 2 s1 = Some [b, c, d]"
    using scan_fields_SucD [of 2 ip] by (auto simp: numeral_eq_Suc)
  then obtain f2 s2 where 2: "s1 = f2 @ CHR ''.'' # s2" "field_of f2 b" "scan_fields 1 s2 = Some [c, d]"
    using scan_fields_SucD [of 1 s1] by (auto simp: numeral_eq_Suc)
  then obtain f3 s3 where 3: "s2 = f3 @ CHR ''.'' # s3" "field_of f3 c" "scan_fields 0 s3 = Some [d]"
    using scan_fields_SucD [of 0 s2] by auto
  then obtain f4 r where 4: "s3 = f4 @ r" "field_of f4 d" "no_digit_next r" using scan_fields_0D by blast
  from ok have "{a, b, c, d} \<subseteq> {0..255}" by (auto split: if_splits)
  with 1 2 3 4 show ?R by blast
next
  assume ?R
  then obtain f1 f2 f3 f4 r a b c d where
    ip: "ip = f1 @ CHR ''.'' # f2 @ CHR ''.'' # f3 @ CHR ''.'' # f4 @ r" "no_digit_next r" and
    fs: "field_of f1 a" "field_of f2 b" "field_of f3 c" "field_of f4 d" and vs: "{a, b, c, d} \<subseteq> {0..255}"
    by (elim exE conjE) (rule that; assumption)
  have "int_ok a = Some a" "int_ok b = Some b" "int_ok c = Some c" "int_ok d = Some d"
    using vs by (simp_all add: int_ok_small)
  with ip fs have "scan_fields (Suc (Suc (Suc 0))) ip = Some [a, b, c, d]"
    by (simp only: scan_fields_Suc scan_fields_0 option.map)
  then show ?L using vs by (simp add: numeral_eq_Suc)
qed

text \<open>
  The dotted form of four numbers that fit in an \<open>int\<close> is accepted if and only if every number is
  at most 255, whatever non-digit text follows.
\<close>
theorem ipvalid_dotted:
  assumes "list_all (\<lambda>n. int n \<le> INT_MAX) [a, b, c, d]" "no_digit_next r"
  shows "ipvalid (Some (show_nat a @ ''.'' @ show_nat b @ ''.'' @ show_nat c @ ''.'' @ show_nat d @ r)) =
    Some (a \<le> 255 \<and> b \<le> 255 \<and> c \<le> 255 \<and> d \<le> 255)"
proof -
  have "int_ok (int a) = Some (int a)" "int_ok (int b) = Some (int b)" "int_ok (int c) = Some (int c)"
    "int_ok (int d) = Some (int d)"
    using assms(1) by (simp_all add: int_ok_def INT_MIN_def)
  then have "scan_fields (Suc (Suc (Suc 0)))
      (show_nat a @ ''.'' @ show_nat b @ ''.'' @ show_nat c @ ''.'' @ show_nat d @ r) = Some [int a, int b, int c, int d]"
    using assms(2) by (simp add: scan_fields_Suc [OF show_nat_field] scan_fields_0 [OF show_nat_field])
  then show ?thesis by (simp add: numeral_eq_Suc)
qed

theorem ipvalid_dotted_witness:
  "ipvalid (Some (show_nat 192 @ ''.'' @ show_nat 168 @ ''.'' @ show_nat 256 @ ''.'' @ show_nat 1 @ ''x'')) =
    Some (192 \<le> (255 :: nat) \<and> 168 \<le> (255 :: nat) \<and> 256 \<le> (255 :: nat) \<and> 1 \<le> (255 :: nat))"
  by (rule ipvalid_dotted) (simp_all add: INT_MAX_def isdigit_def)

end
