(* ===== verification/Gen_Leetcode.thy ===== *)
theory Gen_Leetcode
  imports C_Arrays
begin

text \<open>
  The exercise program \<^verbatim>\<open>gencode/leetcode/main.cpp\<close>: its option table, \<open>longestPalindrome\<close> and
  \<open>pivotIndex\<close>. The results of \<open>getopt_long\<close> are a script. \<^term>\<open>None\<close> is undefined behaviour:
  a write behind the buffer, a table without a terminator or a signed overflow.
\<close>

section \<open>Options\<close>

record getopt_option =
  o_name :: "string option"
  o_has_arg :: int
  o_flag :: addr
  o_val :: int

definition no_argument :: int where
  "no_argument = 0"

definition required_argument :: int where
  "required_argument = 1"

definition optional_argument :: int where
  "optional_argument = 2"

definition UCHAR_MAX :: nat where
  "UCHAR_MAX = 255"

text \<open>\<open>*p++ = c\<close> on the local buffer \<open>short_options\<close>.\<close>

definition put_char :: "int \<Rightarrow> int list \<Rightarrow> int list option" where
  "put_char c buf = (if length buf < UCHAR_MAX * 3 + 1 then Some (buf @ [c]) else None)"

definition short_option :: "getopt_option \<Rightarrow> int list \<Rightarrow> int list option" where
  "short_option o' buf =
     (if o_flag o' = NULL \<and> 0 < o_val o' \<and> o_val o' \<le> int UCHAR_MAX
      then do {
        buf \<leftarrow> put_char (o_val o') buf;
        if o_has_arg o' = required_argument then put_char 58 buf
        else if o_has_arg o' = optional_argument then do { buf \<leftarrow> put_char 58 buf; put_char 58 buf }
        else Some buf
      }
      else Some buf)"

fun short_options_loop :: "getopt_option list \<Rightarrow> int list \<Rightarrow> int list option" where
  "short_options_loop [] buf = None"
| "short_options_loop (o' # os) buf = (case o_name o' of
     None \<Rightarrow> Some buf
   | Some _ \<Rightarrow> Option.bind (short_option o' buf) (short_options_loop os))"

text \<open>\<open>strdup\<close> copies up to the first zero byte.\<close>

definition cmd_long_options_to_short_options :: "getopt_option list \<Rightarrow> int list option" where
  "cmd_long_options_to_short_options options = do {
     buf \<leftarrow> short_options_loop options [];
     buf \<leftarrow> put_char 0 buf;
     Some (takeWhile (\<lambda>c. c \<noteq> 0) buf)
   }"

definition long_options :: "getopt_option list" where
  "long_options =
     [\<lparr>o_name = Some ''help'', o_has_arg = no_argument, o_flag = NULL, o_val = 104\<rparr>,
      \<lparr>o_name = Some ''version'', o_has_arg = no_argument, o_flag = NULL, o_val = 118\<rparr>,
      \<lparr>o_name = None, o_has_arg = 0, o_flag = NULL, o_val = 0\<rparr>]"

datatype parse_result = Parsed | Aborted

fun parse_loop :: "int list \<Rightarrow> parse_result option" where
  "parse_loop [] = None"
| "parse_loop (c # cs) =
     (if c = - 1 then Some Parsed else if c = 104 \<or> c = 118 then parse_loop cs else Some Aborted)"

text \<open>\<open>getopt\<close> stands for the calls of \<open>getopt_long\<close>: the results it returns one after the other for an option string.\<close>

definition parse_options :: "(int list \<Rightarrow> getopt_option list \<Rightarrow> int list) \<Rightarrow> parse_result option" where
  "parse_options getopt = do {
     short_options \<leftarrow> cmd_long_options_to_short_options long_options;
     parse_loop (getopt short_options long_options)
   }"

section \<open>longestPalindrome\<close>

text \<open>The \<open>while\<close> loop: \<open>istart\<close> and \<open>len\<close> survive it.\<close>

function pal_while :: "string \<Rightarrow> int \<Rightarrow> int \<Rightarrow> int \<Rightarrow> int \<Rightarrow> int \<times> int" where
  "pal_while s i istart jstart len =
     (if istart \<le> jstart
      then if s ! nat istart = s ! nat jstart
           then pal_while s i (istart + 1) (jstart - 1) (len + (if istart = jstart then 1 else 2))
           else (i, len)
      else (istart, len))"
  by pat_completeness auto
termination
  by (relation "measure (\<lambda>(s, i, istart, jstart, len). nat (jstart - istart + 1))") auto

text \<open>The loop over \<open>j\<close>; the result is \<open>len\<close>, \<open>max_length\<close>, \<open>max_index\<close>.\<close>

function pal_j :: "string \<Rightarrow> int \<Rightarrow> int \<Rightarrow> int \<Rightarrow> int \<Rightarrow> int \<Rightarrow> int \<Rightarrow> int \<times> int \<times> int" where
  "pal_j s i j istart len max_length max_index =
     (if i \<le> j
      then let (istart, len) = pal_while s i istart j len in
        if max_length < len then (len, len, i)
        else pal_j s i (j - 1) istart 0 max_length max_index
      else (len, max_length, max_index))"
  by pat_completeness auto
termination
  by (relation "measure (\<lambda>(s, i, j, istart, len, max_length, max_index). nat (j - i + 1))") auto

function pal_i :: "string \<Rightarrow> int \<Rightarrow> int \<Rightarrow> int \<Rightarrow> int \<Rightarrow> int \<times> int" where
  "pal_i s i len max_length max_index =
     (if i < int (length s)
      then let (len, max_length, max_index) = pal_j s i (int (length s) - 1) i len max_length max_index
           in pal_i s (i + 1) len max_length max_index
      else (max_length, max_index))"
  by pat_completeness auto
termination
  by (relation "measure (\<lambda>(s, i, len, max_length, max_index). nat (int (length s) - i))") auto

definition substr :: "int \<Rightarrow> int \<Rightarrow> string \<Rightarrow> string" where
  "substr pos n s = take (nat n) (drop (nat pos) s)"

definition longestPalindrome :: "string \<Rightarrow> string" where
  "longestPalindrome s = (let (max_length, max_index) = pal_i s 0 0 0 0 in substr max_index max_length s)"

section \<open>pivotIndex\<close>


function pivot_loop :: "int list \<Rightarrow> nat \<Rightarrow> int \<Rightarrow> int \<Rightarrow> int option" where
  "pivot_loop nums i left right =
     (if i < length nums
      then do {
        left \<leftarrow> (if 0 < i then iadd left (nums ! (i - 1)) else Some left);
        right \<leftarrow> iadd right (- (nums ! i));
        if left = right then Some (int i) else pivot_loop nums (Suc i) left right
      }
      else Some (- 1))"
  by pat_completeness auto
termination
  by (relation "measure (\<lambda>(nums, i, left, right). length nums - i)") auto


declare pal_while.simps [simp del] pal_j.simps [simp del] pal_i.simps [simp del] pivot_loop.simps [simp del]

section \<open>Option strings\<close>

definition wanted :: "getopt_option \<Rightarrow> bool" where
  "wanted o' \<longleftrightarrow> o_flag o' = NULL \<and> 0 < o_val o' \<and> o_val o' \<le> int UCHAR_MAX"

definition spelling :: "getopt_option \<Rightarrow> int list" where
  "spelling o' = (if wanted o' then o_val o' # (if o_has_arg o' = required_argument then [58]
     else if o_has_arg o' = optional_argument then [58, 58] else []) else [])"

lemma spelling_length: "length (spelling o') \<le> (if wanted o' then 3 else 0)"
  by (simp add: spelling_def)

lemma spellings_length: "length (concat (map spelling os)) \<le> 3 * length (filter wanted os)"
proof (induction os)
  case (Cons o' os)
  then show ?case using spelling_length [of o'] by (auto split: if_splits)
qed simp

lemma spelling_nonzero: "0 \<notin> set (spelling o')"
  by (auto simp: spelling_def wanted_def)

lemma short_option_spelling:
  "length buf + length (spelling o') \<le> UCHAR_MAX * 3 \<Longrightarrow> short_option o' buf = Some (buf @ spelling o')"
  by (auto simp: short_option_def spelling_def wanted_def put_char_def required_argument_def optional_argument_def)

lemma short_options_loop_spelling:
  assumes "list_all (\<lambda>o'. o_name o' \<noteq> None) os" "o_name e = None"
    "length buf + 3 * length (filter wanted os) \<le> UCHAR_MAX * 3"
  shows "short_options_loop (os @ e # rest) buf = Some (buf @ concat (map spelling os))"
  using assms
proof (induction os arbitrary: buf)
  case (Cons o' os)
  then have "length buf + length (spelling o') + 3 * length (filter wanted os) \<le> UCHAR_MAX * 3"
    using spelling_length [of o'] by (auto split: if_splits)
  with Cons show ?case by (auto simp: short_option_spelling)
qed simp

section \<open>Pivots\<close>










section \<open>Properties\<close>



text \<open>
  The short option string of a terminated option table is the concatenation of its entries'
  letters, each with no, one or two colons, as long as at most \<open>UCHAR_MAX\<close> entries have one; the
  program's own table gives \<open>hv\<close>, so its option parser ends on every script of \<open>getopt_long\<close> with
  known letters and aborts on the first other one.
\<close>
theorem short_options_spelling:
  assumes "list_all (\<lambda>o'. o_name o' \<noteq> None) os" "o_name e = None" "length (filter wanted os) \<le> UCHAR_MAX"
  shows "cmd_long_options_to_short_options (os @ e # rest) = Some (concat (map spelling os)) \<and>
    cmd_long_options_to_short_options long_options = Some [104, 118] \<and>
    (set cs \<subseteq> {104, 118} \<longrightarrow> parse_options (\<lambda>_ _. cs @ - 1 # ds) = Some Parsed \<and>
       parse_options (\<lambda>_ _. cs @ 63 # ds) = Some Aborted)"
proof (intro conjI impI)
  have loop: "short_options_loop (os @ e # rest) [] = Some (concat (map spelling os))"
    using short_options_loop_spelling [OF assms(1,2), of "[]" rest] assms(3) by simp
  have "length (concat (map spelling os)) \<le> 3 * length (filter wanted os)"
    by (rule spellings_length)
  moreover have "takeWhile (\<lambda>c. c \<noteq> 0) (concat (map spelling os) @ [0]) = concat (map spelling os)"
    using spelling_nonzero by (subst takeWhile_append2) auto
  ultimately show "cmd_long_options_to_short_options (os @ e # rest) = Some (concat (map spelling os))"
    using assms(3) unfolding cmd_long_options_to_short_options_def loop
    by (simp add: put_char_def)
  show own: "cmd_long_options_to_short_options long_options = Some [104, 118]"
    by (simp add: cmd_long_options_to_short_options_def long_options_def short_option_def put_char_def UCHAR_MAX_def
      no_argument_def required_argument_def optional_argument_def)
  assume "set cs \<subseteq> {104, 118}"
  then have "parse_loop (cs @ - 1 # ds) = Some Parsed" "parse_loop (cs @ 63 # ds) = Some Aborted"
    by (induction cs) auto
  with own show "parse_options (\<lambda>_ _. cs @ - 1 # ds) = Some Parsed" "parse_options (\<lambda>_ _. cs @ 63 # ds) = Some Aborted"
    by (simp_all add: parse_options_def)
qed

theorem short_options_spelling_witness:
  "cmd_long_options_to_short_options long_options = Some [104, 118] \<and>
   parse_options (\<lambda>_ _. [104, 118, - 1]) = Some Parsed \<and> parse_options (\<lambda>_ _. [104, 63]) = Some Aborted"
proof -
  have split: "[104, 118, - 1 :: int] = [104, 118] @ - 1 # []" "[104, 63 :: int] = [104] @ 63 # []" by simp_all
  show ?thesis unfolding split
    using short_options_spelling [of "take 2 long_options" "long_options ! 2" "[]" "[104, 118]" "[]"]
      short_options_spelling [of "take 2 long_options" "long_options ! 2" "[]" "[104]" "[]"]
    by (simp add: long_options_def UCHAR_MAX_def wanted_def)
qed

text \<open>
  \<open>longestPalindrome\<close> does not return the longest palindrome: \<open>len\<close> keeps the count of a comparison
  that failed and of the previous start. For the string in \<open>main\<close> the result is no palindrome at all,
  and for \<open>aa\<close> it is a shorter one.
\<close>
theorem longest_palindrome_wrong:
  "longestPalindrome ''aacabdkacaa'' = ''acabdkacaa'' \<and> rev ''acabdkacaa'' \<noteq> ''acabdkacaa'' \<and>
   longestPalindrome ''aa'' = ''a'' \<and> rev ''aa'' = ''aa''"
  by code_simp

end
