(* ===== verification/Gen_Helloworld.thy ===== *)
theory Gen_Helloworld
  imports C_Arrays "HOL-Library.Sublist"
begin

text \<open>
  The array routines of \<^verbatim>\<open>gencode/mg_server/helloworld.cpp\<close>: the search \<open>mid_find\<close>, the maximum segment
  sum \<open>arr_test\<close>, \<open>minOperations\<close> and \<open>rotate\<close>. \<^term>\<open>None\<close> is an index out of bounds, a signed overflow,
  a division by zero or a loop without end.
\<close>

section \<open>mid\_find\<close>

text \<open>The loop ends with an index that was found (\<open>Inl\<close>) or with the final \<open>front\<close> (\<open>Inr\<close>).\<close>

partial_function (option) mid_loop :: "int list \<Rightarrow> int \<Rightarrow> int \<Rightarrow> int \<Rightarrow> (int + int) option" where
  "mid_loop vec num front end' = (if front < end' then do {
     let mid_idx = (end' - front) div 2;
     mid \<leftarrow> aget vec mid_idx;
     (if mid > num then mid_loop vec num front (mid_idx - 1)
      else if mid < num then mid_loop vec num (mid_idx + 1) end'
      else Some (Inl mid_idx)) }
     else Some (Inr front))"

definition mid_find :: "int list \<Rightarrow> int \<Rightarrow> int \<Rightarrow> int option" where
  "mid_find vec length' num = (if length' \<le> 0 then Some 1 else do {
     r \<leftarrow> mid_loop vec num 0 (length' - 1);
     (case r of
        Inl idx \<Rightarrow> Some idx
      | Inr front \<Rightarrow> do {
          v \<leftarrow> aget vec front;
          (if v \<noteq> num \<and> v > num then Some front else iadd length' 1) }) })"

section \<open>arr\_test\<close>

fun arr_loop :: "int list \<Rightarrow> int \<Rightarrow> int \<Rightarrow> int option" where
  "arr_loop [] sm max' = Some max'"
| "arr_loop (v # vs) sm max' = do {
     sm \<leftarrow> iadd sm v;
     let max' = (if sm > max' then sm else max');
     let sm = (if sm \<le> 0 then 0 else sm);
     arr_loop vs sm max' }"

text \<open>The array is the list of its \<open>length\<close> elements.\<close>

definition arr_test :: "int list \<Rightarrow> int option" where
  "arr_test vec = (case vec of [] \<Rightarrow> Some 0 | v # _ \<Rightarrow> arr_loop vec 0 v)"

section \<open>minOperations\<close>

fun min_loop :: "int list \<Rightarrow> int \<Rightarrow> int \<Rightarrow> int option" where
  "min_loop [] needAddTo steps = Some steps"
| "min_loop (item # items) needAddTo steps =
     (if item > needAddTo then do {
        needAddTo \<leftarrow> iadd item 1;
        min_loop items needAddTo steps }
      else do {
        d \<leftarrow> isub needAddTo item;
        steps \<leftarrow> iadd steps d;
        needAddTo \<leftarrow> iadd needAddTo 1;
        min_loop items needAddTo steps })"

definition minOperations :: "int list \<Rightarrow> int option" where
  "minOperations nums = (if length nums \<le> 1 then Some 0 else min_loop nums (nums ! 0) 0)"

section \<open>rotate\<close>

text \<open>\<open>left\<close> is the number of rounds still to come: the loop runs for \<open>times\<close> from 0 to \<open>size\<close>.\<close>

fun rotate_loop :: "nat \<Rightarrow> int \<Rightarrow> int \<Rightarrow> int \<Rightarrow> int list \<Rightarrow> int list option" where
  "rotate_loop 0 right save nxt nums = Some nums"
| "rotate_loop (Suc left) right save nxt nums = do {
     tmp \<leftarrow> aget nums nxt;
     nums \<leftarrow> aset nums nxt save;
     nxt \<leftarrow> iadd nxt right;
     nxt \<leftarrow> irem nxt (int (length nums));
     rotate_loop left right tmp nxt nums }"

definition rotate_vec :: "int list \<Rightarrow> int \<Rightarrow> int list option" where
  "rotate_vec nums k = (let size' = int (length nums) in do {
     right \<leftarrow> irem k size';
     (if right = 0 then Some nums
      else do {
        save \<leftarrow> aget nums 0;
        rotate_loop (length nums + 1) right save right nums }) })"

section \<open>The maximum segment sum\<close>

text \<open>After the prefix \<open>ps\<close>: \<open>sm\<close> is the best sum of a suffix, \<open>mx\<close> the best of a non-empty segment.\<close>

definition best_suffix :: "int list \<Rightarrow> int \<Rightarrow> bool" where
  "best_suffix ps sm \<longleftrightarrow> (\<exists>b. suffix b ps \<and> sm = sum_list b) \<and> (\<forall>b. suffix b ps \<longrightarrow> sum_list b \<le> sm)"

lemma best_suffix_snoc:
  assumes "best_suffix ps sm"
  shows "best_suffix (ps @ [x]) (if sm + x \<le> 0 then 0 else sm + x)"
    "\<exists>b. suffix b (ps @ [x]) \<and> b \<noteq> [] \<and> sm + x = sum_list b"
    "\<And>b. suffix b (ps @ [x]) \<Longrightarrow> b \<noteq> [] \<Longrightarrow> sum_list b \<le> sm + x"
proof -
  from assms obtain b where b: "suffix b ps" "sm = sum_list b" by (auto simp: best_suffix_def)
  show att: "\<exists>b. suffix b (ps @ [x]) \<and> b \<noteq> [] \<and> sm + x = sum_list b"
    using b by (intro exI [of _ "b @ [x]"]) simp
  show ub: "sum_list b \<le> sm + x" if "suffix b (ps @ [x])" "b \<noteq> []" for b
    using assms that by (auto simp: best_suffix_def)
  show "best_suffix (ps @ [x]) (if sm + x \<le> 0 then 0 else sm + x)"
  proof (cases "sm + x \<le> 0")
    case True
    have "sum_list c \<le> 0" if "suffix c (ps @ [x])" for c
      using ub [OF that] True by (cases "c = []") auto
    moreover have "suffix [] (ps @ [x])" by simp
    ultimately show ?thesis using True unfolding best_suffix_def by (metis sum_list.Nil)
  next
    case False
    have "sum_list c \<le> sm + x" if "suffix c (ps @ [x])" for c
      using ub [OF that] False by (cases "c = []") auto
    with att False show ?thesis unfolding best_suffix_def by auto
  qed
qed

definition best_segment :: "int list \<Rightarrow> int \<Rightarrow> bool" where
  "best_segment vec m \<longleftrightarrow> (\<exists>b. sublist b vec \<and> b \<noteq> [] \<and> m = sum_list b) \<and>
     (\<forall>b. sublist b vec \<longrightarrow> b \<noteq> [] \<longrightarrow> sum_list b \<le> m)"

lemma abs_sum_list_le: "\<bar>sum_list xs\<bar> \<le> sum_list (map abs xs)" for xs :: "int list"
  by (induction xs) auto

lemma abs_sum_sublist:
  assumes "sublist b (vec :: int list)"
  shows "\<bar>sum_list b\<bar> \<le> sum_list (map abs vec)"
proof -
  obtain a c where vec: "vec = a @ b @ c" using assms by (auto simp: sublist_def)
  have "0 \<le> sum_list (map abs xs)" for xs :: "int list" by (induction xs) auto
  from this [of a] this [of c] abs_sum_list_le [of b] show ?thesis by (simp add: vec)
qed

lemma arr_loop_best:
  assumes "sum_list (map abs (ps @ vs)) < 2 ^ 31" "best_suffix ps sm"
    "\<exists>b. sublist b (ps @ vs) \<and> b \<noteq> [] \<and> mx = sum_list b"
    "\<forall>b. sublist b ps \<longrightarrow> b \<noteq> [] \<longrightarrow> sum_list b \<le> mx"
  shows "\<exists>m. arr_loop vs sm mx = Some m \<and> best_segment (ps @ vs) m"
  using assms
proof (induction vs arbitrary: ps sm mx)
  case Nil
  then show ?case by (auto simp: best_segment_def)
next
  case (Cons x vs)
  note suf = best_suffix_snoc [OF Cons.prems(2), where x = x]
  from suf(2) obtain b where b: "suffix b (ps @ [x])" "b \<noteq> []" "sm + x = sum_list b" by blast
  have sub: "sublist b (ps @ x # vs)"
    using b(1) by (auto simp: suffix_def) (metis append.assoc append_Cons append_Nil sublist_appendI)
  have add: "iadd sm x = Some (sm + x)"
    using abs_sum_sublist [OF sub] Cons.prems(1) b(3) by (intro iadd_small) linarith
  let ?mx = "if sm + x > mx then sm + x else mx"
  have "\<exists>b. sublist b (ps @ x # vs) \<and> b \<noteq> [] \<and> ?mx = sum_list b"
    using sub b Cons.prems(3) by auto
  moreover have "sum_list c \<le> ?mx" if "sublist c (ps @ [x])" "c \<noteq> []" for c
    using that suf(3) [of c] Cons.prems(4) by (force simp: sublist_snoc)
  ultimately have "\<exists>m. arr_loop vs (if sm + x \<le> 0 then 0 else sm + x) ?mx = Some m \<and> best_segment ((ps @ [x]) @ vs) m"
    using Cons.prems(1) by (intro Cons.IH [OF _ suf(1)]) auto
  then show ?case by (simp add: add Let_def)
qed

section \<open>Strictly increasing by increments\<close>

text \<open>The values to which \<open>minOperations\<close> raises the elements.\<close>

fun raised :: "int list \<Rightarrow> int \<Rightarrow> int list" where
  "raised [] need = []"
| "raised (x # xs) need = max x need # raised xs (max x need + 1)"

lemma raised_ge: "y \<in> set (raised xs need) \<Longrightarrow> need \<le> y"
  by (induction xs need rule: raised.induct) fastforce+

lemma raised_sorted: "sorted_wrt (<) (raised xs need)"
  by (induction xs need rule: raised.induct) (force dest: raised_ge)+

lemma raised_above: "list_all2 (\<le>) xs (raised xs need)"
  by (induction xs need rule: raised.induct) auto

lemma raised_least:
  "list_all2 (\<le>) xs zs \<Longrightarrow> sorted_wrt (<) zs \<Longrightarrow> \<forall>z \<in> set zs. need \<le> z \<Longrightarrow> list_all2 (\<le>) (raised xs need) zs"
proof (induction xs need arbitrary: zs rule: raised.induct)
  case (2 x xs need)
  then obtain z zs' where zs: "zs = z # zs'" "x \<le> z" "list_all2 (\<le>) xs zs'" by (auto simp: list_all2_Cons1)
  with 2 have "\<forall>w \<in> set zs'. max x need + 1 \<le> w" by fastforce
  with 2 zs show ?case by simp
qed simp

lemma sum_list_mono2: "list_all2 (\<le>) xs ys \<Longrightarrow> sum_list xs \<le> sum_list ys" for xs ys :: "int list"
  by (induction rule: list_all2_induct) auto

lemma min_loop_raised:
  assumes "\<forall>x \<in> set xs. 0 \<le> x \<and> x + int (length xs) \<le> K" "0 \<le> need" "need + int (length xs) \<le> K" "0 \<le> steps"
    "steps + int (length xs) * K < 2 ^ 31" "K < 2 ^ 31"
  shows "min_loop xs need steps = Some (steps + (sum_list (raised xs need) - sum_list xs))"
  using assms
proof (induction xs arbitrary: need steps)
  case (Cons x xs)
  define v where "v = max x need"
  have x: "0 \<le> x" "x + int (length xs) + 1 \<le> K" using Cons.prems(1) by auto
  then have v: "0 \<le> v" "v + 1 + int (length xs) \<le> K" "v \<le> K" "x \<le> v" using Cons.prems(2,3) by (auto simp: v_def)
  have tot: "steps + K + int (length xs) * K < 2 ^ 31" using Cons.prems(5) by (simp add: algebra_simps)
  have "0 \<le> int (length xs) * K" using v by simp
  with tot x have small: "\<bar>v + 1\<bar> < 2 ^ 31" "\<bar>v - x\<bar> < 2 ^ 31" "\<bar>steps + (v - x)\<bar> < 2 ^ 31"
    using v Cons.prems(4,6) by linarith+
  have step: "min_loop (x # xs) need steps = min_loop xs (v + 1) (steps + (v - x))"
    using small by (auto simp: v_def max_def iadd_small isub_small)
  have "min_loop xs (v + 1) (steps + (v - x)) =
      Some (steps + (v - x) + (sum_list (raised xs (v + 1)) - sum_list xs))"
    by (rule Cons.IH) (use Cons.prems v x tot in auto)
  then show ?case unfolding step by (simp add: v_def)
qed simp

section \<open>Rotation\<close>

text \<open>The position written in round \<open>s\<close> (from 1 on) is \<open>s * r\<close> modulo the size.\<close>

definition rpos :: "nat \<Rightarrow> nat \<Rightarrow> nat \<Rightarrow> nat" where
  "rpos n r s = s * r mod n"

lemma rpos_lt: "0 < n \<Longrightarrow> rpos n r s < n"
  by (simp add: rpos_def)

lemma rpos_less:
  assumes "coprime r n" "0 < s" "s < s'" "s' \<le> n"
  shows "rpos n r s \<noteq> rpos n r s'"
proof
  assume "rpos n r s = rpos n r s'"
  then have "n dvd s' * r - s * r" using assms(3) by (simp add: rpos_def mod_eq_dvd_iff_nat [symmetric])
  then have "n dvd (s' - s) * r" by (simp add: diff_mult_distrib)
  then have "n dvd s' - s" using assms(1) by (simp add: coprime_commute coprime_dvd_mult_left_iff)
  with assms(2-4) show False by (auto dest: dvd_imp_le)
qed

lemma rpos_inj:
  assumes "coprime r n" "0 < s" "s \<le> n" "0 < s'" "s' \<le> n" "rpos n r s = rpos n r s'"
  shows "s = s'"
  using assms rpos_less [of r n s s'] rpos_less [of r n s' s] by (metis linorder_neqE_nat)

text \<open>After \<open>t\<close> rounds, the first \<open>t\<close> positions hold the values of their predecessors.\<close>

definition rotating :: "int list \<Rightarrow> nat \<Rightarrow> nat \<Rightarrow> int list \<Rightarrow> bool" where
  "rotating xs r t ys \<longleftrightarrow> length ys = length xs \<and>
     (\<forall>s. 0 < s \<longrightarrow> s \<le> t \<longrightarrow> ys ! rpos (length xs) r s = xs ! rpos (length xs) r (s - 1)) \<and>
     (\<forall>s. t < s \<longrightarrow> s \<le> length xs \<longrightarrow> ys ! rpos (length xs) r s = xs ! rpos (length xs) r s)"

lemma rotating_step:
  assumes "coprime r (length xs)" "rotating xs r t ys" "t < length xs"
  shows "rotating xs r (Suc t) (ys[rpos (length xs) r (Suc t) := xs ! rpos (length xs) r t])"
proof -
  let ?n = "length xs"
  have ne: "rpos ?n r s \<noteq> rpos ?n r (Suc t)" if "0 < s" "s \<le> ?n" "s \<noteq> Suc t" for s
    using rpos_inj [OF assms(1), of s "Suc t"] that assms(3) by auto
  have lt: "rpos ?n r s < ?n" for s by (rule rpos_lt) (use assms(3) in linarith)
  have len: "length ys = ?n" using assms(2) by (simp add: rotating_def)
  have keep: "ys[rpos ?n r (Suc t) := v] ! rpos ?n r s = ys ! rpos ?n r s" if "0 < s" "s \<le> ?n" "s \<noteq> Suc t" for s v
    using ne [OF that] by (simp add: nth_list_update_neq)
  have "ys[rpos ?n r (Suc t) := xs ! rpos ?n r t] ! rpos ?n r s = xs ! rpos ?n r (s - 1)" if "0 < s" "s \<le> Suc t" for s
    using that keep [of s] assms(2,3) lt len by (cases "s = Suc t") (auto simp: rotating_def)
  moreover have "ys[rpos ?n r (Suc t) := xs ! rpos ?n r t] ! rpos ?n r s = xs ! rpos ?n r s" if "Suc t < s" "s \<le> ?n" for s
    using that keep [of s] assms(2) by (auto simp: rotating_def)
  ultimately show ?thesis using len by (simp add: rotating_def)
qed

lemma rpos_next: "0 < n \<Longrightarrow> (int (rpos n r s) + int r) mod int n = int (rpos n r (Suc s))"
  by (simp add: rpos_def zmod_int algebra_simps mod_simps)

lemma rotate_rounds:
  assumes "coprime r (length xs)" "0 < length xs" "r < length xs" "length xs \<le> 2 ^ 30" "rotating xs r t ys" "t \<le> length xs"
  shows "\<exists>zs. rotating xs r (length xs) zs \<and>
    rotate_loop (length xs - t + m) (int r) (xs ! rpos (length xs) r t) (int (rpos (length xs) r (Suc t))) ys =
    rotate_loop m (int r) (xs ! rpos (length xs) r (length xs)) (int (rpos (length xs) r (Suc (length xs)))) zs"
  using assms(5,6)
proof (induction "length xs - t" arbitrary: t ys)
  case 0
  then show ?case by auto
next
  case (Suc k)
  let ?n = "length xs" and ?p = "rpos (length xs) r"
  have t: "t < ?n" and k: "k = ?n - Suc t" using Suc.hyps(2) by auto
  have ys: "length ys = ?n" "ys ! ?p (Suc t) = xs ! ?p (Suc t)" using Suc.prems(1) t by (auto simp: rotating_def)
  have lt: "?p s < ?n" for s by (rule rpos_lt [OF assms(2)])
  have add: "iadd (int (?p (Suc t))) (int r) = Some (int (?p (Suc t)) + int r)"
    using lt [of "Suc t"] assms(3,4) by (intro iadd_small) auto
  have "?n - t + m = Suc (?n - Suc t + m)" using t by simp
  then have "rotate_loop (?n - t + m) (int r) (xs ! ?p t) (int (?p (Suc t))) ys =
      rotate_loop (?n - Suc t + m) (int r) (xs ! ?p (Suc t)) (int (?p (Suc (Suc t)))) (ys[?p (Suc t) := xs ! ?p t])"
    using lt [of "Suc t"] ys assms(2) add rpos_next [OF assms(2), of r "Suc t"] by simp
  with Suc.hyps(1) [OF k rotating_step [OF assms(1) Suc.prems(1) t]] t show ?case by auto
qed

lemma rpos_surj:
  assumes "coprime r n" "i < n"
  shows "\<exists>s. 0 < s \<and> s \<le> n \<and> rpos n r s = i"
proof -
  have "inj_on (rpos n r) {1..n}" by (rule inj_onI) (use rpos_inj [OF assms(1)] in auto)
  moreover have "rpos n r ` {1..n} \<subseteq> {..<n}" using rpos_lt assms(2) by auto
  ultimately have "rpos n r ` {1..n} = {..<n}"
    by (intro card_subset_eq) (simp_all add: card_image)
  with assms(2) have "i \<in> rpos n r ` {1..n}" by simp
  then obtain s where "i = rpos n r s" "s \<in> {1..n}" by (rule imageE)
  then show ?thesis by (intro exI [of _ s]) simp
qed

lemma rotating_done: "rotating xs r t ys \<Longrightarrow> 0 < s \<Longrightarrow> s \<le> t \<Longrightarrow> ys ! rpos (length xs) r s = xs ! rpos (length xs) r (s - 1)"
  by (simp add: rotating_def)

lemma rotating_all:
  assumes "coprime r (length xs)" "0 < r" "r < length xs" "rotating xs r (length xs) zs" "i < length xs"
  shows "zs ! ((i + r) mod length xs) = xs ! i"
proof -
  let ?n = "length xs" and ?p = "rpos (length xs) r"
  obtain s where s: "0 < s" "s \<le> ?n" "?p s = i" using rpos_surj [OF assms(1,5)] by blast
  have nxt: "(i + r) mod ?n = ?p (Suc s)" using s(3) by (auto simp: rpos_def mod_simps add.commute)
  show ?thesis
  proof (cases "s = ?n")
    case True
    then have "i = ?p 0" "?p (Suc s) = ?p 1" using s(3) by (simp_all add: rpos_def)
    then show ?thesis using rotating_done [OF assms(4), of 1] assms(5) nxt by simp
  next
    case False
    with s have "zs ! ?p (Suc s) = xs ! ?p (Suc s - 1)" by (intro rotating_done [OF assms(4)]) auto
    then show ?thesis using nxt s(3) by simp
  qed
qed

section \<open>The search that does not end\<close>

lemma mid_loop_diverges:
  assumes "4 \<le> length vec" "\<forall>v \<in> set vec. v < num" "0 \<le> front" "front < int (length vec) - 1"
  shows "mid_loop vec num front (int (length vec) - 1) = None"
proof (rule ccontr)
  let ?P = "\<lambda>vec num front end' r. \<not> (4 \<le> length vec \<and> (\<forall>v \<in> set vec. v < num) \<and> 0 \<le> front \<and> front < end' \<and>
    end' = int (length vec) - 1)"
  assume "mid_loop vec num front (int (length vec) - 1) \<noteq> None"
  then obtain r where "mid_loop vec num front (int (length vec) - 1) = Some r" by blast
  then have "?P vec num front (int (length vec) - 1) r"
  proof (rule mid_loop.raw_induct [where P = ?P, rotated])
    fix f r and vec :: "int list" and num front end' :: int
    assume IH: "\<And>vec num front end' r. f vec num front end' = Some r \<Longrightarrow> ?P vec num front end' r"
      and body: "(if front < end' then do {
         let mid_idx = (end' - front) div 2;
         mid \<leftarrow> aget vec mid_idx;
         (if mid > num then f vec num front (mid_idx - 1)
          else if mid < num then f vec num (mid_idx + 1) end'
          else Some (Inl mid_idx)) }
         else Some (Inr front)) = Some (r :: int + int)"
    show "?P vec num front end' r"
    proof
      assume st: "4 \<le> length vec \<and> (\<forall>v \<in> set vec. v < num) \<and> 0 \<le> front \<and> front < end' \<and> end' = int (length vec) - 1"
      let ?m = "(end' - front) div 2"
      have m: "0 \<le> ?m" "?m + 1 < end'" "?m < int (length vec)" using st by auto
      then have "aget vec ?m = Some (vec ! nat ?m)" "vec ! nat ?m < num" using st by (auto simp: aget_def)
      moreover have "front < end'" "\<not> num < vec ! nat ?m" using st calculation(2) by simp_all
      ultimately have "f vec num (?m + 1) end' = Some r" using body by (auto simp: Let_def split: if_splits)
      from IH [OF this] st m show False by auto
    qed
  qed
  with assms show False by simp
qed

section \<open>Properties\<close>

text \<open>
  C25: \<open>arr_test\<close> returns on every array whose absolute values add up to less than \<open>2^31\<close>, and on a
  non-empty one it returns the largest sum of a non-empty contiguous segment (0 on the empty one).
\<close>
theorem arr_test_max_segment:
  assumes "sum_list (map abs vec) < 2 ^ 31" "vec \<noteq> []"
  shows "\<exists>m. arr_test vec = Some m \<and> (\<exists>b. sublist b vec \<and> b \<noteq> [] \<and> m = sum_list b) \<and>
    (\<forall>b. sublist b vec \<longrightarrow> b \<noteq> [] \<longrightarrow> sum_list b \<le> m) \<and> arr_test [] = Some 0"
proof -
  obtain v vs where vec: "vec = v # vs" using assms(2) by (cases vec) auto
  have "sublist [v] vec" by (simp add: vec sublist_Cons_right)
  then have "\<exists>b. sublist b ([] @ vec) \<and> b \<noteq> [] \<and> v = sum_list b" by (intro exI [of _ "[v]"]) simp
  then obtain m where "arr_loop vec 0 v = Some m" "best_segment vec m"
    using arr_loop_best [of "[]" vec 0 v] assms(1) by (auto simp: best_suffix_def)
  then show ?thesis by (auto simp: arr_test_def vec best_segment_def)
qed

theorem arr_test_max_segment_witness:
  "\<exists>m. arr_test [1, - 2, 3, 4, - 1] = Some m \<and> 7 \<le> m"
proof -
  have "sublist [3, 4] [1, - 2, 3, 4, - 1 :: int]" by (simp add: sublist_Cons_right)
  with arr_test_max_segment [of "[1, - 2, 3, 4, - 1]"] show ?thesis by force
qed

text \<open>
  C26: \<open>minOperations\<close> returns the least number of increments that makes its argument strictly
  increasing: the elements can be raised to a strictly increasing sequence with that many increments,
  and no strictly increasing sequence above them takes fewer. It returns for non-negative elements up to
  \<open>M\<close> when \<open>length * (M + length)\<close> is below \<open>2^31\<close>.
\<close>
theorem min_operations_optimal:
  assumes "\<forall>x \<in> set nums. 0 \<le> x \<and> x \<le> M" "int (length nums) * (M + int (length nums)) < 2 ^ 31"
  shows "\<exists>ys. minOperations nums = Some (sum_list ys - sum_list nums) \<and>
    sorted_wrt (<) ys \<and> list_all2 (\<le>) nums ys \<and>
    (\<forall>zs. sorted_wrt (<) zs \<longrightarrow> list_all2 (\<le>) nums zs \<longrightarrow> sum_list ys \<le> sum_list zs)"
proof (cases "length nums \<le> 1")
  case True
  then have "sorted_wrt (<) nums" by (cases nums) auto
  then show ?thesis
    using True sum_list_mono2 by (intro exI [of _ nums]) (auto simp: minOperations_def list_all2_refl)
next
  case False
  then obtain x xs where nums: "nums = x # xs" by (cases nums) auto
  let ?K = "M + int (length nums)"
  have "0 \<le> M" using assms(1) nums by force
  then have "?K \<le> int (length nums) * ?K" using False by (auto simp: mult_le_cancel_right1)
  then have K: "?K < 2 ^ 31" using assms(2) by linarith
  have "min_loop nums x 0 = Some (0 + (sum_list (raised nums x) - sum_list nums))"
    by (intro min_loop_raised [where K = ?K]) (use assms K nums in auto)
  then have "minOperations nums = Some (sum_list (raised nums x) - sum_list nums)"
    using False by (simp add: minOperations_def nums)
  moreover have "sum_list (raised nums x) \<le> sum_list zs" if "sorted_wrt (<) zs" "list_all2 (\<le>) nums zs" for zs
  proof (rule sum_list_mono2, rule raised_least [OF that(2,1)])
    show "\<forall>z \<in> set zs. x \<le> z" using that by (cases zs) (auto simp: nums)
  qed
  ultimately show ?thesis using raised_sorted raised_above by (intro exI [of _ "raised nums x"]) auto
qed

theorem min_operations_optimal_witness:
  "\<exists>ys. minOperations [1, 5, 2, 4, 1] = Some (sum_list ys - 13) \<and> sorted_wrt (<) ys"
  using min_operations_optimal [of "[1, 5, 2, 4, 1]" 5] by auto

text \<open>
  \<open>rotate\<close> rotates its argument to the right by \<open>k\<close> places whenever \<open>k\<close> modulo the size is
  coprime to the size (and when it is zero): the element at \<open>i\<close> moves to \<open>(i + k) mod size\<close>.
\<close>
theorem rotate_coprime:
  assumes "0 \<le> k" "coprime (nat k mod length nums) (length nums) \<or> nat k mod length nums = 0"
    "0 < length nums" "length nums \<le> 2 ^ 30"
  shows "\<exists>ys. rotate_vec nums k = Some ys \<and> length ys = length nums \<and>
    (\<forall>i < length nums. ys ! ((i + nat k) mod length nums) = nums ! i)"
proof -
  let ?n = "length nums" and ?r = "nat k mod length nums"
  have right: "irem k (int ?n) = Some (int ?r)" using assms(1,3) by (simp add: zmod_int)
  have idx: "(i + nat k) mod ?n = (i + ?r) mod ?n" for i by (simp add: mod_simps)
  show ?thesis
  proof (cases "?r = 0")
    case True
    then have "rotate_vec nums k = Some nums" using right by (simp add: rotate_vec_def Let_def)
    then show ?thesis using idx True by simp
  next
    case False
    let ?p = "rpos ?n ?r"
    have r: "0 < ?r" "?r < ?n" "coprime ?r ?n" using False assms(2,3) by auto
    have p: "?p 0 = 0" "?p 1 = ?r" "?p ?n = 0" "?p (Suc ?n) = ?r" using r by (simp_all add: rpos_def)
    have "rotating nums ?r 0 nums" by (simp add: rotating_def)
    from rotate_rounds [OF r(3) assms(3) r(2) assms(4) this, of 1]
    obtain zs where zs: "rotating nums ?r ?n zs"
      "rotate_loop (?n + 1) (int ?r) (nums ! 0) (int ?r) nums = rotate_loop 1 (int ?r) (nums ! 0) (int ?r) zs"
      using p by auto
    have len: "length zs = ?n" using zs(1) by (simp add: rotating_def)
    have "zs ! ?p 1 = nums ! ?p (1 - 1)" by (rule rotating_done [OF zs(1)]) (use assms(3) in linarith)+
    then have first: "zs ! ?r = nums ! 0" using p by simp
    have "iadd (int ?r) (int ?r) = Some (int ?r + int ?r)" using r(2) assms(4) by (intro iadd_small) simp
    then have "rotate_loop 1 (int ?r) (nums ! 0) (int ?r) zs = Some (zs[?r := nums ! 0])"
      using len r(2) assms(3) by simp
    also have "zs[?r := nums ! 0] = zs" using first by (metis list_update_id)
    finally have "rotate_vec nums k = Some zs"
      using right zs(2) False assms(3) by (simp add: rotate_vec_def Let_def aget_def)
    then show ?thesis using len rotating_all [OF r(3,1,2) zs(1)] idx by auto
  qed
qed

text \<open>
  Without the condition it need not: four elements rotated by 2 come back unchanged, and an empty list is a
  division by zero.
\<close>
theorem rotate_coprime_witness:
  "(\<exists>ys. rotate_vec [1, 2, 3, 4, 5] 7 = Some ys \<and> ys ! 2 = 1) \<and> rotate_vec [- 1, - 100, 3, 99] 2 = Some [- 1, - 100, 3, 99] \<and>
   rotate_vec [] 1 = None"
proof -
  have "coprime (2 :: nat) 5" by (simp add: coprime_left_2_iff_odd)
  then obtain ys where ys: "rotate_vec [1, 2, 3, 4, 5] 7 = Some ys" "\<forall>i < 5. ys ! ((i + 7) mod 5) = [1, 2, 3, 4, 5] ! i"
    using rotate_coprime [of 7 "[1, 2, 3, 4, 5]"] by auto
  have "ys ! ((0 + 7) mod 5) = [1, 2, 3, 4, 5] ! 0" by (rule ys(2) [rule_format]) simp
  then have "ys ! 2 = 1" by simp
  moreover have "rotate_vec [- 1, - 100, 3, 99] 2 = Some [- 1, - 100, 3, 99]" "rotate_vec [] 1 = None" by code_simp+
  ultimately show ?thesis using ys(1) by blast
qed

text \<open>
  \<open>mid_find\<close> does not return when it is asked for a number above all elements of an array of four
  or more: \<open>(end - front) / 2\<close> is not offset by \<open>front\<close>, so that \<open>front\<close> never reaches \<open>end\<close>.
\<close>
theorem mid_find_diverges:
  assumes "4 \<le> length vec" "\<forall>v \<in> set vec. v < num"
  shows "mid_find vec (int (length vec)) num = None"
proof -
  have "mid_loop vec num 0 (int (length vec) - 1) = None"
    by (rule mid_loop_diverges [OF assms]) (use assms(1) in auto)
  then show ?thesis using assms(1) by (cases vec) (simp_all add: mid_find_def)
qed

theorem mid_find_diverges_witness: "mid_find [1, 2, 4, 4, 5] 5 6 = None"
  using mid_find_diverges [of "[1, 2, 4, 4, 5]" 6] by simp

end
