(* ===== verification/Gen_Outfile.thy ===== *)
theory Gen_Outfile
  imports Mg_Prelude
begin

text \<open>
  The file writing benchmark \<^verbatim>\<open>gencode/outfile/main.cpp\<close>: random strings are written through an output
  stream, \<open>fprintf\<close>, \<open>fwrite\<close>, \<open>write\<close> and a shared mapping. A file system maps names to contents.
  Whether a file could be opened, how much a \<open>write\<close> call wrote and the results of \<open>lseek\<close> and \<open>mmap\<close>
  are arguments; so is the permutation of \<open>std::shuffle\<close>.
\<close>

section \<open>Data\<close>

type_synonym octet = "8 word"

type_synonym files = "string \<rightharpoonup> octet list"

definition bytes_of :: "string \<Rightarrow> octet list" where
  "bytes_of s = map of_char s"

definition alphabet :: string where
  "alphabet = ''0123456789ABCDEFGHIJKLMNOPQRSTUVWXYZabcdefghijklmnopqrstuvwxyz''"

definition random_string :: "(string \<Rightarrow> string) \<Rightarrow> octet list" where
  "random_string shuffle = (let str = shuffle alphabet in bytes_of (take 32 str))"

definition data_size :: nat where
  "data_size = 10000"

definition prepare :: "(nat \<Rightarrow> string \<Rightarrow> string) \<Rightarrow> octet list list" where
  "prepare shuffle = map (\<lambda>i. random_string (shuffle i)) [0..<data_size]"

section \<open>Streams and descriptors\<close>

text \<open>The default mode of \<open>std::ofstream\<close> truncates; a stream that is not open discards its output.\<close>

definition ofile :: "bool \<Rightarrow> octet list list \<Rightarrow> files \<Rightarrow> files" where
  "ofile opened data fs =
     (if opened then fs(''ofile.txt'' \<mapsto> fold (\<lambda>v f. (f @ v) @ [10]) data []) else fs)"

text \<open>Mode \<open>ab+\<close>: the file is created when it is missing, and every write goes to its end.\<close>

definition open_append :: "string \<Rightarrow> files \<Rightarrow> octet list" where
  "open_append name fs = (case fs name of None \<Rightarrow> [] | Some f \<Rightarrow> f)"

text \<open>\<open>fprintf\<close> with \<open>%s\<close> stops at the first NUL.\<close>

definition pfile :: "bool \<Rightarrow> octet list list \<Rightarrow> files \<Rightarrow> files" where
  "pfile opened data fs = (if \<not> opened then fs
     else fs(''pfile.txt'' \<mapsto> fold (\<lambda>v f. f @ takeWhile (\<lambda>b. b \<noteq> 0) v) data (open_append ''pfile.txt'' fs)))"

definition fwfile :: "bool \<Rightarrow> octet list list \<Rightarrow> files \<Rightarrow> files" where
  "fwfile opened data fs = (if \<not> opened then fs
     else fs(''fwfile.txt'' \<mapsto> fold (\<lambda>v f. f @ v) data (open_append ''fwfile.txt'' fs)))"

text \<open>Writing at an offset of a file; a gap behind its end is filled with zeros.\<close>

definition write_at :: "nat \<Rightarrow> octet list \<Rightarrow> octet list \<Rightarrow> octet list" where
  "write_at off bs f = (if bs = [] then f else
     take off f @ replicate (off - length f) 0 @ bs @ drop (off + length bs) f)"

text \<open>
  \<open>written\<close> gives for each \<open>write\<close> the number of bytes it took, 0 for an error; the code does not look
  at it. The file is neither truncated nor opened for appending.
\<close>

fun wfile_loop :: "(nat \<Rightarrow> nat) \<Rightarrow> nat \<Rightarrow> octet list list \<Rightarrow> nat \<Rightarrow> octet list \<Rightarrow> octet list" where
  "wfile_loop written i [] off f = f"
| "wfile_loop written i (v # data) off f = (let bs = take (written i) v in
     wfile_loop written (Suc i) data (off + length bs) (write_at off bs f))"

definition wfile :: "bool \<Rightarrow> (nat \<Rightarrow> nat) \<Rightarrow> octet list list \<Rightarrow> files \<Rightarrow> files" where
  "wfile opened written data fs = (if \<not> opened then fs
     else fs(''wfile.txt'' \<mapsto> wfile_loop written 0 data 0 (open_append ''wfile.txt'' fs)))"

section \<open>The mapped file\<close>

definition page :: nat where
  "page = 4096"

definition expand :: nat where
  "expand = 1024 * 1000"

text \<open>
  A copy to offset \<open>off\<close> of the mapping: outside the mapped pages it is undefined, on a page that lies
  wholly behind the end of the file it is a bus error (both \<^term>\<open>None\<close>), and bytes behind the end on the
  last page do not reach the file.
\<close>

definition page_up :: "nat \<Rightarrow> nat" where
  "page_up n = (n + page - 1) div page * page"

definition mapped_copy :: "nat \<Rightarrow> octet list \<Rightarrow> octet list \<Rightarrow> octet list option" where
  "mapped_copy off v f = (if v = [] then Some f
     else if off + length v \<le> min (page_up expand) (page_up (length f))
     then Some (take (length f) (write_at off v f)) else None)"

fun mmap_loop :: "octet list list \<Rightarrow> nat \<Rightarrow> nat \<Rightarrow> octet list \<Rightarrow> (nat \<times> nat \<times> octet list) option" where
  "mmap_loop [] addr tot f = Some (addr, tot, f)"
| "mmap_loop (v # data) addr tot f = do {
     f \<leftarrow> mapped_copy addr v f;
     mmap_loop data (addr + length v) (tot + length v) f }"

record mmap_results =
  mr_open :: bool
  mr_seek_end :: bool
  mr_seek_set :: bool
  mr_write :: bool
  mr_mmap :: bool

text \<open>
  The result is the file system, and the arguments of \<open>munmap\<close> when the mapping was made: the address
  relative to the mapping's start, and the length.
\<close>

definition mmapwfile :: "mmap_results \<Rightarrow> octet list list \<Rightarrow> files \<Rightarrow> (files \<times> (nat \<times> nat) option) option" where
  "mmapwfile r data fs = (if \<not> mr_open r then Some (fs, None) else
     let f = open_append ''mmapwfile.txt'' fs in
     if \<not> mr_seek_end r then Some (fs(''mmapwfile.txt'' \<mapsto> f), None)
     else if \<not> mr_seek_set r then Some (fs(''mmapwfile.txt'' \<mapsto> f), None)
     else let f = (if length f = 0 \<and> mr_write r then write_at expand [0] f else f) in
       if \<not> mr_mmap r then Some (fs(''mmapwfile.txt'' \<mapsto> f), None)
       else do {
         (addr, tot, f) \<leftarrow> mmap_loop data 0 0 f;
         Some (fs(''mmapwfile.txt'' \<mapsto> f), Some (addr, tot)) })"

text \<open>\<open>munmap\<close> needs an address that is a multiple of the page size; it then removes the pages of the range.\<close>

definition munmap :: "nat \<times> nat \<Rightarrow> nat set \<Rightarrow> nat set option" where
  "munmap a pages = (if fst a mod page \<noteq> 0 \<or> snd a = 0 then None
     else Some (pages - {fst a div page ..< page_up (fst a + snd a) div page}))"

text \<open>\<open>main\<close> after the option parsing.\<close>

definition outfile_main :: "bool \<Rightarrow> bool \<Rightarrow> bool \<Rightarrow> mmap_results \<Rightarrow> bool \<Rightarrow> (nat \<Rightarrow> nat) \<Rightarrow>
    (nat \<Rightarrow> string \<Rightarrow> string) \<Rightarrow> files \<Rightarrow> (files \<times> (nat \<times> nat) option) option" where
  "outfile_main o_ok p_ok fw_ok mm w_ok written shuffle fs = (let
       data = prepare shuffle;
       fs = fwfile fw_ok data (pfile p_ok data (ofile o_ok data fs)) in do {
     (fs, unmapped) \<leftarrow> mmapwfile mm data fs;
     Some (wfile w_ok written data fs, unmapped) })"

section \<open>What reaches the files\<close>

lemma fold_append: "fold (\<lambda>v f. f @ g v) data f = f @ concat (map g data)"
  by (induction data arbitrary: f) auto

lemma write_at_end: "write_at (length f) bs f = f @ bs"
  by (simp add: write_at_def)

lemma wfile_loop_full:
  assumes "\<forall>v\<in>set data. \<forall>i. length v \<le> written i"
  shows "wfile_loop written i data (length f) f = f @ concat data"
  using assms
proof (induction data arbitrary: i f)
  case (Cons v data)
  then show ?case using Cons.IH [of "Suc i" "f @ v"] by (simp add: write_at_end)
qed simp

lemma page_up_ge: "n \<le> page_up n"
proof -
  have "n + page - 1 < page * ((n + page - 1) div page) + page"
    using mod_less_divisor [of page "n + page - 1"] mult_div_mod_eq [of page "n + page - 1"] by (simp add: page_def)
  then show ?thesis by (simp add: page_up_def page_def mult.commute)
qed

lemma mapped_copy_within:
  assumes "length v \<le> k" "length pre + length v \<le> expand"
  shows "mapped_copy (length pre) v (pre @ replicate k 0) = Some (pre @ v @ replicate (k - length v) 0)"
proof -
  have "length pre + length v \<le> page_up (length (pre @ replicate k (0 :: octet)))"
    using assms(1) page_up_ge [of "length pre + k"] by simp
  moreover have "length pre + length v \<le> page_up expand" using assms(2) page_up_ge [of expand] by simp
  ultimately show ?thesis using assms(1) by (auto simp: mapped_copy_def write_at_def)
qed

lemma mmap_loop_within:
  assumes "length (concat data) \<le> k" "length pre + length (concat data) \<le> expand"
  shows "mmap_loop data (length pre) t (pre @ replicate k 0) =
    Some (length pre + length (concat data), t + length (concat data), pre @ concat data @ replicate (k - length (concat data)) 0)"
  using assms
proof (induction data arbitrary: pre k t)
  case (Cons v data)
  then show ?case
    using Cons.IH [of "k - length v" "pre @ v" "t + length v"] mapped_copy_within [of v k pre] by (simp add: add.assoc)
qed simp

lemma alphabet_not_nul: "c \<in> set alphabet \<Longrightarrow> (of_char c :: octet) \<noteq> 0"
  by (auto simp: alphabet_def)

lemma random_string_facts:
  assumes "mset (shuffle alphabet) = mset alphabet"
  shows "length (random_string shuffle) = 32" "0 \<notin> set (random_string shuffle)"
proof -
  have "length (shuffle alphabet) = 62" using mset_eq_length [OF assms] by (simp add: alphabet_def)
  then show "length (random_string shuffle) = 32" by (simp add: random_string_def bytes_of_def)
  have "set (shuffle alphabet) = set alphabet" using assms by (rule mset_eq_setD)
  then show "0 \<notin> set (random_string shuffle)"
    by (auto simp: random_string_def bytes_of_def dest!: in_set_takeD alphabet_not_nul)
qed

lemma prepare_facts:
  assumes "\<forall>i. mset (shuffle i alphabet) = mset alphabet"
  shows "\<forall>v\<in>set (prepare shuffle). length v = 32 \<and> 0 \<notin> set v" "length (concat (prepare shuffle)) = 320000"
proof -
  show len: "\<forall>v\<in>set (prepare shuffle). length v = 32 \<and> 0 \<notin> set v"
    using assms random_string_facts by (auto simp: prepare_def)
  then have "map length (prepare shuffle) = replicate data_size 32"
    by (auto simp: prepare_def map_replicate_const intro!: replicate_eqI)
  then show "length (concat (prepare shuffle)) = 320000"
    by (simp add: length_concat sum_list_replicate data_size_def)
qed

lemma pfile_strings: "\<forall>v\<in>set data. 0 \<notin> set v \<Longrightarrow> concat (map (takeWhile (\<lambda>b. b \<noteq> 0)) data) = concat (data :: octet list list)"
  by (induction data) (auto simp: takeWhile_eq_all_conv)

section \<open>Properties\<close>

text \<open>
  In an empty directory, when no call fails and every \<open>write\<close> is complete, \<open>fprintf\<close>,
  \<open>fwrite\<close> and \<open>write\<close> leave the same file, the concatenation of the 10000 random strings (320000 bytes);
  the output stream leaves it with a newline after each string, and the mapping leaves it followed by
  zeros up to the length to which the file was extended. The mapping itself is never removed: \<open>munmap\<close> gets
  the advanced address, which is not a multiple of the page size, and fails.
\<close>
theorem outfile_contents:
  assumes "\<forall>i. mset (shuffle i alphabet) = mset alphabet" "\<forall>i. 32 \<le> written i"
    "mm = \<lparr>mr_open = True, mr_seek_end = True, mr_seek_set = True, mr_write = True, mr_mmap = True\<rparr>"
  shows "\<exists>fs. outfile_main True True True mm True written shuffle Map.empty = Some (fs, Some (320000, 320000)) \<and>
    fs ''pfile.txt'' = Some (concat (prepare shuffle)) \<and> fs ''fwfile.txt'' = fs ''pfile.txt'' \<and> fs ''wfile.txt'' = fs ''pfile.txt'' \<and>
    fs ''ofile.txt'' = Some (concat (map (\<lambda>v. v @ [10]) (prepare shuffle))) \<and>
    fs ''mmapwfile.txt'' = Some (concat (prepare shuffle) @ replicate 704001 0) \<and>
    munmap (320000, 320000) pages = None"
proof -
  let ?d = "prepare shuffle"
  note facts = prepare_facts [of shuffle, OF assms(1)]
  have nul: "concat (map (takeWhile (\<lambda>b. b \<noteq> 0)) ?d) = concat ?d" using facts(1) by (intro pfile_strings) blast
  have w: "wfile_loop written 0 ?d 0 [] = concat ?d"
    using wfile_loop_full [of ?d written 0 "[]"] facts(1) assms(2) by simp
  have m: "mmap_loop ?d 0 0 (replicate 1024001 0) = Some (320000, 320000, concat ?d @ replicate 704001 0)"
    using mmap_loop_within [of ?d 1024001 "[]" 0] facts(2) by (simp add: expand_def)
  have e: "write_at expand [0] [] = replicate 1024001 0"
  proof -
    have "(1024001 :: nat) = Suc 1024000" by simp
    then show ?thesis unfolding write_at_def expand_def by (simp only: replicate_Suc) (simp add: replicate_append_same)
  qed
  have u: "munmap (320000, 320000) pages = None" by (simp add: munmap_def page_def)
  show ?thesis
    by (simp add: outfile_main_def ofile_def pfile_def fwfile_def wfile_def mmapwfile_def open_append_def assms(3)
        fold_append nul w m e u Let_def)
qed

theorem outfile_contents_witness:
  "\<exists>fs. outfile_main True True True \<lparr>mr_open = True, mr_seek_end = True, mr_seek_set = True, mr_write = True, mr_mmap = True\<rparr>
      True (\<lambda>_. 32) (\<lambda>i s. rotate i (rev s)) Map.empty = Some (fs, Some (320000, 320000)) \<and>
    fs ''pfile.txt'' = Some (concat (prepare (\<lambda>i s. rotate i (rev s)))) \<and>
    fs ''fwfile.txt'' = fs ''pfile.txt'' \<and> fs ''wfile.txt'' = fs ''pfile.txt'' \<and>
    fs ''ofile.txt'' = Some (concat (map (\<lambda>v. v @ [10]) (prepare (\<lambda>i s. rotate i (rev s))))) \<and>
    fs ''mmapwfile.txt'' = Some (concat (prepare (\<lambda>i s. rotate i (rev s))) @ replicate 704001 0) \<and>
    munmap (320000, 320000) {0..<250} = None"
proof (rule outfile_contents)
  have "mset (rotate i xs) = mset xs" for i and xs :: string
    by (simp add: rotate_drop_take flip: mset_append) (metis append_take_drop_id mset_append union_commute)
  then show "\<forall>i. mset (rotate i (rev alphabet)) = mset alphabet" by simp
qed simp_all

end
