(* ===== verification/Zero_Copy.thy ===== *)
theory Zero_Copy
  imports Mg_Prelude
begin

text \<open>
  The contract of a zero-copy input stream as its readers use it: a stream hands out its contents in
  chunks. \<open>nxt\<close> gives the next chunk and the advanced stream, \<open>rest\<close> the bytes still to come,
  \<open>left\<close> a bound on the number of chunks. Both network servers implement it (\<^verbatim>\<open>ReadBuffer\<close> of
  \<^verbatim>\<open>src/buffer.h\<close> and \<^verbatim>\<open>MReadBuf\<close> of \<^verbatim>\<open>gencode/mg_server\<close>).
\<close>

type_synonym byte = "8 word"

fun drain :: "nat \<Rightarrow> ('s \<Rightarrow> ('b list \<times> 's) option) \<Rightarrow> 's \<Rightarrow> 'b list" where
  "drain 0 nxt s = []"
| "drain (Suc n) nxt s = (case nxt s of None \<Rightarrow> [] | Some (d, s') \<Rightarrow> d @ drain n nxt s')"

locale chunk_source =
  fixes nxt :: "'s \<Rightarrow> ('b list \<times> 's) option"
    and rest :: "'s \<Rightarrow> 'b list"
    and left :: "'s \<Rightarrow> nat"
  assumes nxt_some: "nxt s = Some (d, s') \<Longrightarrow> rest s = d @ rest s' \<and> left s' < left s"
    and nxt_none: "nxt s = None \<Longrightarrow> rest s = []"
begin

lemma drain_rest: "left s \<le> n \<Longrightarrow> drain n nxt s = rest s"
proof (induction n arbitrary: s)
  case 0
  then show ?case using nxt_some nxt_none by (cases "nxt s") fastforce+
next
  case (Suc n)
  show ?case
  proof (cases "nxt s")
    case None
    then show ?thesis using nxt_none by simp
  next
    case (Some p)
    obtain d s' where p: "p = (d, s')" by force
    have r: "rest s = d @ rest s'" "left s' < left s" using nxt_some Some p by blast+
    then have "drain n nxt s' = rest s'" using Suc by auto
    then show ?thesis using Some p r by simp
  qed
qed

lemma drain_more: "left s \<le> n \<Longrightarrow> n \<le> m \<Longrightarrow> drain m nxt s = drain n nxt s"
  using drain_rest by simp

end

section \<open>Little-endian 32 bit integers\<close>

text \<open>What \<open>memcpy\<close> of four bytes into an \<open>int\<close> gives on a little-endian host, and back.\<close>

definition le32 :: "byte list \<Rightarrow> int" where
  "le32 bs = sint (word_of_int (uint (bs ! 0) + 256 * uint (bs ! 1) + 65536 * uint (bs ! 2) +
     16777216 * uint (bs ! 3)) :: 32 word)"

definition le_bytes :: "int \<Rightarrow> byte list" where
  "le_bytes i = [word_of_int i, word_of_int (i div 256), word_of_int (i div 65536), word_of_int (i div 16777216)]"

lemma length_le_bytes [simp]: "length (le_bytes i) = 4"
  by (simp add: le_bytes_def)

lemma byte_digits:
  "(i :: int) mod 256 + 256 * (i div 256 mod 256) + 65536 * (i div 65536 mod 256) + 16777216 * (i div 16777216 mod 256)
   = i mod 4294967296"
proof -
  have d: "a mod (b * c) = b * (a div b mod c) + a mod b" if "0 \<le> c" for a b c :: int
    by (rule zmod_zmult2_eq [OF that])
  have "i mod 65536 = 256 * (i div 256 mod 256) + i mod 256" using d [of 256 i 256] by simp
  moreover have "i mod 16777216 = 65536 * (i div 65536 mod 256) + i mod 65536" using d [of 256 i 65536] by simp
  moreover have "i mod 4294967296 = 16777216 * (i div 16777216 mod 256) + i mod 16777216"
    using d [of 256 i 16777216] by simp
  ultimately show ?thesis by linarith
qed

lemma le32_le_bytes:
  assumes "- (2 ^ 31) \<le> i" "i < 2 ^ 31"
  shows "le32 (le_bytes i) = i"
proof -
  have "le32 (le_bytes i) = sint (word_of_int (i mod 4294967296) :: 32 word)"
    by (simp add: le32_def le_bytes_def uint_word_of_int byte_digits take_bit_eq_mod numeral_nat)
  also have "(word_of_int (i mod 4294967296) :: 32 word) = word_of_int i"
    using word_of_int_eq_iff [of "i mod 4294967296" i, where 'a = 32] by (simp add: take_bit_eq_mod)
  also have "sint (word_of_int i :: 32 word) = i"
    using assms by (simp add: sint_sbintrunc' signed_take_bit_int_eq_self)
  finally show ?thesis .
qed

end
