(* ===== verification/Gen_Ebpf.thy ===== *)
theory Gen_Ebpf
  imports Zero_Copy
begin

text \<open>
  The two programs of \<^verbatim>\<open>gencode/ebpf/\<close>: the echo client \<^verbatim>\<open>call.cpp\<close>, over its standard input and the
  results of its socket calls, and \<^verbatim>\<open>prog_user.cpp\<close>, over the results of the library that loads and
  attaches the kernel program. \<^term>\<open>None\<close> is a read behind the buffer or a program that never ends.
\<close>

section \<open>call.cpp\<close>

datatype read_result = ReadErr | Got "byte list"

text \<open>
  Standard input is a list of complete lines and the text behind the last newline. \<open>ec_exit\<close> is \<^term>\<open>None\<close> while
  the program waits for the server.
\<close>

record echo =
  ec_lines :: "byte list list"
  ec_rest :: "byte list"
  ec_eof :: bool
  ec_message :: "byte list"
  ec_sent :: "byte list list"
  ec_printed :: "byte list list"
  ec_closed :: "int list"
  ec_exit :: "int option"

definition BUFFER_SIZE :: nat where
  "BUFFER_SIZE = 1024"

definition exit_word :: "byte list" where
  "exit_word = map of_char ''exit''"

text \<open>\<open>getline\<close> leaves the string as it is once the end of the input was reached before.\<close>

definition getline :: "echo \<Rightarrow> echo" where
  "getline e = (case ec_lines e of
     l # ls \<Rightarrow> e\<lparr>ec_lines := ls, ec_message := l\<rparr>
   | [] \<Rightarrow> if ec_eof e then e else e\<lparr>ec_message := ec_rest e, ec_eof := True\<rparr>)"

text \<open>Printing an array of \<open>char\<close> stops at the first zero and is undefined without one.\<close>

definition c_string :: "byte list \<Rightarrow> byte list option" where
  "c_string buffer = (if 0 \<in> set buffer then Some (takeWhile (\<lambda>b. b \<noteq> 0) buffer) else None)"

fun echo_loop :: "int \<Rightarrow> read_result list \<Rightarrow> byte list \<Rightarrow> echo \<Rightarrow> echo option" where
  "echo_loop sock reads buffer e = (let e = getline e in
     if ec_message e = exit_word then Some (e\<lparr>ec_closed := ec_closed e @ [sock], ec_exit := Some 0\<rparr>)
     else (let e = e\<lparr>ec_sent := ec_sent e @ [ec_message e]\<rparr> in
       (case reads of
          [] \<Rightarrow> Some e
        | ReadErr # reads \<Rightarrow> Some (e\<lparr>ec_exit := Some 1\<rparr>)
        | Got d # reads \<Rightarrow>
            (let d = take BUFFER_SIZE d; buffer = d @ drop (length d) buffer in
             if d \<noteq> [] then do {
               s \<leftarrow> c_string buffer;
               echo_loop sock reads (replicate BUFFER_SIZE 0) (e\<lparr>ec_printed := ec_printed e @ [s]\<rparr>) }
             else Some (e\<lparr>ec_closed := ec_closed e @ [sock], ec_exit := Some 0\<rparr>)))))"

definition echo_main :: "int \<Rightarrow> int \<Rightarrow> int \<Rightarrow> read_result list \<Rightarrow> echo \<Rightarrow> echo option" where
  "echo_main sock pton conres reads e =
     (if sock < 0 then Some (e\<lparr>ec_exit := Some 1\<rparr>)
      else if pton \<le> 0 then Some (e\<lparr>ec_exit := Some 1\<rparr>)
      else if conres < 0 then Some (e\<lparr>ec_exit := Some 1\<rparr>)
      else echo_loop sock reads (replicate BUFFER_SIZE 0) (e\<lparr>ec_message := []\<rparr>))"

definition echo_new :: "byte list list \<Rightarrow> byte list \<Rightarrow> echo" where
  "echo_new ls rest = \<lparr>ec_lines = ls, ec_rest = rest, ec_eof = False, ec_message = [], ec_sent = [], ec_printed = [],
     ec_closed = [], ec_exit = None\<rparr>"

section \<open>prog\_user.cpp\<close>

record loaded =
  ld_attached :: nat
  ld_dots :: nat
  ld_closed :: bool
  ld_exit :: int

text \<open>The loop over the programs: how many were attached, and whether none failed.\<close>

fun attach_programs :: "bool list \<Rightarrow> nat \<Rightarrow> nat \<times> bool" where
  "attach_programs [] n = (n, True)"
| "attach_programs (link # links) n = (if \<not> link then (n, False) else attach_programs links (n + 1))"

text \<open>
  \<open>obj\<close>: the object was opened; \<open>err\<close>: the result of loading; \<open>links\<close>: which programs can be attached; \<open>sig\<close>:
  the handler was installed; \<open>stop\<close>: after how many rounds the interrupt comes, if ever.
\<close>

definition prog_user_main :: "bool \<Rightarrow> int \<Rightarrow> bool list \<Rightarrow> bool \<Rightarrow> nat option \<Rightarrow> loaded option" where
  "prog_user_main obj err links sig stop =
     (if \<not> obj then Some \<lparr>ld_attached = 0, ld_dots = 0, ld_closed = False, ld_exit = 1\<rparr>
      else (let cleanup = (\<lambda>n dots. \<lparr>ld_attached = n, ld_dots = dots, ld_closed = True, ld_exit = (if err \<noteq> 0 then 1 else 0)\<rparr>) in
        if err \<noteq> 0 then Some (cleanup 0 0)
        else (case attach_programs links 0 of (n, ok) \<Rightarrow>
          if \<not> ok then Some (cleanup n 0)
          else if \<not> sig then Some (cleanup n 0)
          else (case stop of None \<Rightarrow> None | Some dots \<Rightarrow> Some (cleanup n dots)))))"

lemma attach_programs_eq:
  "attach_programs links n = (n + length (takeWhile id links), list_all id links)"
  by (induction links arbitrary: n) auto

text \<open>
  The exit code tells only whether the object could be loaded: it is 0 as well when a program could not be
  attached or the handler not installed.
\<close>

lemma prog_user_exit:
  "prog_user_main obj err links sig stop = Some r \<Longrightarrow> ld_exit r = 0 \<longleftrightarrow> obj \<and> err = 0"
  "prog_user_main True 0 (replicate n True @ False # links) sig stop =
     Some \<lparr>ld_attached = n, ld_dots = 0, ld_closed = True, ld_exit = 0\<rparr>"
  by (auto simp: prog_user_main_def attach_programs_eq Let_def takeWhile_append split: if_splits option.splits)

section \<open>A session of the echo client\<close>

text \<open>What the successive calls of \<open>getline\<close> give: the lines, then the rest of the input again and again.\<close>

definition typed :: "byte list list \<Rightarrow> byte list \<Rightarrow> nat \<Rightarrow> byte list" where
  "typed ls rest i = (if i < length ls then ls ! i else rest)"

definition reading :: "byte list list \<Rightarrow> byte list \<Rightarrow> nat \<Rightarrow> echo \<Rightarrow> bool" where
  "reading ls rest i e \<longleftrightarrow> ec_lines e = drop i ls \<and> ec_rest e = rest \<and>
     (if i \<le> length ls then \<not> ec_eof e else ec_eof e \<and> ec_message e = rest)"

lemma getline_typed:
  assumes "reading ls rest i e"
  shows "reading ls rest (Suc i) (getline e)" "ec_message (getline e) = typed ls rest i"
    "ec_sent (getline e) = ec_sent e" "ec_printed (getline e) = ec_printed e" "ec_closed (getline e) = ec_closed e"
    "ec_exit (getline e) = ec_exit e"
  using assms by (auto simp: reading_def getline_def typed_def Cons_nth_drop_Suc [symmetric] split: list.splits if_splits
      dest: arg_cong [where f = length])

lemma reading_field [simp]:
  "reading ls rest i (e\<lparr>ec_sent := x\<rparr>) = reading ls rest i e" "reading ls rest i (e\<lparr>ec_printed := y\<rparr>) = reading ls rest i e"
  by (simp_all add: reading_def)

text \<open>A reply that is printed in full: it ends before the buffer does, or holds a zero.\<close>

definition printable :: "byte list \<Rightarrow> bool" where
  "printable d \<longleftrightarrow> d \<noteq> [] \<and> (length d < BUFFER_SIZE \<or> length d = BUFFER_SIZE \<and> 0 \<in> set d)"

lemma c_string_reply:
  "printable d \<Longrightarrow> c_string (d @ drop (length d) (replicate BUFFER_SIZE 0)) = Some (takeWhile (\<lambda>b. b \<noteq> 0) d)"
  by (auto simp: printable_def c_string_def takeWhile_append takeWhile_replicate takeWhile_eq_all_conv [THEN iffD2])

declare echo_loop.simps [simp del]

text \<open>One round of the loop that reads a printable reply.\<close>

lemma echo_round:
  assumes "reading ls rest i e" "typed ls rest i \<noteq> exit_word" "printable d"
  shows "\<exists>e'. echo_loop sock (Got d # reads) (replicate BUFFER_SIZE 0) e = echo_loop sock reads (replicate BUFFER_SIZE 0) e' \<and>
    reading ls rest (Suc i) e' \<and> ec_sent e' = ec_sent e @ [typed ls rest i] \<and>
    ec_printed e' = ec_printed e @ [takeWhile (\<lambda>b. b \<noteq> 0) d] \<and> ec_closed e' = ec_closed e \<and> ec_exit e' = ec_exit e"
proof -
  have "take BUFFER_SIZE d = d" "d \<noteq> []" using assms(3) by (auto simp: printable_def)
  then show ?thesis
    using getline_typed [OF assms(1)] assms(2) c_string_reply [OF assms(3)]
    by (subst echo_loop.simps)
      (auto simp: Let_def intro!: exI [of _ "(getline e)\<lparr>ec_sent := ec_sent e @ [typed ls rest i],
        ec_printed := ec_printed e @ [takeWhile (\<lambda>b. b \<noteq> 0) d]\<rparr>"])
qed

lemma echo_rounds:
  assumes "reading ls rest i e" "\<forall>j < length ds. typed ls rest (i + j) \<noteq> exit_word" "\<forall>d\<in>set ds. printable d"
  shows "\<exists>e'. echo_loop sock (map Got ds @ reads) (replicate BUFFER_SIZE 0) e = echo_loop sock reads (replicate BUFFER_SIZE 0) e' \<and>
    reading ls rest (i + length ds) e' \<and> ec_sent e' = ec_sent e @ map (typed ls rest) [i ..< i + length ds] \<and>
    ec_printed e' = ec_printed e @ map (takeWhile (\<lambda>b. b \<noteq> 0)) ds \<and> ec_closed e' = ec_closed e \<and> ec_exit e' = ec_exit e"
  using assms
proof (induction ds arbitrary: i e)
  case Nil
  then show ?case by auto
next
  case (Cons d ds)
  have t: "typed ls rest i \<noteq> exit_word" "\<forall>j < length ds. typed ls rest (Suc i + j) \<noteq> exit_word" "printable d"
    "\<forall>d\<in>set ds. printable d"
    using Cons.prems(2,3) by (auto dest: spec [of _ 0] spec [of _ "Suc j" for j])
  obtain e1 where e1: "echo_loop sock (Got d # map Got ds @ reads) (replicate BUFFER_SIZE 0) e =
      echo_loop sock (map Got ds @ reads) (replicate BUFFER_SIZE 0) e1" "reading ls rest (Suc i) e1"
      "ec_sent e1 = ec_sent e @ [typed ls rest i]" "ec_printed e1 = ec_printed e @ [takeWhile (\<lambda>b. b \<noteq> 0) d]"
      "ec_closed e1 = ec_closed e" "ec_exit e1 = ec_exit e"
    using echo_round [OF Cons.prems(1) t(1,3)] by blast
  have "[i ..< i + length (d # ds)] = i # [Suc i ..< Suc i + length ds]" by (simp add: upt_rec)
  then show ?case using Cons.IH [OF e1(2) t(2,4)] e1 by auto
qed

text \<open>What can be seen of a session.\<close>

definition session :: "echo \<Rightarrow> byte list list \<times> byte list list \<times> int list \<times> int option" where
  "session e = (ec_sent e, ec_printed e, ec_closed e, ec_exit e)"

section \<open>Properties\<close>

text \<open>
  C29: The echo client, for any input and any replies. As long as the typed lines are not \<open>exit\<close> and the
  replies can be printed, it sends the lines in order and prints each reply up to its first zero. The session
  then ends in one of these ways: \<open>exit\<close> is typed, or the server has closed, and the client closes its socket and
  exits with 0; reading fails, and it exits with 1; no reply has come yet, and it waits; or a reply fills
  the buffer without a zero, and printing it reads behind the buffer. The end of the input is not noticed: the
  text behind the last newline is sent again and again.
\<close>
theorem echo_client_session:
  assumes "0 \<le> sock" "0 < pton" "0 \<le> conres"
    "\<forall>i < length ds. typed ls rest i \<noteq> exit_word" "\<forall>d\<in>set ds. printable d"
    "case later of Got d # _ \<Rightarrow> d = [] \<or> (BUFFER_SIZE \<le> length d \<and> 0 \<notin> set (take BUFFER_SIZE d)) | _ \<Rightarrow> True"
  shows "map_option session (echo_main sock pton conres (map Got ds @ later) (echo_new ls rest)) =
    (let sent = map (typed ls rest) [0 ..< length ds]; shown = map (takeWhile (\<lambda>b. b \<noteq> 0)) ds; l = typed ls rest (length ds) in
     if l = exit_word then Some (sent, shown, [sock], Some 0)
     else case later of
       [] \<Rightarrow> Some (sent @ [l], shown, [], None)
     | ReadErr # _ \<Rightarrow> Some (sent @ [l], shown, [], Some 1)
     | Got d # _ \<Rightarrow>
         if d = [] then Some (sent @ [l], shown, [sock], Some 0) else None)"
proof -
  have "reading ls rest 0 (echo_new ls rest)" by (simp add: reading_def echo_new_def)
  from echo_rounds [OF this, of ds sock later] assms(4,5)
  obtain e where e: "echo_loop sock (map Got ds @ later) (replicate BUFFER_SIZE 0) (echo_new ls rest) =
      echo_loop sock later (replicate BUFFER_SIZE 0) e" "reading ls rest (length ds) e" "ec_sent e = map (typed ls rest) [0 ..< length ds]"
      "ec_printed e = map (takeWhile (\<lambda>b. b \<noteq> 0)) ds" "ec_closed e = []" "ec_exit e = None"
    by (auto simp: echo_new_def)
  have m: "echo_main sock pton conres (map Got ds @ later) (echo_new ls rest) = echo_loop sock later (replicate BUFFER_SIZE 0) e"
    using assms(1-3) e(1) by (simp add: echo_main_def echo_new_def)
  note g = getline_typed [OF e(2)]
  have over: "c_string (take BUFFER_SIZE d) = None" if "0 \<notin> set (take BUFFER_SIZE d)" for d
    using that by (simp add: c_string_def)
  have pos: "0 < BUFFER_SIZE" by (simp add: BUFFER_SIZE_def)
  show ?thesis
    using assms(6) unfolding m
    by (subst echo_loop.simps)
      (auto simp: Let_def g e(3-6) session_def over pos split: list.splits read_result.splits)
qed

theorem echo_client_session_witness:
  "map_option session (echo_main 3 1 0 [Got [72, 105, 0, 7]] (echo_new [[104, 105], exit_word] [])) =
     Some ([[104, 105]], [[72, 105]], [3], Some 0)"
  using echo_client_session [of 3 1 0 "[[72, 105, 0, 7]]" "[[104, 105], exit_word]" "[]" "[]"]
  by (simp add: typed_def exit_word_def printable_def BUFFER_SIZE_def)

end
