(* ===== verification/Rpc_Buffer.thy ===== *)
theory Rpc_Buffer
  imports Zero_Copy
begin

text \<open>
  The buffer manager of the RPC server (\<^verbatim>\<open>gencode/mg_server/server/buffer_manager.h\<close> and \<^verbatim>\<open>.cpp\<close>).
  Buffers live in a store and are named by numbers, since guards, the pool and the parser share
  them by \<open>shared_ptr\<close>; a guard is a window into a buffer. Sizes and indexes are mathematical
  integers, \<open>int32_t\<close> in the code: the streams of one request stay below its range, as the whole pool has 1 MB;
  the byte counters of a send queue, which nothing reads, would overflow after 2 GB, which is not modelled.
\<close>

section \<open>MBuffer\<close>

record MBuffer =
  mb_bytes :: "byte list"
  mb_capacity :: int
  mb_cur_index :: int
  mb_remain :: int

definition MBuffer_new :: "int \<Rightarrow> MBuffer" where
  "MBuffer_new capacity = \<lparr>mb_bytes = replicate (nat capacity) 0, mb_capacity = capacity,
     mb_cur_index = 0, mb_remain = capacity\<rparr>"

definition Buf :: "MBuffer \<Rightarrow> int" where
  "Buf b = mb_cur_index b"

definition Remain :: "MBuffer \<Rightarrow> int" where
  "Remain b = mb_remain b"

definition Consume :: "int \<Rightarrow> MBuffer \<Rightarrow> MBuffer" where
  "Consume offset b = b\<lparr>mb_cur_index := mb_cur_index b + offset\<rparr>"

definition Empty :: "MBuffer \<Rightarrow> bool" where
  "Empty b \<longleftrightarrow> mb_remain b = 0"

definition Capacity :: "MBuffer \<Rightarrow> int" where
  "Capacity b = mb_capacity b"

definition Reset_buffer :: "MBuffer \<Rightarrow> MBuffer" where
  "Reset_buffer b = b\<lparr>mb_cur_index := 0, mb_remain := mb_capacity b\<rparr>"

section \<open>MBufferPool\<close>

type_synonym buf_id = nat

text \<open>The store of all buffers and the free list \<open>_pool1024\<close> of the single pool instance.\<close>

record buf_store =
  bs_bufs :: "buf_id \<rightharpoonup> MBuffer"
  bs_pool1024 :: "buf_id list"

definition BUFFER_POOL_SIZE :: nat where
  "BUFFER_POOL_SIZE = 1024"

definition MBufferPool_new :: buf_store where
  "MBufferPool_new = \<lparr>bs_bufs = (\<lambda>i. if i < BUFFER_POOL_SIZE then Some (MBuffer_new 1024) else None),
     bs_pool1024 = [0..<BUFFER_POOL_SIZE]\<rparr>"

definition Allocate :: "buf_store \<Rightarrow> buf_id option \<times> buf_store" where
  "Allocate s = (case bs_pool1024 s of [] \<Rightarrow> (None, s) | b # bs \<Rightarrow> (Some b, s\<lparr>bs_pool1024 := bs\<rparr>))"

definition GiveBack :: "buf_id \<Rightarrow> buf_store \<Rightarrow> buf_store" where
  "GiveBack b s = s\<lparr>bs_pool1024 := bs_pool1024 s @ [b]\<rparr>"

definition consume_buf :: "buf_id \<Rightarrow> int \<Rightarrow> buf_store \<Rightarrow> buf_store option" where
  "consume_buf b n s = map_option (\<lambda>m. s\<lparr>bs_bufs := (bs_bufs s)(b \<mapsto> Consume n m)\<rparr>) (bs_bufs s b)"

section \<open>MBufferGuard\<close>

record MBufferGuard =
  bg_buf :: buf_id
  bg_buf_free :: bool
  bg_size :: int
  bg_index :: int

definition MBufferGuard_new :: "buf_id \<Rightarrow> int \<Rightarrow> buf_store \<Rightarrow> MBufferGuard option" where
  "MBufferGuard_new b sz s = map_option (\<lambda>m. \<lparr>bg_buf = b, bg_buf_free = False, bg_size = sz,
     bg_index = Buf m\<rparr>) (bs_bufs s b)"

definition MBufferGuard_delete :: "MBufferGuard \<Rightarrow> buf_store \<Rightarrow> buf_store" where
  "MBufferGuard_delete g s = (if \<not> bg_buf_free g then GiveBack (bg_buf g) s else s)"

definition guard_Buf :: "MBufferGuard \<Rightarrow> buf_id \<times> int" where
  "guard_Buf g = (bg_buf g, bg_index g)"

definition guard_Size :: "MBufferGuard \<Rightarrow> int" where
  "guard_Size g = bg_size g"

section \<open>MReadBuf\<close>

text \<open>
  The iterators are positions in the list; \<open>end()\<close> is its length. \<open>_last_it\<close> is not initialised by the
  constructor and dangles after its element was erased: it is \<^term>\<open>None :: nat option\<close> then.
\<close>

record MReadBuf =
  mr_list :: "MBufferGuard list"
  mr_cur_it :: nat
  mr_last_it :: "nat option"
  mr_cur_pos :: int
  mr_read_bytes :: int
  mr_total_bytes :: int

definition MReadBuf_new :: MReadBuf where
  "MReadBuf_new = \<lparr>mr_list = [], mr_cur_it = 0, mr_last_it = None, mr_cur_pos = 0, mr_read_bytes = 0,
     mr_total_bytes = 0\<rparr>"

definition Append :: "MBufferGuard \<Rightarrow> MReadBuf \<Rightarrow> MReadBuf" where
  "Append g r = r\<lparr>mr_list := mr_list r @ [g], mr_cur_it := 0,
     mr_total_bytes := mr_total_bytes r + guard_Size g\<rparr>"

text \<open>\<open>Next\<close> yields the buffer, the address in it and the size, or nothing at the end.\<close>

definition Next :: "MReadBuf \<Rightarrow> ((buf_id \<times> int) \<times> int \<times> MReadBuf) option" where
  "Next r = (if mr_cur_it r < length (mr_list r) then
     (let g = mr_list r ! mr_cur_it r; size = guard_Size g - mr_cur_pos r in
      Some ((fst (guard_Buf g), snd (guard_Buf g) + mr_cur_pos r), size,
        r\<lparr>mr_last_it := Some (mr_cur_it r), mr_cur_it := mr_cur_it r + 1,
          mr_read_bytes := mr_read_bytes r + size\<rparr>))
     else None)"

text \<open>\<open>BackUp\<close> before the first element moves the iterator off the list.\<close>

definition BackUp :: "int \<Rightarrow> MReadBuf \<Rightarrow> MReadBuf option" where
  "BackUp cnt r = (if cnt > 0 then
     (if mr_cur_it r = 0 \<or> mr_cur_it r > length (mr_list r) then None
      else Some (r\<lparr>mr_cur_it := mr_cur_it r - 1,
        mr_cur_pos := guard_Size (mr_list r ! (mr_cur_it r - 1)) - cnt,
        mr_read_bytes := mr_read_bytes r - cnt\<rparr>))
     else Some (r\<lparr>mr_read_bytes := mr_read_bytes r - cnt\<rparr>))"

text \<open>The comparison with an invalid \<open>_last_it\<close> is undefined.\<close>

definition Erase :: "MReadBuf \<Rightarrow> MReadBuf option" where
  "Erase r = do {
     last_it \<leftarrow> mr_last_it r;
     (if mr_cur_it r \<noteq> last_it then
        (if last_it < length (mr_list r) then
           Some (r\<lparr>mr_list := take last_it (mr_list r) @ drop (last_it + 1) (mr_list r), mr_last_it := None,
             mr_cur_it := (if mr_cur_it r > last_it then mr_cur_it r - 1 else mr_cur_it r)\<rparr>)
         else None)
      else Some r) }"

definition TotalBytes :: "MReadBuf \<Rightarrow> int" where
  "TotalBytes r = mr_total_bytes r"

function Skip_loop :: "int \<Rightarrow> MReadBuf \<Rightarrow> (int \<times> MReadBuf) option" where
  "Skip_loop cnt r = (if cnt > 0 then
     (case Next r of
        None \<Rightarrow> Some (cnt, r)
      | Some (data, sz, r') \<Rightarrow>
          if sz > cnt then do {
            r'' \<leftarrow> BackUp (sz - cnt) r';
            Some (cnt - cnt, r'') }
          else Skip_loop (cnt - sz) r')
     else Some (cnt, r))"
  by pat_completeness auto
termination
  by (relation "measure (\<lambda>(c, r). length (mr_list r) - mr_cur_it r)")
    (auto simp: Next_def Let_def split: if_splits)

definition Skip :: "int \<Rightarrow> MReadBuf \<Rightarrow> (bool \<times> MReadBuf) option" where
  "Skip cnt r = map_option (\<lambda>(c, r). (c = 0, r)) (Skip_loop cnt r)"

definition ByteCount :: "MReadBuf \<Rightarrow> int" where
  "ByteCount r = mr_read_bytes r"

section \<open>What a read buffer delivers\<close>

definition window :: "buf_store \<Rightarrow> buf_id \<times> int \<Rightarrow> int \<Rightarrow> byte list" where
  "window s p n = (case bs_bufs s (fst p) of None \<Rightarrow> []
     | Some m \<Rightarrow> take (nat n) (drop (nat (snd p)) (mb_bytes m)))"

definition guard_bytes :: "buf_store \<Rightarrow> int \<Rightarrow> MBufferGuard \<Rightarrow> byte list" where
  "guard_bytes s pos g = window s (bg_buf g, bg_index g + pos) (bg_size g - pos)"

definition next_bytes :: "buf_store \<Rightarrow> MReadBuf \<Rightarrow> (byte list \<times> MReadBuf) option" where
  "next_bytes s r = map_option (\<lambda>(p, n, r'). (window s p n, r')) (Next r)"

definition rest_bytes :: "buf_store \<Rightarrow> MReadBuf \<Rightarrow> byte list" where
  "rest_bytes s r = concat (map (guard_bytes s (mr_cur_pos r)) (drop (mr_cur_it r) (mr_list r)))"

interpretation mrb: chunk_source "next_bytes s" "rest_bytes s" "\<lambda>r. length (mr_list r) - mr_cur_it r" for s
proof
  fix r d r'
  assume a: "next_bytes s r = Some (d, r')"
  then have it: "mr_cur_it r < length (mr_list r)" by (auto simp: next_bytes_def Next_def split: if_splits)
  then have "drop (mr_cur_it r) (mr_list r) = mr_list r ! mr_cur_it r # drop (mr_cur_it r + 1) (mr_list r)"
    by (simp add: Cons_nth_drop_Suc)
  then show "rest_bytes s r = d @ rest_bytes s r' \<and>
      length (mr_list r') - mr_cur_it r' < length (mr_list r) - mr_cur_it r"
    using a it by (auto simp: next_bytes_def Next_def Let_def rest_bytes_def guard_bytes_def guard_Buf_def
        guard_Size_def)
next
  fix r
  assume "next_bytes s r = None"
  then show "rest_bytes s r = []" by (auto simp: next_bytes_def Next_def Let_def rest_bytes_def split: if_splits)
qed

text \<open>
  C33: A read buffer that was filled by \<open>Append\<close> and is read with \<open>Next\<close> until it is exhausted delivers the
  bytes of all its guards in order, and \<open>TotalBytes\<close> is their number as announced by the guards.
\<close>

theorem mreadbuf_delivers_all:
  assumes "length gs \<le> n"
  shows "drain n (next_bytes s) (fold Append gs MReadBuf_new) = concat (map (guard_bytes s 0) gs) \<and>
    TotalBytes (fold Append gs MReadBuf_new) = sum_list (map guard_Size gs)"
proof -
  have f: "mr_list (fold Append gs r) = mr_list r @ gs \<and> (mr_cur_it r = 0 \<longrightarrow> mr_cur_it (fold Append gs r) = 0) \<and>
      mr_cur_pos (fold Append gs r) = mr_cur_pos r \<and>
      mr_total_bytes (fold Append gs r) = mr_total_bytes r + sum_list (map guard_Size gs)" for r
    by (induction gs arbitrary: r) (auto simp: Append_def)
  show ?thesis
    using f [of MReadBuf_new] assms
    by (subst mrb.drain_rest) (auto simp: rest_bytes_def TotalBytes_def MReadBuf_new_def)
qed

definition demo_store :: buf_store where
  "demo_store = \<lparr>bs_bufs = [1 \<mapsto> (MBuffer_new 4)\<lparr>mb_bytes := [1, 2, 3, 4]\<rparr>,
     2 \<mapsto> (MBuffer_new 4)\<lparr>mb_bytes := [5, 6, 7, 8]\<rparr>], bs_pool1024 = []\<rparr>"

definition demo_guard :: "buf_id \<Rightarrow> MBufferGuard" where
  "demo_guard b = \<lparr>bg_buf = b, bg_buf_free = False, bg_size = 4, bg_index = 0\<rparr>"

theorem mreadbuf_delivers_all_witness:
  "drain 2 (next_bytes demo_store) (fold Append [demo_guard 1, demo_guard 2] MReadBuf_new) = [1, 2, 3, 4, 5, 6, 7, 8]"
  using mreadbuf_delivers_all [of "[demo_guard 1, demo_guard 2]" 2 demo_store]
  by (simp add: guard_bytes_def window_def demo_store_def demo_guard_def)

text \<open>
  \<open>BackUp\<close> breaks the stream: the position it sets is never reset by \<open>Next\<close>, so after a chunk was
  read and \<open>count\<close> of its bytes were handed back, the stream delivers these bytes again, but then
  skips the same number of leading bytes of every following buffer.
\<close>

theorem mreadbuf_backup_skips:
  assumes "next_bytes s (fold Append (g # gs) MReadBuf_new) = Some (d, r)" "0 < cnt" "cnt < guard_Size g"
    and "BackUp cnt r = Some r'" "length gs < n"
  shows "drain n (next_bytes s) r' =
    guard_bytes s (guard_Size g - cnt) g @ concat (map (guard_bytes s (guard_Size g - cnt)) gs)"
proof -
  have f: "mr_list (fold Append gs r) = mr_list r @ gs \<and> (mr_cur_it r = 0 \<longrightarrow> mr_cur_it (fold Append gs r) = 0)" for r
    by (induction gs arbitrary: r) (auto simp: Append_def)
  have "mr_list (fold Append (g # gs) MReadBuf_new) = g # gs \<and> mr_cur_it (fold Append (g # gs) MReadBuf_new) = 0"
    using f [of "Append g MReadBuf_new"] by (simp add: Append_def MReadBuf_new_def)
  then have "mr_list r = g # gs" "mr_cur_it r = 1"
    using assms(1) by (auto simp: next_bytes_def Next_def Let_def)
  then have "mr_list r' = g # gs" "mr_cur_it r' = 0" "mr_cur_pos r' = guard_Size g - cnt"
    using assms(2,4) by (auto simp: BackUp_def)
  then show ?thesis using assms(5) by (subst mrb.drain_rest) (auto simp: rest_bytes_def)
qed

theorem mreadbuf_backup_skips_witness:
  "\<exists>d r r'. next_bytes demo_store (fold Append [demo_guard 1, demo_guard 2] MReadBuf_new) = Some (d, r) \<and>
     BackUp 1 r = Some r' \<and> drain 5 (next_bytes demo_store) r' = [4, 8]"
proof -
  let ?r0 = "fold Append [demo_guard 1, demo_guard 2] MReadBuf_new"
  have "\<exists>d r. next_bytes demo_store ?r0 = Some (d, r) \<and> mr_cur_it r = 1 \<and> length (mr_list r) = 2"
    by (simp add: next_bytes_def Next_def Append_def MReadBuf_new_def Let_def guard_Buf_def)
  then obtain d r where n: "next_bytes demo_store ?r0 = Some (d, r)" "mr_cur_it r = 1" "length (mr_list r) = 2"
    by blast
  then obtain r' where b: "BackUp 1 r = Some r'" by (simp add: BackUp_def)
  have "drain 5 (next_bytes demo_store) r' = [4, 8]"
    using mreadbuf_backup_skips [OF n(1) _ _ b, of 5]
    by (simp add: guard_bytes_def window_def demo_store_def demo_guard_def guard_Size_def)
  with n(1) b show ?thesis by blast
qed

section \<open>The pool\<close>

text \<open>
  A recycled buffer overruns: \<open>Consume\<close> moves the write address but does not reduce \<open>Remain\<close>, and
  \<open>GiveBack\<close> does not call \<open>Reset\<close>. A buffer of which \<open>n\<close> bytes were consumed comes out of the pool
  again with a window that reaches \<open>n\<close> bytes past its capacity, and the next \<open>recv\<close> is told to
  fill that window.
\<close>

theorem pool_reuse_overruns:
  assumes "bs_bufs s b = Some m" "Buf m = 0" "Remain m = Capacity m" "consume_buf b n s = Some s1" "0 < n"
    and "bs_pool1024 s = []"
  shows "\<exists>m'. Allocate (GiveBack b s1) = (Some b, s1) \<and> bs_bufs s1 b = Some m' \<and> Capacity m' = Capacity m \<and>
    Buf m' + Remain m' = Capacity m' + n"
  using assms
  by (auto simp: consume_buf_def GiveBack_def Allocate_def Consume_def Buf_def Remain_def Capacity_def)

theorem pool_reuse_overruns_witness:
  "\<exists>s1 m'. consume_buf 7 12 \<lparr>bs_bufs = [7 \<mapsto> MBuffer_new 1024], bs_pool1024 = []\<rparr> = Some s1 \<and>
     Allocate (GiveBack 7 s1) = (Some 7, s1) \<and> bs_bufs s1 7 = Some m' \<and> Buf m' + Remain m' = 1036 \<and> Capacity m' = 1024"
proof -
  let ?s = "\<lparr>bs_bufs = [7 \<mapsto> MBuffer_new 1024], bs_pool1024 = []\<rparr>"
  obtain s1 where s1: "consume_buf 7 12 ?s = Some s1" by (simp add: consume_buf_def)
  show ?thesis
    using pool_reuse_overruns [OF _ _ _ s1, of "MBuffer_new 1024"] s1
    by (auto simp: MBuffer_new_def Buf_def Remain_def Capacity_def)
qed

text \<open>
  A buffer that carries two parts of a message is shared: each of its two guards puts it back into the
  pool when it is destroyed, so the free list then contains it twice and two later requests for
  a buffer get the same one.
\<close>

theorem pool_double_give_back:
  assumes "MBufferGuard_new b n1 s = Some g1" "MBufferGuard_new b n2 s' = Some g2"
  shows "count_list (bs_pool1024 (MBufferGuard_delete g2 (MBufferGuard_delete g1 s))) b =
      count_list (bs_pool1024 s) b + 2 \<and>
    (bs_pool1024 s = [] \<longrightarrow> (let (x, s1) = Allocate (MBufferGuard_delete g2 (MBufferGuard_delete g1 s));
        (y, s2) = Allocate s1 in x = Some b \<and> y = Some b))"
  using assms by (auto simp: MBufferGuard_new_def MBufferGuard_delete_def GiveBack_def Allocate_def)

theorem pool_double_give_back_witness:
  "\<exists>g1 g2. MBufferGuard_new 1 2 demo_store = Some g1 \<and> MBufferGuard_new 1 2 demo_store = Some g2 \<and>
     fst (Allocate (MBufferGuard_delete g2 (MBufferGuard_delete g1 demo_store))) = Some 1 \<and>
     fst (Allocate (snd (Allocate (MBufferGuard_delete g2 (MBufferGuard_delete g1 demo_store))))) = Some 1"
proof -
  obtain g where g: "MBufferGuard_new 1 2 demo_store = Some g"
    by (simp add: MBufferGuard_new_def demo_store_def)
  have "bs_pool1024 demo_store = []" by (simp add: demo_store_def)
  with pool_double_give_back [OF g g] g show ?thesis by (auto simp: split_beta)
qed

end
