(* ===== verification/Rpc_Parser.thy ===== *)
theory Rpc_Parser
  imports Rpc_Buffer
begin

text \<open>
  Message framing of the RPC server: \<open>MRequest\<close>, \<open>MParser\<close> and \<open>MConnection\<close> of
  \<^verbatim>\<open>gencode/mg_server/server\<close> and \<open>parse_connection\<close> of its \<^verbatim>\<open>main.cpp\<close>, together with the frame that
  the client (\<^verbatim>\<open>client/client.cpp\<close>) and \<open>do_response\<close> write. A frame is a magic string, two 32 bit
  lengths, the RPC header and the body. \<^term>\<open>None\<close> is undefined behaviour or a loop without end.
\<close>

section \<open>Data\<close>

datatype parse_type = M_MAGIC | M_HEADER | M_RPC_HEADER | M_RPC_CONTENT

text \<open>\<open>MLengthHeader\<close> as the eight bytes that \<open>memcpy\<close> fills.\<close>

record MRequest =
  rq_length_header :: "byte list"
  rq_header_buf :: MReadBuf
  rq_body_buf :: MReadBuf

definition sizeof_length_header :: int where
  "sizeof_length_header = 8"

definition MRequest_new :: MRequest where
  "MRequest_new = \<lparr>rq_length_header = replicate 8 0, rq_header_buf = MReadBuf_new, rq_body_buf = MReadBuf_new\<rparr>"

definition RPCHeaderLength :: "MRequest \<Rightarrow> int" where
  "RPCHeaderLength r = le32 (take 4 (rq_length_header r))"

definition RPCBodyLength :: "MRequest \<Rightarrow> int" where
  "RPCBodyLength r = le32 (drop 4 (rq_length_header r))"

record MParser =
  mp_header_remain :: int
  mp_rpc_remain :: int
  mp_req :: MRequest

definition MParser_new :: "int \<Rightarrow> MParser" where
  "MParser_new garbage = \<lparr>mp_header_remain = sizeof_length_header, mp_rpc_remain = garbage, mp_req = MRequest_new\<rparr>"

text \<open>\<open>MParser::Reset\<close>; it also sets the connection's parse type to \<^const>\<open>M_MAGIC\<close>.\<close>

definition parser_Reset :: "MParser \<Rightarrow> MParser" where
  "parser_Reset p = p\<lparr>mp_header_remain := sizeof_length_header, mp_rpc_remain := 0\<rparr>"

record MConnection =
  mc_fd :: int
  mc_client_ip :: string
  mc_client_port :: int
  mc_magic :: "byte list"
  mc_magic_remain :: int
  mc_parse_type :: parse_type
  mc_parser :: "MParser option"
  mc_send_buf :: MReadBuf

definition MConnection_new :: "int \<Rightarrow> string \<Rightarrow> int \<Rightarrow> MConnection" where
  "MConnection_new fd client_ip client_port = \<lparr>mc_fd = fd, mc_client_ip = client_ip,
     mc_client_port = client_port, mc_magic = replicate 4 0, mc_magic_remain = 4, mc_parse_type = M_MAGIC,
     mc_parser = None, mc_send_buf = MReadBuf_new\<rparr>"

section \<open>Copying out of a buffer\<close>

definition copy_from :: "buf_id \<Rightarrow> int \<Rightarrow> buf_store \<Rightarrow> byte list option" where
  "copy_from b n s = do {
     m \<leftarrow> bs_bufs s b;
     (if 0 \<le> n \<and> 0 \<le> Buf m \<and> Buf m + n \<le> int (length (mb_bytes m))
      then Some (take (nat n) (drop (nat (Buf m)) (mb_bytes m))) else None) }"

definition write_at :: "int \<Rightarrow> byte list \<Rightarrow> byte list \<Rightarrow> byte list" where
  "write_at off d xs = take (nat off) xs @ d @ drop (nat off + length d) xs"

section \<open>SplitMessage\<close>

text \<open>
  The loop of \<open>SplitMessage\<close> on the parser and the connection's parse type. A request is returned with
  the bytes that are left; in the state \<^const>\<open>M_MAGIC\<close> no case applies and the loop spins.
\<close>

partial_function (option) SplitMessage ::
  "buf_id \<Rightarrow> int \<Rightarrow> parse_type \<Rightarrow> MParser \<Rightarrow> buf_store \<Rightarrow>
   (MRequest option \<times> int \<times> parse_type \<times> MParser \<times> buf_store) option" where
  "SplitMessage b len ty p s = (if len > 0 then
     (case ty of
        M_MAGIC \<Rightarrow> SplitMessage b len ty p s
      | M_HEADER \<Rightarrow>
          (let remain = min (mp_header_remain p) len in do {
             d \<leftarrow> copy_from b remain s;
             let req = (mp_req p)\<lparr>rq_length_header :=
               write_at (sizeof_length_header - mp_header_remain p) d (rq_length_header (mp_req p))\<rparr>;
             s \<leftarrow> consume_buf b remain s;
             let p = p\<lparr>mp_req := req, mp_header_remain := mp_header_remain p - remain\<rparr>;
             (if mp_header_remain p > 0 then SplitMessage b (len - remain) M_HEADER p s
              else SplitMessage b (len - remain) M_RPC_HEADER (p\<lparr>mp_rpc_remain := RPCHeaderLength req\<rparr>) s) })
      | M_RPC_HEADER \<Rightarrow>
          (let remain = min (mp_rpc_remain p) len in do {
             g \<leftarrow> MBufferGuard_new b remain s;
             let req = (mp_req p)\<lparr>rq_header_buf := Append g (rq_header_buf (mp_req p))\<rparr>;
             s \<leftarrow> consume_buf b remain s;
             let p = p\<lparr>mp_req := req, mp_rpc_remain := mp_rpc_remain p - remain\<rparr>;
             (if mp_rpc_remain p > 0 then SplitMessage b (len - remain) M_RPC_HEADER p s
              else SplitMessage b (len - remain) M_RPC_CONTENT (p\<lparr>mp_rpc_remain := RPCBodyLength req\<rparr>) s) })
      | M_RPC_CONTENT \<Rightarrow>
          (let remain = min (mp_rpc_remain p) len in do {
             g \<leftarrow> MBufferGuard_new b remain s;
             let req = (mp_req p)\<lparr>rq_body_buf := Append g (rq_body_buf (mp_req p))\<rparr>;
             s \<leftarrow> consume_buf b remain s;
             let p = p\<lparr>mp_req := req, mp_rpc_remain := mp_rpc_remain p - remain\<rparr>;
             (if mp_rpc_remain p > 0 then SplitMessage b (len - remain) M_RPC_CONTENT p s
              else Some (Some req, len - remain, M_MAGIC, parser_Reset (p\<lparr>mp_req := MRequest_new\<rparr>), s)) }))
     else Some (None, len, ty, p, s))"

section \<open>parse\_connection\<close>

text \<open>\<open>garbage\<close> is the value of the field \<open>_rpc_remain\<close> that the parser's constructor leaves uninitialised.\<close>

partial_function (option) parse_connection ::
  "int \<Rightarrow> buf_id \<Rightarrow> int \<Rightarrow> MConnection \<Rightarrow> buf_store \<Rightarrow> (MRequest list \<times> MConnection \<times> buf_store) option" where
  "parse_connection garbage b len conn s = (if len > 0 then
     (case mc_parse_type conn of
        M_MAGIC \<Rightarrow>
          (let remain = min (mc_magic_remain conn) len in do {
             d \<leftarrow> copy_from b remain s;
             let conn = conn\<lparr>mc_magic := write_at (4 - mc_magic_remain conn) d (mc_magic conn)\<rparr>;
             s \<leftarrow> consume_buf b remain s;
             let conn = conn\<lparr>mc_magic_remain := mc_magic_remain conn - remain\<rparr>;
             (if mc_magic_remain conn > 0 then parse_connection garbage b (len - remain) conn s
              else parse_connection garbage b (len - remain) (conn\<lparr>mc_parse_type := M_HEADER\<rparr>) s) })
      | _ \<Rightarrow>
          (let p = (case mc_parser conn of None \<Rightarrow> MParser_new garbage | Some p \<Rightarrow> p) in do {
             (req, len', ty, p, s) \<leftarrow> SplitMessage b len (mc_parse_type conn) p s;
             (reqs, conn, s) \<leftarrow> parse_connection garbage b len' (conn\<lparr>mc_parser := Some p, mc_parse_type := ty\<rparr>) s;
             Some (case req of None \<Rightarrow> reqs | Some r \<Rightarrow> r # reqs, conn, s) }))
     else Some ([], conn, s))"

text \<open>
  One successful \<open>recv\<close> of \<open>recv_run\<close>: the data arrive at the buffer's write address and are parsed.
\<close>

definition deliver :: "buf_id \<Rightarrow> byte list \<Rightarrow> buf_store \<Rightarrow> buf_store option" where
  "deliver b d s = do {
     m \<leftarrow> bs_bufs s b;
     (if 0 \<le> Buf m \<and> Buf m + int (length d) \<le> int (length (mb_bytes m))
      then Some (s\<lparr>bs_bufs := (bs_bufs s)(b \<mapsto> m\<lparr>mb_bytes := write_at (Buf m) d (mb_bytes m)\<rparr>)\<rparr>)
      else None) }"

definition receive :: "int \<Rightarrow> buf_id \<Rightarrow> byte list \<Rightarrow> MConnection \<Rightarrow> buf_store \<Rightarrow>
    (MRequest list \<times> MConnection \<times> buf_store) option" where
  "receive garbage b d conn s = do {
     s \<leftarrow> deliver b d s;
     parse_connection garbage b (int (length d)) conn s }"

text \<open>The frame that the client sends and that \<open>do_response\<close> writes.\<close>

definition MAGIC :: "byte list" where
  "MAGIC = [112, 101, 110, 103]"

definition frame :: "byte list \<Rightarrow> byte list \<Rightarrow> byte list" where
  "frame hdr body = MAGIC @ le_bytes (int (length hdr)) @ le_bytes (int (length body)) @ hdr @ body"

section \<open>Reading from a buffer\<close>

text \<open>The next bytes of buffer \<open>b\<close> are \<open>data\<close>; consuming does not change any contents.\<close>

definition unread :: "buf_store \<Rightarrow> buf_id \<Rightarrow> byte list \<Rightarrow> bool" where
  "unread s b data \<longleftrightarrow> (\<exists>m. bs_bufs s b = Some m \<and> 0 \<le> Buf m \<and>
     Buf m + int (length data) \<le> int (length (mb_bytes m)) \<and>
     take (length data) (drop (nat (Buf m)) (mb_bytes m)) = data)"

definition same_bytes :: "buf_store \<Rightarrow> buf_store \<Rightarrow> bool" where
  "same_bytes s s' \<longleftrightarrow> (\<forall>x. map_option mb_bytes (bs_bufs s' x) = map_option mb_bytes (bs_bufs s x)) \<and>
     bs_pool1024 s' = bs_pool1024 s"

definition untouched :: "buf_id \<Rightarrow> buf_store \<Rightarrow> buf_store \<Rightarrow> bool" where
  "untouched b s s' \<longleftrightarrow> same_bytes s s' \<and> (\<forall>x. x \<noteq> b \<longrightarrow> bs_bufs s' x = bs_bufs s x)"

lemma untouched_refl [simp]: "untouched b s s"
  by (simp add: untouched_def same_bytes_def)

lemma untouched_trans: "untouched b s s' \<Longrightarrow> untouched b s' s'' \<Longrightarrow> untouched b s s''"
  by (auto simp: untouched_def same_bytes_def)

lemma window_same: "same_bytes s s' \<Longrightarrow> window s' p n = window s p n"
proof -
  assume "same_bytes s s'"
  then have "map_option mb_bytes (bs_bufs s' (fst p)) = map_option mb_bytes (bs_bufs s (fst p))"
    by (simp add: same_bytes_def)
  then show ?thesis
    by (cases "bs_bufs s' (fst p)"; cases "bs_bufs s (fst p)") (auto simp: window_def)
qed

definition contents :: "buf_store \<Rightarrow> MReadBuf \<Rightarrow> byte list" where
  "contents s r = concat (map (guard_bytes s 0) (mr_list r))"

lemma guard_bytes_same: "untouched b s s' \<Longrightarrow> guard_bytes s' pos g = guard_bytes s pos g"
  by (simp add: guard_bytes_def untouched_def window_same)

lemma contents_same: "untouched b s s' \<Longrightarrow> contents s' r = contents s r"
  by (simp add: contents_def guard_bytes_same cong: map_cong)

lemma contents_new [simp]: "contents s MReadBuf_new = []"
  by (simp add: contents_def MReadBuf_new_def)

lemma contents_Append [simp]: "contents s (Append g r) = contents s r @ guard_bytes s 0 g"
  by (simp add: contents_def Append_def)

text \<open>A stream that was only appended to: nothing was read, and it announces the sizes of its guards.\<close>

definition tidy :: "MReadBuf \<Rightarrow> bool" where
  "tidy r \<longleftrightarrow> mr_cur_it r = 0 \<and> mr_cur_pos r = 0 \<and> mr_total_bytes r = sum_list (map bg_size (mr_list r)) \<and>
     (\<forall>g\<in>set (mr_list r). 0 \<le> bg_size g)"

lemma tidy_new [simp]: "tidy MReadBuf_new"
  by (simp add: tidy_def MReadBuf_new_def)

lemma tidy_Append: "tidy r \<Longrightarrow> 0 \<le> bg_size g \<Longrightarrow> tidy (Append g r)"
  by (auto simp: tidy_def Append_def guard_Size_def)

lemma tidy_rest:
  assumes "tidy r"
  shows "rest_bytes s r = contents s r" "int (length (contents s r)) \<le> TotalBytes r"
proof -
  show "rest_bytes s r = contents s r" using assms by (simp add: tidy_def rest_bytes_def contents_def)
  have le: "int (length (guard_bytes s 0 g)) \<le> bg_size g" if "0 \<le> bg_size g" for g
    using that by (auto simp: guard_bytes_def window_def split: option.splits)
  have "\<forall>g\<in>set gs. 0 \<le> bg_size g \<Longrightarrow> int (length (concat (map (guard_bytes s 0) gs))) \<le> sum_list (map bg_size gs)" for gs
  proof (induction gs)
    case (Cons g gs)
    then show ?case using le [of g] by simp
  qed simp
  then show "int (length (contents s r)) \<le> TotalBytes r"
    using assms by (simp add: tidy_def contents_def TotalBytes_def)
qed

lemma unread_copy:
  assumes "unread s b data" "n \<le> length data"
  shows "copy_from b (int n) s = Some (take n data)"
proof -
  obtain m where m: "bs_bufs s b = Some m" "0 \<le> Buf m"
      "Buf m + int (length data) \<le> int (length (mb_bytes m))"
      "take (length data) (drop (nat (Buf m)) (mb_bytes m)) = data"
    using assms(1) by (auto simp: unread_def)
  have "take n (drop (nat (Buf m)) (mb_bytes m)) = take n data"
    using assms(2) arg_cong [OF m(4), of "take n"] by (simp add: min_absorb1)
  then show ?thesis using m assms(2) by (simp add: copy_from_def)
qed

lemma unread_consume:
  assumes "unread s b data" "n \<le> length data"
  shows "\<exists>s'. consume_buf b (int n) s = Some s' \<and> unread s' b (drop n data) \<and> untouched b s s'"
proof -
  obtain m where m: "bs_bufs s b = Some m" "0 \<le> Buf m"
      "Buf m + int (length data) \<le> int (length (mb_bytes m))"
      "take (length data) (drop (nat (Buf m)) (mb_bytes m)) = data"
    using assms(1) by (auto simp: unread_def)
  have "nat (mb_cur_index m + int n) = n + nat (mb_cur_index m)" using m(2) by (simp add: Buf_def)
  then have "take (length data - n) (drop (nat (Buf (Consume (int n) m))) (mb_bytes m)) = drop n data"
    using m(2) arg_cong [OF m(4), of "drop n"] assms(2) by (simp add: Buf_def Consume_def drop_take)
  then show ?thesis
    using m assms(2)
    by (auto simp: consume_buf_def unread_def untouched_def same_bytes_def Consume_def Buf_def)
qed

lemma unread_guard:
  assumes "unread s b data" "n \<le> length data"
  shows "\<exists>g. MBufferGuard_new b (int n) s = Some g \<and> guard_bytes s 0 g = take n data \<and> bg_size g = int n"
proof -
  obtain m where m: "bs_bufs s b = Some m" "0 \<le> Buf m"
      "take (length data) (drop (nat (Buf m)) (mb_bytes m)) = data"
    using assms(1) by (auto simp: unread_def)
  have "take n (drop (nat (Buf m)) (mb_bytes m)) = take n data"
    using assms(2) arg_cong [OF m(3), of "take n"] by (simp add: min_absorb1)
  then show ?thesis using m by (simp add: MBufferGuard_new_def guard_bytes_def window_def)
qed

section \<open>The phases of SplitMessage\<close>

lemma split_end: "SplitMessage b 0 ty p s = Some (None, 0, ty, p, s)"
  by (subst SplitMessage.simps) simp

lemma split_content:
  assumes "unread s b data" "data \<noteq> []" "n = min (nat (mp_rpc_remain p)) (length data)" "0 \<le> mp_rpc_remain p"
  shows "\<exists>req s'. untouched b s s' \<and> unread s' b (drop n data) \<and>
    rq_length_header req = rq_length_header (mp_req p) \<and> rq_header_buf req = rq_header_buf (mp_req p) \<and>
    contents s' (rq_body_buf req) = contents s (rq_body_buf (mp_req p)) @ take n data \<and>
    (tidy (rq_body_buf (mp_req p)) \<longrightarrow> tidy (rq_body_buf req)) \<and>
    SplitMessage b (int (length data)) M_RPC_CONTENT p s =
      (if mp_rpc_remain p > int n
       then Some (None, 0, M_RPC_CONTENT, p\<lparr>mp_req := req, mp_rpc_remain := mp_rpc_remain p - int n\<rparr>, s')
       else Some (Some req, int (length data) - int n, M_MAGIC,
         parser_Reset (p\<lparr>mp_req := MRequest_new, mp_rpc_remain := mp_rpc_remain p - int n\<rparr>), s'))"
proof -
  have n: "n \<le> length data" "min (mp_rpc_remain p) (int (length data)) = int n" using assms(3,4) by auto
  obtain g where g: "MBufferGuard_new b (int n) s = Some g" "guard_bytes s 0 g = take n data" "bg_size g = int n"
    using unread_guard [OF assms(1) n(1)] by blast
  obtain s' where s': "consume_buf b (int n) s = Some s'" "unread s' b (drop n data)" "untouched b s s'"
    using unread_consume [OF assms(1) n(1)] by blast
  let ?req = "(mp_req p)\<lparr>rq_body_buf := Append g (rq_body_buf (mp_req p))\<rparr>"
  have t: "tidy (rq_body_buf (mp_req p)) \<Longrightarrow> tidy (rq_body_buf ?req)" using g(3) tidy_Append by simp
  have c: "contents s' (rq_body_buf ?req) = contents s (rq_body_buf (mp_req p)) @ take n data"
    using contents_same [OF s'(3)] guard_bytes_same [OF s'(3)] g(2) by simp
  have all: "mp_rpc_remain p > int n \<Longrightarrow> n = length data" using assms(3,4) by auto
  show ?thesis
    by (rule exI [of _ ?req], rule exI [of _ s'])
      (use s' c t g assms(2) n(2) all in \<open>auto simp: SplitMessage.simps [of b "int (length data)"] Let_def split_end
        parser_Reset_def\<close>)
qed

lemma split_header:
  assumes "unread s b data" "data \<noteq> []" "n = min (nat (mp_rpc_remain p)) (length data)" "0 \<le> mp_rpc_remain p"
  shows "\<exists>req s'. untouched b s s' \<and> unread s' b (drop n data) \<and>
    rq_length_header req = rq_length_header (mp_req p) \<and> rq_body_buf req = rq_body_buf (mp_req p) \<and>
    contents s' (rq_header_buf req) = contents s (rq_header_buf (mp_req p)) @ take n data \<and>
    (tidy (rq_header_buf (mp_req p)) \<longrightarrow> tidy (rq_header_buf req)) \<and>
    SplitMessage b (int (length data)) M_RPC_HEADER p s =
      (if mp_rpc_remain p > int n
       then Some (None, 0, M_RPC_HEADER, p\<lparr>mp_req := req, mp_rpc_remain := mp_rpc_remain p - int n\<rparr>, s')
       else SplitMessage b (int (length (drop n data))) M_RPC_CONTENT
         (p\<lparr>mp_req := req, mp_rpc_remain := RPCBodyLength req\<rparr>) s')"
proof -
  have n: "n \<le> length data" "min (mp_rpc_remain p) (int (length data)) = int n" using assms(3,4) by auto
  obtain g where g: "MBufferGuard_new b (int n) s = Some g" "guard_bytes s 0 g = take n data" "bg_size g = int n"
    using unread_guard [OF assms(1) n(1)] by blast
  obtain s' where s': "consume_buf b (int n) s = Some s'" "unread s' b (drop n data)" "untouched b s s'"
    using unread_consume [OF assms(1) n(1)] by blast
  let ?req = "(mp_req p)\<lparr>rq_header_buf := Append g (rq_header_buf (mp_req p))\<rparr>"
  have t: "tidy (rq_header_buf (mp_req p)) \<Longrightarrow> tidy (rq_header_buf ?req)" using g(3) tidy_Append by simp
  have c: "contents s' (rq_header_buf ?req) = contents s (rq_header_buf (mp_req p)) @ take n data"
    using contents_same [OF s'(3)] guard_bytes_same [OF s'(3)] g(2) by simp
  have all: "mp_rpc_remain p > int n \<Longrightarrow> n = length data" using assms(3,4) by auto
  show ?thesis
    by (rule exI [of _ ?req], rule exI [of _ s'])
      (use s' c t g assms(2) n all in \<open>auto simp: SplitMessage.simps [of b "int (length data)"] Let_def split_end
        of_nat_diff\<close>)
qed

lemma split_length:
  assumes "unread s b data" "data \<noteq> []" "n = min (nat (mp_header_remain p)) (length data)"
    and "0 < mp_header_remain p" "mp_header_remain p \<le> 8" "length (rq_length_header (mp_req p)) = 8"
  shows "\<exists>s'. untouched b s s' \<and> unread s' b (drop n data) \<and>
    SplitMessage b (int (length data)) M_HEADER p s =
      (let req = (mp_req p)\<lparr>rq_length_header :=
         write_at (8 - mp_header_remain p) (take n data) (rq_length_header (mp_req p))\<rparr>
       in if mp_header_remain p > int n
       then Some (None, 0, M_HEADER, p\<lparr>mp_req := req, mp_header_remain := mp_header_remain p - int n\<rparr>, s')
       else SplitMessage b (int (length (drop n data))) M_RPC_HEADER
         (p\<lparr>mp_req := req, mp_header_remain := 0, mp_rpc_remain := RPCHeaderLength req\<rparr>) s')"
proof -
  have n: "n \<le> length data" "min (mp_header_remain p) (int (length data)) = int n" using assms(3,4) by auto
  obtain s' where s': "consume_buf b (int n) s = Some s'" "unread s' b (drop n data)" "untouched b s s'"
    using unread_consume [OF assms(1) n(1)] by blast
  have all: "mp_header_remain p > int n \<Longrightarrow> n = length data"
    "\<not> mp_header_remain p > int n \<Longrightarrow> mp_header_remain p = int n" using assms(3,4) by auto
  show ?thesis
    by (rule exI [of _ s'])
      (use s' unread_copy [OF assms(1) n(1)] assms(2) n all in
        \<open>auto simp: SplitMessage.simps [of b "int (length data)"] Let_def split_end of_nat_diff
          sizeof_length_header_def\<close>)
qed

section \<open>Following one frame\<close>

definition length_bytes :: "byte list \<Rightarrow> byte list \<Rightarrow> byte list" where
  "length_bytes hdr body = le_bytes (int (length hdr)) @ le_bytes (int (length body))"

lemma drop_window:
  assumes "data = take (length data) (drop k xs)"
  shows "drop n data = take (length (drop n data)) (drop (k + n) xs)"
proof -
  have "drop n data = drop n (take (length data) (drop k xs))" using assms by (rule arg_cong)
  also have "\<dots> = take (length data - n) (drop (k + n) xs)" by (simp add: drop_take add.commute)
  finally show ?thesis unfolding length_drop .
qed

lemma take_window:
  assumes "data = take (length data) (drop k (xs @ ys))" "n \<le> length data" "k + n \<le> length xs"
  shows "take n data = take n (drop k xs)"
proof -
  have "take n data = take n (take (length data) (drop k (xs @ ys)))" using assms(1) by (rule arg_cong)
  also have "\<dots> = take n (drop k xs)" using assms(2,3) by (simp add: min_absorb1)
  finally show ?thesis .
qed

lemma length_length_bytes [simp]: "length (length_bytes hdr body) = 8"
  by (simp add: length_bytes_def)

definition fits :: "byte list \<Rightarrow> byte list \<Rightarrow> bool" where
  "fits hdr body \<longleftrightarrow> length hdr < 2 ^ 31 \<and> length body < 2 ^ 31 \<and> body \<noteq> []"

text \<open>The parser after \<open>k\<close> bytes that follow the magic.\<close>

definition follows :: "byte list \<Rightarrow> byte list \<Rightarrow> nat \<Rightarrow> parse_type \<Rightarrow> MParser \<Rightarrow> buf_store \<Rightarrow> bool" where
  "follows hdr body k ty p s \<longleftrightarrow> length (rq_length_header (mp_req p)) = 8 \<and>
     tidy (rq_header_buf (mp_req p)) \<and> tidy (rq_body_buf (mp_req p)) \<and>
     (case ty of
        M_MAGIC \<Rightarrow> False
      | M_HEADER \<Rightarrow> k < 8 \<and> mp_header_remain p = int (8 - k) \<and>
          take k (rq_length_header (mp_req p)) = take k (length_bytes hdr body) \<and>
          contents s (rq_header_buf (mp_req p)) = [] \<and> contents s (rq_body_buf (mp_req p)) = []
      | M_RPC_HEADER \<Rightarrow> 8 \<le> k \<and> k \<le> 8 + length hdr \<and> mp_rpc_remain p = int (8 + length hdr - k) \<and>
          rq_length_header (mp_req p) = length_bytes hdr body \<and>
          contents s (rq_header_buf (mp_req p)) = take (k - 8) hdr \<and> contents s (rq_body_buf (mp_req p)) = []
      | M_RPC_CONTENT \<Rightarrow> 8 + length hdr \<le> k \<and> k < 8 + length hdr + length body \<and>
          mp_rpc_remain p = int (8 + length hdr + length body - k) \<and>
          rq_length_header (mp_req p) = length_bytes hdr body \<and>
          contents s (rq_header_buf (mp_req p)) = hdr \<and>
          contents s (rq_body_buf (mp_req p)) = take (k - 8 - length hdr) body)"

definition complete :: "byte list \<Rightarrow> byte list \<Rightarrow> MRequest \<Rightarrow> buf_store \<Rightarrow> bool" where
  "complete hdr body req s \<longleftrightarrow> contents s (rq_header_buf req) = hdr \<and> contents s (rq_body_buf req) = body \<and>
     tidy (rq_header_buf req) \<and> tidy (rq_body_buf req) \<and>
     RPCHeaderLength req = int (length hdr) \<and> RPCBodyLength req = int (length body)"

definition outcome :: "byte list \<Rightarrow> byte list \<Rightarrow> nat \<Rightarrow> buf_id \<Rightarrow> buf_store \<Rightarrow>
    (MRequest option \<times> int \<times> parse_type \<times> MParser \<times> buf_store) option \<Rightarrow> bool" where
  "outcome hdr body k b s R \<longleftrightarrow> (\<exists>req ty p s'. R = Some (req, 0, ty, p, s') \<and> untouched b s s' \<and>
     (if k < 8 + length hdr + length body then req = None \<and> follows hdr body k ty p s'
      else \<exists>r. req = Some r \<and> complete hdr body r s' \<and> ty = M_MAGIC \<and> mp_header_remain p = 8))"

lemma outcome_untouched: "untouched b s s' \<Longrightarrow> outcome hdr body k b s' R \<Longrightarrow> outcome hdr body k b s R"
  by (auto simp: outcome_def split del: if_split intro: untouched_trans)

lemma outcome_None:
  "follows hdr body k ty p s' \<Longrightarrow> untouched b s s' \<Longrightarrow> k < 8 + length hdr + length body \<Longrightarrow>
   outcome hdr body k b s (Some (None, 0, ty, p, s'))"
  by (auto simp: outcome_def)

lemma lengths_of:
  assumes "fits hdr body" "rq_length_header req = length_bytes hdr body"
  shows "RPCHeaderLength req = int (length hdr)" "RPCBodyLength req = int (length body)"
  using assms by (simp_all add: RPCHeaderLength_def RPCBodyLength_def length_bytes_def fits_def le32_le_bytes)

lemma content_phase:
  assumes f: "fits hdr body" and fo: "follows hdr body k M_RPC_CONTENT p s" and u: "unread s b data"
    and d: "data = take (length data) (drop (k - 8 - length hdr) body)"
    and le: "k + length data \<le> 8 + length hdr + length body"
  shows "outcome hdr body (k + length data) b s (SplitMessage b (int (length data)) M_RPC_CONTENT p s)"
proof (cases "data = []")
  case True
  then show ?thesis using fo by (auto simp: split_end follows_def intro!: outcome_None)
next
  case False
  let ?R = "8 + length hdr + length body - k"
  have p: "mp_rpc_remain p = int ?R" "8 + length hdr \<le> k" "k < 8 + length hdr + length body"
      "rq_length_header (mp_req p) = length_bytes hdr body" "length (rq_length_header (mp_req p)) = 8"
      "contents s (rq_header_buf (mp_req p)) = hdr"
      "contents s (rq_body_buf (mp_req p)) = take (k - 8 - length hdr) body"
      "tidy (rq_header_buf (mp_req p))" "tidy (rq_body_buf (mp_req p))"
    using fo by (auto simp: follows_def)
  have n: "length data = min (nat (mp_rpc_remain p)) (length data)" using p(1) le by simp
  obtain req s' where r: "untouched b s s'" "rq_length_header req = rq_length_header (mp_req p)"
      "rq_header_buf req = rq_header_buf (mp_req p)"
      "contents s' (rq_body_buf req) = contents s (rq_body_buf (mp_req p)) @ take (length data) data"
      "tidy (rq_body_buf (mp_req p)) \<longrightarrow> tidy (rq_body_buf req)"
      "SplitMessage b (int (length data)) M_RPC_CONTENT p s =
        (if mp_rpc_remain p > int (length data)
         then Some (None, 0, M_RPC_CONTENT, p\<lparr>mp_req := req, mp_rpc_remain := mp_rpc_remain p - int (length data)\<rparr>, s')
         else Some (Some req, int (length data) - int (length data), M_MAGIC,
           parser_Reset (p\<lparr>mp_req := MRequest_new, mp_rpc_remain := mp_rpc_remain p - int (length data)\<rparr>), s'))"
    using split_content [OF u False n] p(1) by auto
  have body: "contents s' (rq_body_buf req) = take (k + length data - 8 - length hdr) body"
  proof -
    have "take (k - 8 - length hdr) body @ data = take (k - 8 - length hdr + length data) body"
      using d by (metis take_add)
    then show ?thesis using r(4) p(2,7) by (simp add: add.commute)
  qed
  have hd: "contents s' (rq_header_buf req) = hdr" using r(1,3) p(6) by (simp add: contents_same)
  show ?thesis
  proof (cases "mp_rpc_remain p > int (length data)")
    case True
    then show ?thesis
      using r body hd p by (auto simp: follows_def intro!: outcome_None)
  next
    case False
    then have "k + length data = 8 + length hdr + length body" using le p(1,3) by simp
    then show ?thesis
      using False r body hd p lengths_of [OF f, of req]
      by (auto simp: outcome_def complete_def parser_Reset_def sizeof_length_header_def)
  qed
qed

lemma header_phase:
  assumes f: "fits hdr body" and fo: "follows hdr body k M_RPC_HEADER p s" and u: "unread s b data"
    and d: "data = take (length data) (drop (k - 8) (hdr @ body))"
    and le: "k + length data \<le> 8 + length hdr + length body"
  shows "outcome hdr body (k + length data) b s (SplitMessage b (int (length data)) M_RPC_HEADER p s)"
proof (cases "data = []")
  case True
  have "0 < length body" using f by (simp add: fits_def)
  moreover have "k \<le> 8 + length hdr" using fo by (simp add: follows_def)
  ultimately have "k < 8 + length hdr + length body" by linarith
  then show ?thesis using True fo by (simp add: split_end outcome_None)
next
  case False
  let ?R = "8 + length hdr - k" and ?n = "min (8 + length hdr - k) (length data)"
  have p: "mp_rpc_remain p = int ?R" "8 \<le> k" "k \<le> 8 + length hdr"
      "rq_length_header (mp_req p) = length_bytes hdr body" "length (rq_length_header (mp_req p)) = 8"
      "contents s (rq_header_buf (mp_req p)) = take (k - 8) hdr"
      "contents s (rq_body_buf (mp_req p)) = []"
      "tidy (rq_header_buf (mp_req p))" "tidy (rq_body_buf (mp_req p))"
    using fo by (auto simp: follows_def)
  have n: "?n = min (nat (mp_rpc_remain p)) (length data)" using p(1) by simp
  obtain req s' where r: "untouched b s s'" "unread s' b (drop ?n data)"
      "rq_length_header req = rq_length_header (mp_req p)" "rq_body_buf req = rq_body_buf (mp_req p)"
      "contents s' (rq_header_buf req) = contents s (rq_header_buf (mp_req p)) @ take ?n data"
      "tidy (rq_header_buf (mp_req p)) \<longrightarrow> tidy (rq_header_buf req)"
      "SplitMessage b (int (length data)) M_RPC_HEADER p s =
        (if mp_rpc_remain p > int ?n
         then Some (None, 0, M_RPC_HEADER, p\<lparr>mp_req := req, mp_rpc_remain := mp_rpc_remain p - int ?n\<rparr>, s')
         else SplitMessage b (int (length (drop ?n data))) M_RPC_CONTENT
           (p\<lparr>mp_req := req, mp_rpc_remain := RPCBodyLength req\<rparr>) s')"
    using split_header [OF u False n] p(1) by auto
  have bd: "contents s' (rq_body_buf req) = []" using r(1,4) p(7) by (simp add: contents_same)
  have hd: "contents s' (rq_header_buf req) = take (k - 8 + ?n) hdr"
  proof -
    have "take ?n data = take ?n (drop (k - 8) hdr)"
      by (rule take_window [OF d]) (use p(2,3) in auto)
    then show ?thesis using r(5) p(6) by (simp add: take_add)
  qed
  show ?thesis
  proof (cases "mp_rpc_remain p > int ?n")
    case True
    then have "?n = length data" using p(1) by auto
    then show ?thesis using True r bd hd p f by (auto simp: follows_def fits_def intro!: outcome_None)
  next
    case False
    then have nR: "?n = ?R" "?R \<le> length data" using p(1) by auto
    let ?p = "p\<lparr>mp_req := req, mp_rpc_remain := RPCBodyLength req\<rparr>"
    have bl: "RPCBodyLength req = int (length body)" by (rule lengths_of(2) [OF f]) (use r(3) p(4) in simp)
    have fo': "follows hdr body (8 + length hdr) M_RPC_CONTENT ?p s'"
      using r(3,4,6) bd hd p nR bl f by (auto simp: follows_def fits_def)
    have d': "drop ?n data = take (length (drop ?n data)) (drop (8 + length hdr - 8 - length hdr) body)"
    proof -
      have "drop (k - 8 + ?n) (hdr @ body) = drop (8 + length hdr - 8 - length hdr) body" using nR p(2,3) by simp
      then show ?thesis using drop_window [OF d, of ?n] by argo
    qed
    have "outcome hdr body (8 + length hdr + length (drop ?n data)) b s'
        (SplitMessage b (int (length (drop ?n data))) M_RPC_CONTENT ?p s')"
      by (rule content_phase [OF f fo' r(2) d']) (use le nR p(2,3) in simp)
    moreover have "8 + length hdr + length (drop ?n data) = k + length data" using nR p(2,3) by simp
    moreover have "SplitMessage b (int (length data)) M_RPC_HEADER p s = SplitMessage b (int (length (drop ?n data))) M_RPC_CONTENT ?p s'"
      unfolding r(7) using False by (rule if_not_P)
    ultimately show ?thesis using outcome_untouched [OF r(1)] by metis
  qed
qed

lemma length_phase:
  assumes f: "fits hdr body" and fo: "follows hdr body k M_HEADER p s" and u: "unread s b data"
    and d: "data = take (length data) (drop k (length_bytes hdr body @ hdr @ body))"
    and le: "k + length data \<le> 8 + length hdr + length body"
  shows "outcome hdr body (k + length data) b s (SplitMessage b (int (length data)) M_HEADER p s)"
proof (cases "data = []")
  case True
  have "k < 8 + length hdr + length body" using fo by (simp add: follows_def)
  then show ?thesis using True fo by (simp add: split_end outcome_None)
next
  case False
  let ?n = "min (8 - k) (length data)" and ?lh = "rq_length_header (mp_req p)"
  have p: "mp_header_remain p = int (8 - k)" "k < 8" "length ?lh = 8"
      "take k ?lh = take k (length_bytes hdr body)"
      "contents s (rq_header_buf (mp_req p)) = []" "contents s (rq_body_buf (mp_req p)) = []"
      "tidy (rq_header_buf (mp_req p))" "tidy (rq_body_buf (mp_req p))"
    using fo by (auto simp: follows_def)
  have L: "length (length_bytes hdr body) = 8" by (simp add: length_bytes_def)
  have n: "?n = min (nat (mp_header_remain p)) (length data)" using p(1) by simp
  let ?req = "(mp_req p)\<lparr>rq_length_header := write_at (8 - mp_header_remain p) (take ?n data) ?lh\<rparr>"
  obtain s' where r: "untouched b s s'" "unread s' b (drop ?n data)"
      "SplitMessage b (int (length data)) M_HEADER p s =
        (if mp_header_remain p > int ?n
         then Some (None, 0, M_HEADER, p\<lparr>mp_req := ?req, mp_header_remain := mp_header_remain p - int ?n\<rparr>, s')
         else SplitMessage b (int (length (drop ?n data))) M_RPC_HEADER
           (p\<lparr>mp_req := ?req, mp_header_remain := 0, mp_rpc_remain := RPCHeaderLength ?req\<rparr>) s')"
    using split_length [OF u False n] p(1,2,3) by (auto simp: Let_def)
  have tn: "take ?n data = take ?n (drop k (length_bytes hdr body))"
    by (rule take_window [OF d]) (use p(2) in auto)
  have w: "rq_length_header ?req = take k (length_bytes hdr body) @ take ?n data @ drop (k + ?n) ?lh"
    using p(1,2,4) L by (simp add: write_at_def min_def of_nat_diff)
  have wk: "take (k + ?n) (rq_length_header ?req) = take (k + ?n) (length_bytes hdr body)"
  proof -
    have "rq_length_header ?req = take (k + ?n) (length_bytes hdr body) @ drop (k + ?n) ?lh"
      using w tn by (simp add: take_add)
    moreover have "length (take (k + ?n) (length_bytes hdr body)) = k + ?n" using p(2) by simp
    ultimately show ?thesis by (metis append_eq_conv_conj)
  qed
  have wl: "length (rq_length_header ?req) = 8" unfolding w using L p(2,3) by simp
  have cs: "contents s' (rq_header_buf ?req) = []" "contents s' (rq_body_buf ?req) = []"
    using r(1) p(5,6) by (simp_all add: contents_same)
  have td: "tidy (rq_header_buf ?req)" "tidy (rq_body_buf ?req)" using p(7,8) by simp_all
  show ?thesis
  proof (cases "mp_header_remain p > int ?n")
    case True
    then have nl: "?n = length data" "k + length data < 8" using p(1,2) by auto
    have "follows hdr body (k + length data) M_HEADER
        (p\<lparr>mp_req := ?req, mp_header_remain := mp_header_remain p - int ?n\<rparr>) s'"
      using nl wk wl cs td p(1,2) by (simp add: follows_def of_nat_diff del: min_less_iff_disj)
    then show ?thesis using True r(1,3) nl by (simp add: outcome_None)
  next
    case False
    then have nR: "?n = 8 - k" "8 - k \<le> length data" using p(1) by auto
    let ?p = "p\<lparr>mp_req := ?req, mp_header_remain := 0, mp_rpc_remain := RPCHeaderLength ?req\<rparr>"
    have lh: "rq_length_header ?req = length_bytes hdr body" using wk wl nR p(2) L by simp
    have hl: "RPCHeaderLength ?req = int (length hdr)" by (rule lengths_of(1) [OF f lh])
    have fo': "follows hdr body 8 M_RPC_HEADER ?p s'"
      using lh wl cs td hl by (simp add: follows_def)
    have d': "drop ?n data = take (length (drop ?n data)) (drop (8 - 8) (hdr @ body))"
    proof -
      have "drop (k + ?n) (length_bytes hdr body @ hdr @ body) = drop (8 - 8) (hdr @ body)" using nR p(2) by simp
      then show ?thesis using drop_window [OF d, of ?n] by argo
    qed
    have "outcome hdr body (8 + length (drop ?n data)) b s'
        (SplitMessage b (int (length (drop ?n data))) M_RPC_HEADER ?p s')"
      by (rule header_phase [OF f fo' r(2) d']) (use le nR p(2) in simp)
    moreover have "8 + length (drop ?n data) = k + length data" using nR p(2) by simp
    moreover have "SplitMessage b (int (length data)) M_HEADER p s = SplitMessage b (int (length (drop ?n data))) M_RPC_HEADER ?p s'"
      unfolding r(3) using False by (rule if_not_P)
    ultimately show ?thesis using outcome_untouched [OF r(1)] by metis
  qed
qed

lemma message_phase:
  assumes f: "fits hdr body" and fo: "follows hdr body k ty p s" and u: "unread s b data"
    and d: "data = take (length data) (drop k (length_bytes hdr body @ hdr @ body))"
    and le: "k + length data \<le> 8 + length hdr + length body"
  shows "outcome hdr body (k + length data) b s (SplitMessage b (int (length data)) ty p s)"
proof (cases ty)
  case M_MAGIC
  then show ?thesis using fo by (simp add: follows_def)
next
  case M_HEADER
  then show ?thesis using length_phase [OF f _ u d le] fo by simp
next
  case M_RPC_HEADER
  then have "8 \<le> k" using fo by (simp add: follows_def)
  then have "drop k (length_bytes hdr body @ hdr @ body) = drop (k - 8) (hdr @ body)" by simp
  then have d': "data = take (length data) (drop (k - 8) (hdr @ body))" using d by argo
  show ?thesis using header_phase [OF f _ u d' le] fo M_RPC_HEADER by simp
next
  case M_RPC_CONTENT
  then have k: "8 + length hdr \<le> k" using fo by (simp add: follows_def)
  then have "drop k (length_bytes hdr body @ hdr @ body) = drop (k - 8 - length hdr) body" by simp
  then have d': "data = take (length data) (drop (k - 8 - length hdr) body)" using d by argo
  show ?thesis using content_phase [OF f _ u d' le] fo M_RPC_CONTENT by simp
qed

section \<open>Which buffers a request refers to\<close>

definition req_bufs :: "MRequest \<Rightarrow> buf_id set" where
  "req_bufs r = bg_buf ` (set (mr_list (rq_header_buf r)) \<union> set (mr_list (rq_body_buf r)))"

lemma req_bufs_new [simp]: "req_bufs MRequest_new = {}"
  by (simp add: req_bufs_def MRequest_new_def MReadBuf_new_def)

lemma bg_buf_new: "MBufferGuard_new b n s = Some g \<Longrightarrow> bg_buf g = b"
  by (auto simp: MBufferGuard_new_def)

lemma req_bufs_updates [simp]:
  "req_bufs (r\<lparr>rq_length_header := x\<rparr>) = req_bufs r"
  "req_bufs (r\<lparr>rq_header_buf := Append g (rq_header_buf r)\<rparr>) = insert (bg_buf g) (req_bufs r)"
  "req_bufs (r\<lparr>rq_body_buf := Append g (rq_body_buf r)\<rparr>) = insert (bg_buf g) (req_bufs r)"
  by (auto simp: req_bufs_def Append_def)

lemma split_bufs:
  assumes "SplitMessage b len ty p s = Some R"
  shows "req_bufs (mp_req p) \<subseteq> B \<Longrightarrow> b \<in> B \<Longrightarrow>
    (case R of (req, _, _, p', _) \<Rightarrow> req_bufs (mp_req p') \<subseteq> B \<and> (\<forall>r. req = Some r \<longrightarrow> req_bufs r \<subseteq> B))"
proof -
  let ?P = "\<lambda>b len ty p (s :: buf_store) (R :: MRequest option \<times> int \<times> parse_type \<times> MParser \<times> buf_store).
    \<forall>B. req_bufs (mp_req p) \<subseteq> B \<longrightarrow> b \<in> B \<longrightarrow>
    req_bufs (mp_req (fst (snd (snd (snd R))))) \<subseteq> B \<and> (\<forall>r. fst R = Some r \<longrightarrow> req_bufs r \<subseteq> B)"
  have "?P b len ty p s R"
    by (rule SplitMessage.raw_induct [where P = ?P, rotated, OF assms])
      (auto simp: Let_def parser_Reset_def bg_buf_new split: if_splits parse_type.splits Option.bind_splits, blast)
  then show "req_bufs (mp_req p) \<subseteq> B \<Longrightarrow> b \<in> B \<Longrightarrow> ?thesis" by (cases R) auto
qed

section \<open>Following one frame through parse\_connection\<close>

definition current_parser :: "int \<Rightarrow> MConnection \<Rightarrow> MParser" where
  "current_parser garbage conn = (case mc_parser conn of None \<Rightarrow> MParser_new garbage | Some p \<Rightarrow> p)"

definition conn_bufs :: "int \<Rightarrow> MConnection \<Rightarrow> buf_id set" where
  "conn_bufs garbage conn = req_bufs (mp_req (current_parser garbage conn))"

definition framed :: "byte list \<Rightarrow> byte list \<Rightarrow> byte list \<Rightarrow> byte list" where
  "framed magic hdr body = magic @ length_bytes hdr body @ hdr @ body"

text \<open>The connection after \<open>j\<close> bytes of its first frame.\<close>

definition conn_follows :: "int \<Rightarrow> byte list \<Rightarrow> byte list \<Rightarrow> nat \<Rightarrow> MConnection \<Rightarrow> buf_store \<Rightarrow> bool" where
  "conn_follows garbage hdr body j conn s \<longleftrightarrow>
     (if j < 4 then mc_parse_type conn = M_MAGIC \<and> mc_magic_remain conn = int (4 - j) \<and> mc_parser conn = None
      else mc_magic_remain conn = 0 \<and> follows hdr body (j - 4) (mc_parse_type conn) (current_parser garbage conn) s)"

definition finished :: "MConnection \<Rightarrow> bool" where
  "finished conn \<longleftrightarrow> mc_parse_type conn = M_MAGIC \<and> mc_magic_remain conn = 0 \<and>
     (\<exists>p. mc_parser conn = Some p \<and> mp_header_remain p = 8)"

definition progress :: "int \<Rightarrow> byte list \<Rightarrow> byte list \<Rightarrow> nat \<Rightarrow> buf_id \<Rightarrow> MConnection \<Rightarrow> buf_store \<Rightarrow>
    (MRequest list \<times> MConnection \<times> buf_store) option \<Rightarrow> bool" where
  "progress garbage hdr body j b conn s R \<longleftrightarrow> (\<exists>reqs conn' s'. R = Some (reqs, conn', s') \<and> untouched b s s' \<and>
     conn_bufs garbage conn' \<subseteq> insert b (conn_bufs garbage conn) \<and>
     (if j < 12 + length hdr + length body then reqs = [] \<and> conn_follows garbage hdr body j conn' s'
      else \<exists>r. reqs = [r] \<and> complete hdr body r s' \<and> finished conn'))"

lemma progress_untouched:
  "untouched b s s' \<Longrightarrow> conn_bufs garbage conn = conn_bufs garbage conn' \<Longrightarrow>
   progress garbage hdr body j b conn s' R \<Longrightarrow> progress garbage hdr body j b conn' s R"
  by (auto simp: progress_def split del: if_split intro: untouched_trans)

lemma parse_end [simp]: "parse_connection garbage b 0 conn s = Some ([], conn, s)"
  by (subst parse_connection.simps) simp

lemma current_parser_simps [simp]:
  "current_parser garbage (conn\<lparr>mc_parser := Some p\<rparr>) = p"
  "current_parser garbage (conn\<lparr>mc_magic := m\<rparr>) = current_parser garbage conn"
  "current_parser garbage (conn\<lparr>mc_magic_remain := n\<rparr>) = current_parser garbage conn"
  "current_parser garbage (conn\<lparr>mc_parse_type := ty\<rparr>) = current_parser garbage conn"
  by (simp_all add: current_parser_def)

lemma progress_message:
  assumes f: "fits hdr body" and cf: "conn_follows garbage hdr body j conn s" "4 \<le> j" and u: "unread s b data"
    and d: "data = take (length data) (drop j (framed magic hdr body))" and m: "length magic = 4"
    and le: "j + length data \<le> 12 + length hdr + length body" and lt: "j < 12 + length hdr + length body"
  shows "progress garbage hdr body (j + length data) b conn s (parse_connection garbage b (int (length data)) conn s)"
proof (cases "data = []")
  case True
  then show ?thesis using cf lt by (auto simp: progress_def)
next
  case False
  let ?p = "current_parser garbage conn" and ?ty = "mc_parse_type conn"
  have fo: "follows hdr body (j - 4) ?ty ?p s" and mr: "mc_magic_remain conn = 0"
    using cf by (simp_all add: conn_follows_def)
  have "drop j (framed magic hdr body) = drop (j - 4) (length_bytes hdr body @ hdr @ body)"
    using m cf(2) by (simp add: framed_def)
  then have d': "data = take (length data) (drop (j - 4) (length_bytes hdr body @ hdr @ body))" using d by argo
  have "outcome hdr body (j - 4 + length data) b s (SplitMessage b (int (length data)) ?ty ?p s)"
    by (rule message_phase [OF f fo u d']) (use le cf(2) in simp)
  then obtain req ty p s' where o: "SplitMessage b (int (length data)) ?ty ?p s = Some (req, 0, ty, p, s')"
      "untouched b s s'"
      "if j - 4 + length data < 8 + length hdr + length body then req = None \<and> follows hdr body (j - 4 + length data) ty p s'
       else \<exists>r. req = Some r \<and> complete hdr body r s' \<and> ty = M_MAGIC \<and> mp_header_remain p = 8"
    by (auto simp: outcome_def split del: if_split)
  have ty: "?ty \<noteq> M_MAGIC" using fo by (auto simp: follows_def)
  let ?conn = "conn\<lparr>mc_parser := Some p, mc_parse_type := ty\<rparr>"
  have R: "parse_connection garbage b (int (length data)) conn s =
      Some (case req of None \<Rightarrow> [] | Some r \<Rightarrow> [r], ?conn, s')"
    using False ty o(1)
    by (subst parse_connection.simps) (cases ?ty; cases req; simp add: current_parser_def)
  have B: "conn_bufs garbage ?conn \<subseteq> insert b (conn_bufs garbage conn)"
    using split_bufs [OF o(1), of "insert b (conn_bufs garbage conn)"] by (simp add: conn_bufs_def subset_insertI)
  have e: "j - 4 + length data = j + length data - 4" "j - 4 + length data < 8 + length hdr + length body \<longleftrightarrow>
      j + length data < 12 + length hdr + length body" using cf(2) by auto
  show ?thesis
  proof (cases "j + length data < 12 + length hdr + length body")
    case True
    then show ?thesis using R o(2,3) B mr cf(2) unfolding e by (auto simp: progress_def conn_follows_def)
  next
    case False
    then obtain r where "req = Some r" "complete hdr body r s'" "ty = M_MAGIC" "mp_header_remain p = 8"
      using o(3) e(2) by auto
    then show ?thesis using R o(2) B mr False by (auto simp: progress_def finished_def)
  qed
qed

lemma progress_magic:
  assumes f: "fits hdr body" and cf: "conn_follows garbage hdr body j conn s" "j < 4" and u: "unread s b data"
    and d: "data = take (length data) (drop j (framed magic hdr body))" and m: "length magic = 4"
    and le: "j + length data \<le> 12 + length hdr + length body"
  shows "progress garbage hdr body (j + length data) b conn s (parse_connection garbage b (int (length data)) conn s)"
proof (cases "data = []")
  case True
  then show ?thesis using cf by (auto simp: progress_def)
next
  case False
  let ?n = "min (4 - j) (length data)"
  have c: "mc_parse_type conn = M_MAGIC" "mc_magic_remain conn = int (4 - j)" "mc_parser conn = None"
    using cf by (simp_all add: conn_follows_def)
  have n: "?n \<le> length data" "min (int (4 - j)) (int (length data)) = int ?n" by simp_all
  obtain s' where s': "consume_buf b (int ?n) s = Some s'" "unread s' b (drop ?n data)" "untouched b s s'"
    using unread_consume [OF u n(1)] by blast
  define mg where "mg = write_at (4 - int (4 - j)) (take ?n data) (mc_magic conn)"
  let ?conn = "conn\<lparr>mc_magic := mg, mc_magic_remain := int (4 - j) - int ?n\<rparr>"
  have R: "parse_connection garbage b (int (length data)) conn s =
      (if int (4 - j) - int ?n > 0 then parse_connection garbage b (int (length data) - int ?n) ?conn s'
       else parse_connection garbage b (int (length data) - int ?n) (?conn\<lparr>mc_parse_type := M_HEADER\<rparr>) s')"
    using False c n(2) s'(1) unread_copy [OF u n(1)]
    by (subst parse_connection.simps) (simp add: Let_def mg_def del: min_less_iff_disj of_nat_min)
  show ?thesis
  proof (cases "length data < 4 - j")
    case True
    then have nl: "?n = length data" by simp
    have "parse_connection garbage b (int (length data)) conn s = Some ([], ?conn, s')"
      using R True unfolding nl by simp
    then show ?thesis using s'(3) c True unfolding nl
      by (auto simp: progress_def conn_follows_def conn_bufs_def of_nat_diff)
  next
    case False
    then have nl: "?n = 4 - j" by simp
    let ?conn' = "?conn\<lparr>mc_parse_type := M_HEADER\<rparr>"
    have eq: "parse_connection garbage b (int (length data)) conn s =
        parse_connection garbage b (int (length (drop ?n data))) ?conn' s'"
      using R False unfolding nl by (simp add: of_nat_diff)
    have cf': "conn_follows garbage hdr body 4 ?conn' s'"
      using c nl by (simp add: conn_follows_def follows_def current_parser_def MParser_new_def MRequest_new_def
        sizeof_length_header_def)
    have "drop ?n data = take (length (drop ?n data)) (drop (j + ?n) (framed magic hdr body))"
      by (rule drop_window [OF d])
    moreover have "j + ?n = 4" using nl cf(2) by simp
    ultimately have d': "drop ?n data = take (length (drop ?n data)) (drop 4 (framed magic hdr body))" by argo
    have out: "progress garbage hdr body (4 + length (drop ?n data)) b ?conn' s'
        (parse_connection garbage b (int (length (drop ?n data))) ?conn' s')"
      by (rule progress_message [OF f cf' _ s'(2) d' m]) (use le nl cf(2) False in auto)
    have len: "4 + length (drop ?n data) = j + length data" using nl False cf(2) by simp
    have bufs: "conn_bufs garbage ?conn' = conn_bufs garbage conn" by (simp add: conn_bufs_def)
    show ?thesis unfolding eq by (rule progress_untouched [OF s'(3) bufs out [unfolded len]])
  qed
qed

section \<open>Chunks into fresh buffers\<close>

text \<open>Several calls of \<open>recv\<close>, each into a buffer of its own, as \<open>recv_run\<close> makes them.\<close>

fun receive_all :: "int \<Rightarrow> (buf_id \<times> byte list) list \<Rightarrow> MConnection \<Rightarrow> buf_store \<Rightarrow>
    (MRequest list \<times> MConnection \<times> buf_store) option" where
  "receive_all garbage [] conn s = Some ([], conn, s)"
| "receive_all garbage ((b, d) # cs) conn s = do {
     (rs, conn, s) \<leftarrow> receive garbage b d conn s;
     (rs', conn, s) \<leftarrow> receive_all garbage cs conn s;
     Some (rs @ rs', conn, s) }"

definition fresh_for :: "buf_store \<Rightarrow> buf_id \<times> byte list \<Rightarrow> bool" where
  "fresh_for s c \<longleftrightarrow> (case bs_bufs s (fst c) of None \<Rightarrow> False
     | Some m \<Rightarrow> Buf m = 0 \<and> length (snd c) \<le> length (mb_bytes m))"

lemma deliver_fresh:
  assumes "fresh_for s (b, d)"
  shows "\<exists>s'. deliver b d s = Some s' \<and> unread s' b d \<and> (\<forall>x. x \<noteq> b \<longrightarrow> bs_bufs s' x = bs_bufs s x) \<and>
    bs_pool1024 s' = bs_pool1024 s"
  using assms by (auto simp: fresh_for_def deliver_def unread_def write_at_def Buf_def split: option.splits)

lemma contents_other:
  assumes "\<forall>x. x \<noteq> b \<longrightarrow> bs_bufs s' x = bs_bufs s x" "b \<notin> bg_buf ` set (mr_list r)"
  shows "contents s' r = contents s r"
proof -
  have "guard_bytes s' 0 g = guard_bytes s 0 g" if "g \<in> set (mr_list r)" for g
  proof -
    have "bg_buf g \<noteq> b" using assms(2) that by auto
    then show ?thesis using assms(1) by (simp add: guard_bytes_def window_def)
  qed
  then show ?thesis by (simp add: contents_def cong: map_cong)
qed

lemma conn_follows_other:
  assumes "\<forall>x. x \<noteq> b \<longrightarrow> bs_bufs s' x = bs_bufs s x" "b \<notin> conn_bufs garbage conn"
    and "conn_follows garbage hdr body j conn s"
  shows "conn_follows garbage hdr body j conn s'"
proof -
  let ?q = "mp_req (current_parser garbage conn)"
  have "contents s' (rq_header_buf ?q) = contents s (rq_header_buf ?q)"
    "contents s' (rq_body_buf ?q) = contents s (rq_body_buf ?q)"
    using assms(2) by (auto intro!: contents_other [OF assms(1)] simp: conn_bufs_def req_bufs_def)
  then have "follows hdr body (j - 4) ty (current_parser garbage conn) s' =
      follows hdr body (j - 4) ty (current_parser garbage conn) s" for ty
    by (cases ty) (simp_all add: follows_def)
  then show ?thesis using assms(3) by (simp add: conn_follows_def)
qed

lemma receive_progress:
  assumes f: "fits hdr body" and m: "length magic = 4" and cf: "conn_follows garbage hdr body j conn s"
    and fr: "fresh_for s (b, d)" and nb: "b \<notin> conn_bufs garbage conn"
    and d: "d @ rest = drop j (framed magic hdr body)" and lt: "j < 12 + length hdr + length body"
  shows "\<exists>reqs conn' s'. receive garbage b d conn s = Some (reqs, conn', s') \<and>
    (\<forall>x. x \<noteq> b \<longrightarrow> bs_bufs s' x = bs_bufs s x) \<and> bs_pool1024 s' = bs_pool1024 s \<and>
    conn_bufs garbage conn' \<subseteq> insert b (conn_bufs garbage conn) \<and>
    (if j + length d < 12 + length hdr + length body then reqs = [] \<and> conn_follows garbage hdr body (j + length d) conn' s'
     else \<exists>r. reqs = [r] \<and> complete hdr body r s' \<and> finished conn')"
proof -
  obtain s1 where s1: "deliver b d s = Some s1" "unread s1 b d" "\<forall>x. x \<noteq> b \<longrightarrow> bs_bufs s1 x = bs_bufs s x"
      "bs_pool1024 s1 = bs_pool1024 s"
    using deliver_fresh [OF fr] by blast
  have cf1: "conn_follows garbage hdr body j conn s1" by (rule conn_follows_other [OF s1(3) nb cf])
  have d1: "d = take (length d) (drop j (framed magic hdr body))" using d by (metis append_eq_conv_conj)
  have "length (d @ rest) = 12 + length hdr + length body - j" unfolding d using m by (simp add: framed_def)
  then have le: "j + length d \<le> 12 + length hdr + length body" using lt by simp
  have "progress garbage hdr body (j + length d) b conn s1 (parse_connection garbage b (int (length d)) conn s1)"
  proof (cases "j < 4")
    case True
    show ?thesis by (rule progress_magic [OF f cf1 True s1(2) d1 m le])
  next
    case False
    then show ?thesis by (intro progress_message [OF f cf1 _ s1(2) d1 m le lt]) simp
  qed
  then show ?thesis
    using s1(1,3,4) by (auto simp: progress_def receive_def untouched_def same_bytes_def split del: if_split)
qed

lemma receive_all_frame:
  assumes "fits hdr body" "length magic = 4" "conn_follows garbage hdr body j conn s"
    and "distinct (map fst cs)" "\<forall>c\<in>set cs. fresh_for s c \<and> snd c \<noteq> [] \<and> fst c \<notin> conn_bufs garbage conn"
    and "concat (map snd cs) = drop j (framed magic hdr body)" "j < 12 + length hdr + length body"
  shows "\<exists>r conn' s'. receive_all garbage cs conn s = Some ([r], conn', s') \<and> complete hdr body r s' \<and> finished conn'"
  using assms
proof (induction cs arbitrary: j conn s)
  case Nil
  then have "length (drop j (framed magic hdr body)) = 0" by simp
  then show ?case using Nil.prems by (simp add: framed_def)
next
  case (Cons c cs)
  obtain b d where c: "c = (b, d)" by (cases c)
  have d: "d @ concat (map snd cs) = drop j (framed magic hdr body)" using Cons.prems(6) c by simp
  have b: "fresh_for s (b, d)" "b \<notin> conn_bufs garbage conn" using Cons.prems(5) c by auto
  obtain reqs conn' s' where r: "receive garbage b d conn s = Some (reqs, conn', s')"
      "\<forall>x. x \<noteq> b \<longrightarrow> bs_bufs s' x = bs_bufs s x" "conn_bufs garbage conn' \<subseteq> insert b (conn_bufs garbage conn)"
      "if j + length d < 12 + length hdr + length body then reqs = [] \<and> conn_follows garbage hdr body (j + length d) conn' s'
       else \<exists>r. reqs = [r] \<and> complete hdr body r s' \<and> finished conn'"
    using receive_progress [OF Cons.prems(1,2,3) b d Cons.prems(7)] by (elim exE conjE) blast
  have d': "concat (map snd cs) = drop (j + length d) (framed magic hdr body)"
    using arg_cong [OF d, of "drop (length d)"] by (simp add: add.commute)
  show ?case
  proof (cases "j + length d < 12 + length hdr + length body")
    case True
    have "\<forall>c\<in>set cs. fresh_for s' c \<and> snd c \<noteq> [] \<and> fst c \<notin> conn_bufs garbage conn'"
    proof
      fix x assume x: "x \<in> set cs"
      then have ne: "fst x \<noteq> b" using Cons.prems(4) c by auto
      moreover have "fresh_for s x" "snd x \<noteq> []" "fst x \<notin> conn_bufs garbage conn" using Cons.prems(5) x by auto
      ultimately show "fresh_for s' x \<and> snd x \<noteq> [] \<and> fst x \<notin> conn_bufs garbage conn'"
        using r(2,3) by (auto simp: fresh_for_def)
    qed
    then obtain r conn2 s2 where "receive_all garbage cs conn' s' = Some ([r], conn2, s2)"
        "complete hdr body r s2" "finished conn2"
      using Cons.IH [OF Cons.prems(1,2), of "j + length d" conn' s'] r(4) True d' Cons.prems(4) by auto
    then show ?thesis using r(1,4) True c by simp
  next
    case False
    then have "concat (map snd cs) = []" unfolding d' using Cons.prems(2) by (simp add: framed_def)
    moreover have "\<forall>x\<in>set cs. snd x \<noteq> []" using Cons.prems(5) by simp
    ultimately have "cs = []" by (cases cs) auto
    then show ?thesis using r(1,4) False c by auto
  qed
qed

section \<open>Properties\<close>

lemma new_conn_follows: "conn_follows garbage hdr body 0 (MConnection_new fd ip port) s"
  by (simp add: conn_follows_def MConnection_new_def)

lemma new_conn_bufs [simp]: "conn_bufs garbage (MConnection_new fd ip port) = {}"
  by (simp add: conn_bufs_def MConnection_new_def current_parser_def MParser_new_def)

text \<open>
  C2: However the network cuts a frame into chunks, if each chunk is received into a fresh buffer of
  its own, a new connection hands over exactly one request, at the last byte, whose header and body
  streams hold exactly the bytes that were sent. The four magic bytes are never compared with anything:
  the statement holds for any magic. The body must not be empty and both lengths must fit an
  \<open>int\<close>.
\<close>

theorem rpc_frame_roundtrip:
  assumes "fits hdr body" "length magic = 4"
    and "distinct (map fst cs)" "\<forall>c\<in>set cs. fresh_for s c \<and> snd c \<noteq> []"
    and "concat (map snd cs) = magic @ length_bytes hdr body @ hdr @ body"
  shows "\<exists>r conn' s'. receive_all garbage cs (MConnection_new fd ip port) s = Some ([r], conn', s') \<and>
    contents s' (rq_header_buf r) = hdr \<and> contents s' (rq_body_buf r) = body \<and>
    RPCHeaderLength r = int (length hdr) \<and> RPCBodyLength r = int (length body) \<and>
    mc_parse_type conn' = M_MAGIC \<and> mc_magic_remain conn' = 0"
proof -
  have "concat (map snd cs) = drop 0 (framed magic hdr body)" using assms(5) by (simp add: framed_def)
  moreover have "0 < 12 + length hdr + length body" by simp
  ultimately obtain r conn' s' where "receive_all garbage cs (MConnection_new fd ip port) s = Some ([r], conn', s')"
      "complete hdr body r s'" "finished conn'"
    using receive_all_frame [OF assms(1,2) new_conn_follows assms(3)] assms(4) by simp blast
  then show ?thesis by (auto simp: complete_def finished_def)
qed

definition two_buffers :: buf_store where
  "two_buffers = \<lparr>bs_bufs = [0 \<mapsto> MBuffer_new 16, 1 \<mapsto> MBuffer_new 16], bs_pool1024 = []\<rparr>"

theorem rpc_frame_roundtrip_witness:
  "\<exists>r conn' s'. receive_all 0 [(0, take 6 (frame [7, 8] [9])), (1, drop 6 (frame [7, 8] [9]))]
     (MConnection_new 5 [] 80) two_buffers = Some ([r], conn', s') \<and>
    contents s' (rq_header_buf r) = [7, 8] \<and> contents s' (rq_body_buf r) = [9] \<and>
    RPCHeaderLength r = 2 \<and> RPCBodyLength r = 1 \<and> mc_parse_type conn' = M_MAGIC \<and> mc_magic_remain conn' = 0"
  using rpc_frame_roundtrip [of "[7, 8]" "[9]" MAGIC
      "[(0, take 6 (frame [7, 8] [9])), (1, drop 6 (frame [7, 8] [9]))]" two_buffers 0 5 "[]" 80]
  by (simp add: fits_def fresh_for_def two_buffers_def MBuffer_new_def Buf_def frame_def length_bytes_def MAGIC_def)

text \<open>
  C36: The counter \<open>_magic_remain\<close> is never set back, so the second frame of a connection is not
  recognised: its magic is read as the header length 0x676e6570, no request is handed over and the
  connection goes on waiting for 1,735,288,172 bytes minus what the frame carried.
\<close>

theorem rpc_second_frame_lost:
  assumes "mc_parse_type conn = M_MAGIC" "mc_magic_remain conn = 0" "mc_parser conn = Some p"
    and "mp_header_remain p = 8" "length (rq_length_header (mp_req p)) = 8"
    and "fresh_for s (b, frame hdr body)" "length hdr + length body < 1735288172" 
  shows "\<exists>conn' p' s'. receive garbage b (frame hdr body) conn s = Some ([], conn', s') \<and>
    mc_parse_type conn' = M_RPC_HEADER \<and> mc_parser conn' = Some p' \<and>
    mp_rpc_remain p' = 1735288172 - int (length hdr + length body)"
proof -
  let ?d = "frame hdr body"
  obtain s0 where s0: "deliver b ?d s = Some s0" "unread s0 b ?d"
    using deliver_fresh [OF assms(6)] by blast
  obtain s1 where s1: "consume_buf b 0 s0 = Some s1" "unread s1 b ?d"
    using unread_consume [OF s0(2), of 0] by auto
  have ne: "?d \<noteq> []" by (simp add: frame_def MAGIC_def)
  have l: "length ?d = 12 + length hdr + length body" by (simp add: frame_def MAGIC_def)
  have n8: "8 = min (nat (mp_header_remain p)) (length ?d)" using assms(4) l by simp
  have w: "write_at 0 (take 8 ?d) (rq_length_header (mp_req p)) = take 8 ?d"
    using assms(5) l by (simp add: write_at_def)
  let ?p = "p\<lparr>mp_req := (mp_req p)\<lparr>rq_length_header := take 8 ?d\<rparr>, mp_header_remain := 0, mp_rpc_remain := 1735288176\<rparr>"
  have hl: "RPCHeaderLength ((mp_req p)\<lparr>rq_length_header := take 8 ?d\<rparr>) = 1735288176"
    by (simp add: RPCHeaderLength_def frame_def MAGIC_def le32_def)
  obtain s2 where s2: "unread s2 b (drop 8 ?d)"
      "SplitMessage b (int (length ?d)) M_HEADER p s1 = SplitMessage b (int (length (drop 8 ?d))) M_RPC_HEADER ?p s2"
    using split_length [OF s1(2) ne n8] assms(4,5) by (auto simp: w hl Let_def)
  have nd: "length (drop 8 ?d) = min (nat (mp_rpc_remain ?p)) (length (drop 8 ?d))" using l assms(7) by simp
  have "drop 8 ?d \<noteq> []" using l by auto
  then obtain req s3 where s3: "SplitMessage b (int (length (drop 8 ?d))) M_RPC_HEADER ?p s2 = Some (None, 0, M_RPC_HEADER,
      ?p\<lparr>mp_req := req, mp_rpc_remain := mp_rpc_remain ?p - int (length (drop 8 ?d))\<rparr>, s3)"
    using split_header [OF s2(1) _ nd] l assms(7) by auto
  let ?conn = "conn\<lparr>mc_magic := write_at 4 [] (mc_magic conn), mc_magic_remain := 0, mc_parse_type := M_HEADER\<rparr>"
  have "receive garbage b ?d conn s = parse_connection garbage b (int (length ?d)) ?conn s1"
    using s0(1) s1(1) unread_copy [OF s0(2), of 0] assms(1,2) ne
    by (simp add: receive_def parse_connection.simps [of garbage b "int (length ?d)" conn])
  moreover have "parse_connection garbage b (int (length ?d)) ?conn s1 = Some ([], ?conn\<lparr>mc_parse_type := M_RPC_HEADER,
      mc_parser := Some (?p\<lparr>mp_req := req, mp_rpc_remain := mp_rpc_remain ?p - int (length (drop 8 ?d))\<rparr>)\<rparr>, s3)"
    using s2(2) s3 assms(3) ne by (subst parse_connection.simps) simp
  ultimately show ?thesis using l by simp
qed

theorem rpc_second_frame_lost_witness:
  "\<exists>conn' p' s'. receive 0 1 (frame [7, 8] [9]) ((MConnection_new 5 [] 80)\<lparr>mc_magic_remain := 0,
      mc_parser := Some (MParser_new 0)\<rparr>) two_buffers = Some ([], conn', s') \<and>
    mc_parse_type conn' = M_RPC_HEADER \<and> mc_parser conn' = Some p' \<and> mp_rpc_remain p' = 1735288169"
  using rpc_second_frame_lost [of "(MConnection_new 5 [] 80)\<lparr>mc_magic_remain := 0, mc_parser := Some (MParser_new 0)\<rparr>"
      "MParser_new 0" two_buffers 1 "[7, 8]" "[9]" 0]
  by (simp add: fresh_for_def two_buffers_def MBuffer_new_def Buf_def frame_def MAGIC_def MConnection_new_def
    MParser_new_def MRequest_new_def sizeof_length_header_def)

end
