(* ===== verification/Rpc_Message.thy ===== *)
theory Rpc_Message
  imports Zero_Copy
begin

text \<open>
  The message classes of the RPC protocol (\<^verbatim>\<open>gencode/mg_server/server/rpc.pb.cpp\<close>): \<open>RpcHeader\<close>, \<open>HelloReq\<close>
  and \<open>HelloRes\<close>, with their presence bits, parser, serialiser and size computation. The protobuf runtime
  they call is not part of the repository; it is the parameter \<open>rt\<close>, a record of its functions, and the
  locale \<open>protobuf_runtime\<close> states the documented behaviour the classes rely on. A pointer that may be
  null is an option; an outer \<^term>\<open>None\<close> is a null pointer handed to the runtime or a loop without end.
\<close>

unbundle bit_operations_syntax

section \<open>The runtime\<close>

record 'u pb_runtime =
  ReadTag :: "byte list \<Rightarrow> 32 word \<times> byte list option"
  ReadVarint64 :: "byte list \<Rightarrow> 64 word \<times> byte list option"
  InlineGreedyStringParser :: "byte list \<Rightarrow> byte list \<Rightarrow> byte list \<times> byte list option"
  VerifyUTF8 :: "byte list \<Rightarrow> bool"
  UnknownFieldParse :: "32 word \<Rightarrow> 'u \<Rightarrow> byte list \<Rightarrow> 'u \<times> byte list option"
  WriteEnumToArray :: "nat \<Rightarrow> int \<Rightarrow> byte list"
  WriteString :: "nat \<Rightarrow> byte list \<Rightarrow> byte list"
  EnumSize :: "int \<Rightarrow> nat"
  StringSize :: "byte list \<Rightarrow> nat"
  no_unknown_fields :: 'u
  have_unknown_fields :: "'u \<Rightarrow> bool"
  merge_unknown_fields :: "'u \<Rightarrow> 'u \<Rightarrow> 'u"
  write_unknown_fields :: "'u \<Rightarrow> byte list"
  unknown_fields_size :: "'u \<Rightarrow> nat"

section \<open>RpcHeader\<close>

definition RpcType_IsValid :: "int \<Rightarrow> bool" where
  "RpcType_IsValid value \<longleftrightarrow> value = 0 \<or> value = 1 \<or> value = 2"

definition RPC_TYPE_RPC_REQUEST :: int where
  "RPC_TYPE_RPC_REQUEST = 1"

definition RPC_TYPE_RPC_RESPONSE :: int where
  "RPC_TYPE_RPC_RESPONSE = 2"

record 'u RpcHeader =
  rh_has_bits :: "32 word"
  rh_func :: "byte list"
  rh_timeout :: "byte list"
  rh_type :: int
  rh_unknown :: 'u

definition RpcHeader_SharedCtor :: "'u pb_runtime \<Rightarrow> 'u RpcHeader" where
  "RpcHeader_SharedCtor rt = \<lparr>rh_has_bits = 0, rh_func = [], rh_timeout = [], rh_type = 0,
     rh_unknown = no_unknown_fields rt\<rparr>"

definition has_type :: "'u RpcHeader \<Rightarrow> bool" where
  "has_type m \<longleftrightarrow> rh_has_bits m AND 4 \<noteq> 0"

definition has_func :: "'u RpcHeader \<Rightarrow> bool" where
  "has_func m \<longleftrightarrow> rh_has_bits m AND 1 \<noteq> 0"

definition has_timeout :: "'u RpcHeader \<Rightarrow> bool" where
  "has_timeout m \<longleftrightarrow> rh_has_bits m AND 2 \<noteq> 0"

definition set_type :: "int \<Rightarrow> 'u RpcHeader \<Rightarrow> 'u RpcHeader" where
  "set_type v m = m\<lparr>rh_has_bits := rh_has_bits m OR 4, rh_type := v\<rparr>"

definition set_func :: "byte list \<Rightarrow> 'u RpcHeader \<Rightarrow> 'u RpcHeader" where
  "set_func v m = m\<lparr>rh_has_bits := rh_has_bits m OR 1, rh_func := v\<rparr>"

definition set_timeout :: "byte list \<Rightarrow> 'u RpcHeader \<Rightarrow> 'u RpcHeader" where
  "set_timeout v m = m\<lparr>rh_has_bits := rh_has_bits m OR 2, rh_timeout := v\<rparr>"

definition RpcHeader_copy :: "'u pb_runtime \<Rightarrow> 'u RpcHeader \<Rightarrow> 'u RpcHeader" where
  "RpcHeader_copy rt from = \<lparr>rh_has_bits = rh_has_bits from,
     rh_func = (if has_func from then rh_func from else []),
     rh_timeout = (if has_timeout from then rh_timeout from else []),
     rh_type = rh_type from, rh_unknown = merge_unknown_fields rt (no_unknown_fields rt) (rh_unknown from)\<rparr>"

definition RpcHeader_Clear :: "'u pb_runtime \<Rightarrow> 'u RpcHeader \<Rightarrow> 'u RpcHeader" where
  "RpcHeader_Clear rt m = (let cached_has_bits = rh_has_bits m;
     m = (if cached_has_bits AND 3 \<noteq> 0 then
            (let m = (if cached_has_bits AND 1 \<noteq> 0 then m\<lparr>rh_func := []\<rparr> else m)
             in if cached_has_bits AND 2 \<noteq> 0 then m\<lparr>rh_timeout := []\<rparr> else m)
          else m)
     in m\<lparr>rh_type := 0, rh_has_bits := 0, rh_unknown := no_unknown_fields rt\<rparr>)"

text \<open>The conversion of a 64 bit value to the enumeration's \<open>int\<close>.\<close>

definition enum_of :: "64 word \<Rightarrow> int" where
  "enum_of val = sint (ucast val :: 32 word)"

text \<open>
  The result is the message and the returned pointer with the context's last tag. The branches after
  \<open>handle_unusual\<close> are shared by every tag that no field claims.
\<close>

partial_function (option) RpcHeader_InternalParse ::
  "'u pb_runtime \<Rightarrow> byte list \<Rightarrow> 'u RpcHeader \<Rightarrow> ('u RpcHeader \<times> (byte list \<times> 32 word) option) option" where
  "RpcHeader_InternalParse rt ptr m = (if ptr = [] then Some (m, Some ([], 0)) else
     (case ReadTag rt ptr of (tag, ptr) \<Rightarrow>
       if drop_bit 3 tag = 1 \<and> (ucast tag :: 8 word) = 8 then
         (case ptr of None \<Rightarrow> None | Some ptr \<Rightarrow>
           (case ReadVarint64 rt ptr of (val, ptr) \<Rightarrow>
             (case ptr of None \<Rightarrow> Some (m, None)
              | Some ptr \<Rightarrow> RpcHeader_InternalParse rt ptr (set_type (enum_of val) m))))
       else if drop_bit 3 tag = 2 \<and> (ucast tag :: 8 word) = 18 then
         (case ptr of None \<Rightarrow> None | Some ptr \<Rightarrow>
           (case InlineGreedyStringParser rt (rh_func m) ptr of (str, ptr) \<Rightarrow>
             (case ptr of None \<Rightarrow> Some (set_func str m, None)
              | Some ptr \<Rightarrow> if VerifyUTF8 rt str then RpcHeader_InternalParse rt ptr (set_func str m)
                           else Some (set_func str m, None))))
       else if drop_bit 3 tag = 3 \<and> (ucast tag :: 8 word) = 26 then
         (case ptr of None \<Rightarrow> None | Some ptr \<Rightarrow>
           (case InlineGreedyStringParser rt (rh_timeout m) ptr of (str, ptr) \<Rightarrow>
             (case ptr of None \<Rightarrow> Some (set_timeout str m, None)
              | Some ptr \<Rightarrow> if VerifyUTF8 rt str then RpcHeader_InternalParse rt ptr (set_timeout str m)
                           else Some (set_timeout str m, None))))
       else if tag = 0 \<or> tag AND 7 = 4 then
         (case ptr of None \<Rightarrow> Some (m, None) | Some ptr \<Rightarrow> Some (m, Some (ptr, tag)))
       else
         (case ptr of None \<Rightarrow> None | Some ptr \<Rightarrow>
           (case UnknownFieldParse rt tag (rh_unknown m) ptr of (u, ptr) \<Rightarrow>
             (case ptr of None \<Rightarrow> Some (m\<lparr>rh_unknown := u\<rparr>, None)
              | Some ptr \<Rightarrow> RpcHeader_InternalParse rt ptr (m\<lparr>rh_unknown := u\<rparr>))))))"

definition RpcHeader_InternalSerialize :: "'u pb_runtime \<Rightarrow> 'u RpcHeader \<Rightarrow> byte list" where
  "RpcHeader_InternalSerialize rt m =
     (if has_type m then WriteEnumToArray rt 1 (rh_type m) else []) @
     (if has_func m then WriteString rt 2 (rh_func m) else []) @
     (if has_timeout m then WriteString rt 3 (rh_timeout m) else []) @
     (if have_unknown_fields rt (rh_unknown m) then write_unknown_fields rt (rh_unknown m) else [])"

definition RpcHeader_ByteSizeLong :: "'u pb_runtime \<Rightarrow> 'u RpcHeader \<Rightarrow> nat" where
  "RpcHeader_ByteSizeLong rt m = (let cached_has_bits = rh_has_bits m;
     total_size = (if cached_has_bits AND 7 \<noteq> 0 then
       (if cached_has_bits AND 1 \<noteq> 0 then 1 + StringSize rt (rh_func m) else 0) +
       (if cached_has_bits AND 2 \<noteq> 0 then 1 + StringSize rt (rh_timeout m) else 0) +
       (if cached_has_bits AND 4 \<noteq> 0 then 1 + EnumSize rt (rh_type m) else 0) else 0)
     in if have_unknown_fields rt (rh_unknown m) then total_size + unknown_fields_size rt (rh_unknown m)
        else total_size)"

definition RpcHeader_MergeFrom :: "'u pb_runtime \<Rightarrow> 'u RpcHeader \<Rightarrow> 'u RpcHeader \<Rightarrow> 'u RpcHeader" where
  "RpcHeader_MergeFrom rt from m = (let cached_has_bits = rh_has_bits from;
     m = (if cached_has_bits AND 7 \<noteq> 0 then
            (let m = (if cached_has_bits AND 1 \<noteq> 0 then set_func (rh_func from) m else m);
                 m = (if cached_has_bits AND 2 \<noteq> 0 then set_timeout (rh_timeout from) m else m);
                 m = (if cached_has_bits AND 4 \<noteq> 0 then m\<lparr>rh_type := rh_type from\<rparr> else m)
             in m\<lparr>rh_has_bits := rh_has_bits m OR cached_has_bits\<rparr>)
          else m)
     in m\<lparr>rh_unknown := merge_unknown_fields rt (rh_unknown m) (rh_unknown from)\<rparr>)"

text \<open>\<open>CopyFrom\<close> another message; copying a message onto itself returns at once.\<close>

definition RpcHeader_CopyFrom :: "'u pb_runtime \<Rightarrow> bool \<Rightarrow> 'u RpcHeader \<Rightarrow> 'u RpcHeader \<Rightarrow> 'u RpcHeader" where
  "RpcHeader_CopyFrom rt same from m = (if same then m else RpcHeader_MergeFrom rt from (RpcHeader_Clear rt m))"

definition RpcHeader_InternalSwap :: "'u RpcHeader \<Rightarrow> 'u RpcHeader \<Rightarrow> 'u RpcHeader \<times> 'u RpcHeader" where
  "RpcHeader_InternalSwap m other =
     (m\<lparr>rh_unknown := rh_unknown other, rh_has_bits := rh_has_bits other, rh_func := rh_func other,
        rh_timeout := rh_timeout other, rh_type := rh_type other\<rparr>,
      other\<lparr>rh_unknown := rh_unknown m, rh_has_bits := rh_has_bits m, rh_func := rh_func m,
        rh_timeout := rh_timeout m, rh_type := rh_type m\<rparr>)"

section \<open>HelloReq and HelloRes\<close>

text \<open>The two classes are the same up to their names; \<open>HelloRes\<close> is modelled by the same functions.\<close>

record 'u HelloReq =
  hq_has_bits :: "32 word"
  hq_name :: "byte list"
  hq_unknown :: 'u

definition HelloReq_SharedCtor :: "'u pb_runtime \<Rightarrow> 'u HelloReq" where
  "HelloReq_SharedCtor rt = \<lparr>hq_has_bits = 0, hq_name = [], hq_unknown = no_unknown_fields rt\<rparr>"

definition has_name :: "'u HelloReq \<Rightarrow> bool" where
  "has_name m \<longleftrightarrow> hq_has_bits m AND 1 \<noteq> 0"

definition set_name :: "byte list \<Rightarrow> 'u HelloReq \<Rightarrow> 'u HelloReq" where
  "set_name v m = m\<lparr>hq_has_bits := hq_has_bits m OR 1, hq_name := v\<rparr>"

definition HelloReq_copy :: "'u pb_runtime \<Rightarrow> 'u HelloReq \<Rightarrow> 'u HelloReq" where
  "HelloReq_copy rt from = \<lparr>hq_has_bits = hq_has_bits from,
     hq_name = (if has_name from then hq_name from else []),
     hq_unknown = merge_unknown_fields rt (no_unknown_fields rt) (hq_unknown from)\<rparr>"

definition HelloReq_Clear :: "'u pb_runtime \<Rightarrow> 'u HelloReq \<Rightarrow> 'u HelloReq" where
  "HelloReq_Clear rt m = (let m = (if hq_has_bits m AND 1 \<noteq> 0 then m\<lparr>hq_name := []\<rparr> else m)
     in m\<lparr>hq_has_bits := 0, hq_unknown := no_unknown_fields rt\<rparr>)"

partial_function (option) HelloReq_InternalParse ::
  "'u pb_runtime \<Rightarrow> byte list \<Rightarrow> 'u HelloReq \<Rightarrow> ('u HelloReq \<times> (byte list \<times> 32 word) option) option" where
  "HelloReq_InternalParse rt ptr m = (if ptr = [] then Some (m, Some ([], 0)) else
     (case ReadTag rt ptr of (tag, ptr) \<Rightarrow>
       if drop_bit 3 tag = 1 \<and> (ucast tag :: 8 word) = 10 then
         (case ptr of None \<Rightarrow> None | Some ptr \<Rightarrow>
           (case InlineGreedyStringParser rt (hq_name m) ptr of (str, ptr) \<Rightarrow>
             (case ptr of None \<Rightarrow> Some (set_name str m, None)
              | Some ptr \<Rightarrow> if VerifyUTF8 rt str then HelloReq_InternalParse rt ptr (set_name str m)
                           else Some (set_name str m, None))))
       else if tag = 0 \<or> tag AND 7 = 4 then
         (case ptr of None \<Rightarrow> Some (m, None) | Some ptr \<Rightarrow> Some (m, Some (ptr, tag)))
       else
         (case ptr of None \<Rightarrow> None | Some ptr \<Rightarrow>
           (case UnknownFieldParse rt tag (hq_unknown m) ptr of (u, ptr) \<Rightarrow>
             (case ptr of None \<Rightarrow> Some (m\<lparr>hq_unknown := u\<rparr>, None)
              | Some ptr \<Rightarrow> HelloReq_InternalParse rt ptr (m\<lparr>hq_unknown := u\<rparr>))))))"

definition HelloReq_InternalSerialize :: "'u pb_runtime \<Rightarrow> 'u HelloReq \<Rightarrow> byte list" where
  "HelloReq_InternalSerialize rt m =
     (if has_name m then WriteString rt 1 (hq_name m) else []) @
     (if have_unknown_fields rt (hq_unknown m) then write_unknown_fields rt (hq_unknown m) else [])"

definition HelloReq_ByteSizeLong :: "'u pb_runtime \<Rightarrow> 'u HelloReq \<Rightarrow> nat" where
  "HelloReq_ByteSizeLong rt m =
     (let total_size = (if hq_has_bits m AND 1 \<noteq> 0 then 1 + StringSize rt (hq_name m) else 0)
      in if have_unknown_fields rt (hq_unknown m) then total_size + unknown_fields_size rt (hq_unknown m)
         else total_size)"

definition HelloReq_MergeFrom :: "'u pb_runtime \<Rightarrow> 'u HelloReq \<Rightarrow> 'u HelloReq \<Rightarrow> 'u HelloReq" where
  "HelloReq_MergeFrom rt from m = (let m = (if has_name from then set_name (hq_name from) m else m)
     in m\<lparr>hq_unknown := merge_unknown_fields rt (hq_unknown m) (hq_unknown from)\<rparr>)"

definition HelloReq_CopyFrom :: "'u pb_runtime \<Rightarrow> bool \<Rightarrow> 'u HelloReq \<Rightarrow> 'u HelloReq \<Rightarrow> 'u HelloReq" where
  "HelloReq_CopyFrom rt same from m = (if same then m else HelloReq_MergeFrom rt from (HelloReq_Clear rt m))"

definition HelloReq_InternalSwap :: "'u HelloReq \<Rightarrow> 'u HelloReq \<Rightarrow> 'u HelloReq \<times> 'u HelloReq" where
  "HelloReq_InternalSwap m other =
     (m\<lparr>hq_unknown := hq_unknown other, hq_has_bits := hq_has_bits other, hq_name := hq_name other\<rparr>,
      other\<lparr>hq_unknown := hq_unknown m, hq_has_bits := hq_has_bits m, hq_name := hq_name m\<rparr>)"

type_synonym 'u HelloRes = "'u HelloReq"

definition HelloRes_SharedCtor :: "'u pb_runtime \<Rightarrow> 'u HelloRes" where
  "HelloRes_SharedCtor = HelloReq_SharedCtor"

definition HelloRes_copy :: "'u pb_runtime \<Rightarrow> 'u HelloRes \<Rightarrow> 'u HelloRes" where
  "HelloRes_copy = HelloReq_copy"

definition HelloRes_Clear :: "'u pb_runtime \<Rightarrow> 'u HelloRes \<Rightarrow> 'u HelloRes" where
  "HelloRes_Clear = HelloReq_Clear"

definition HelloRes_InternalParse ::
  "'u pb_runtime \<Rightarrow> byte list \<Rightarrow> 'u HelloRes \<Rightarrow> ('u HelloRes \<times> (byte list \<times> 32 word) option) option" where
  "HelloRes_InternalParse = HelloReq_InternalParse"

definition HelloRes_InternalSerialize :: "'u pb_runtime \<Rightarrow> 'u HelloRes \<Rightarrow> byte list" where
  "HelloRes_InternalSerialize = HelloReq_InternalSerialize"

definition HelloRes_ByteSizeLong :: "'u pb_runtime \<Rightarrow> 'u HelloRes \<Rightarrow> nat" where
  "HelloRes_ByteSizeLong = HelloReq_ByteSizeLong"

definition HelloRes_MergeFrom :: "'u pb_runtime \<Rightarrow> 'u HelloRes \<Rightarrow> 'u HelloRes \<Rightarrow> 'u HelloRes" where
  "HelloRes_MergeFrom = HelloReq_MergeFrom"

definition HelloRes_CopyFrom :: "'u pb_runtime \<Rightarrow> bool \<Rightarrow> 'u HelloRes \<Rightarrow> 'u HelloRes \<Rightarrow> 'u HelloRes" where
  "HelloRes_CopyFrom = HelloReq_CopyFrom"

definition HelloRes_InternalSwap :: "'u HelloRes \<Rightarrow> 'u HelloRes \<Rightarrow> 'u HelloRes \<times> 'u HelloRes" where
  "HelloRes_InternalSwap = HelloReq_InternalSwap"

section \<open>What the classes rely on\<close>

locale protobuf_runtime =
  fixes rt :: "'u pb_runtime"
  assumes enum_field: "\<lbrakk>1 \<le> f; f < 16; - (2 ^ 31) \<le> v; v < 2 ^ 31\<rbrakk> \<Longrightarrow>
      \<exists>mid. ReadTag rt (WriteEnumToArray rt f v @ rest) = (of_nat (8 * f), Some mid) \<and>
        ReadVarint64 rt mid = (word_of_int v, Some rest)"
    and string_field: "\<lbrakk>1 \<le> f; f < 16; length str < 2 ^ 31\<rbrakk> \<Longrightarrow>
      \<exists>mid. ReadTag rt (WriteString rt f str @ rest) = (of_nat (8 * f + 2), Some mid) \<and>
        InlineGreedyStringParser rt old mid = (str, Some rest)"
    and enum_size: "f < 16 \<Longrightarrow> length (WriteEnumToArray rt f v) = 1 + EnumSize rt v"
    and string_size: "f < 16 \<Longrightarrow> length (WriteString rt f str) = 1 + StringSize rt str"
    and enum_bound: "EnumSize rt v \<le> 10"
    and string_bound: "length str < 2 ^ 31 \<Longrightarrow> StringSize rt str \<le> 5 + length str"
    and ascii_utf8: "\<forall>b\<in>set str. unat b < 128 \<Longrightarrow> VerifyUTF8 rt str"
    and unknown_size: "length (write_unknown_fields rt u) = unknown_fields_size rt u"
    and none_unknown: "\<not> have_unknown_fields rt (no_unknown_fields rt)"
    and merge_unknown: "merge_unknown_fields rt (no_unknown_fields rt) u = u"
begin

lemma write_nonempty: "f < 16 \<Longrightarrow> WriteEnumToArray rt f v \<noteq> []" "f < 16 \<Longrightarrow> WriteString rt f str \<noteq> []"
  using enum_size [of f v] string_size [of f str] by auto

lemma enum_of_int: "- (2 ^ 31) \<le> v \<Longrightarrow> v < 2 ^ 31 \<Longrightarrow> enum_of (word_of_int v) = v"
proof -
  assume v: "- (2 ^ 31) \<le> v" "v < 2 ^ 31"
  have "(ucast (word_of_int v :: 64 word) :: 32 word) = word_of_int v"
    by (simp add: unsigned_of_int word_of_int_eq_iff take_bit_take_bit)
  then show ?thesis using v by (simp add: enum_of_def sint_sbintrunc' signed_take_bit_int_eq_self)
qed

lemma header_type:
  assumes "- (2 ^ 31) \<le> v" "v < 2 ^ 31"
  shows "RpcHeader_InternalParse rt (WriteEnumToArray rt 1 v @ rest) m = RpcHeader_InternalParse rt rest (set_type v m)"
proof -
  obtain mid where "ReadTag rt (WriteEnumToArray rt 1 v @ rest) = (8, Some mid)"
      "ReadVarint64 rt mid = (word_of_int v, Some rest)"
    using enum_field [of 1 v rest] assms by auto
  then show ?thesis using write_nonempty(1) [of 1 v] assms
    by (subst RpcHeader_InternalParse.simps) (simp add: enum_of_int)
qed

lemma header_func:
  assumes "length v < 2 ^ 31" "VerifyUTF8 rt v"
  shows "RpcHeader_InternalParse rt (WriteString rt 2 v @ rest) m = RpcHeader_InternalParse rt rest (set_func v m)"
proof -
  obtain mid where "ReadTag rt (WriteString rt 2 v @ rest) = (18, Some mid)"
      "InlineGreedyStringParser rt (rh_func m) mid = (v, Some rest)"
    using string_field [of 2 v rest "rh_func m"] assms by auto
  then show ?thesis using write_nonempty(2) [of 2 v] assms
    by (simp add: RpcHeader_InternalParse.simps [of rt "WriteString rt 2 v @ rest"])
qed

lemma header_timeout:
  assumes "length v < 2 ^ 31" "VerifyUTF8 rt v"
  shows "RpcHeader_InternalParse rt (WriteString rt 3 v @ rest) m = RpcHeader_InternalParse rt rest (set_timeout v m)"
proof -
  obtain mid where "ReadTag rt (WriteString rt 3 v @ rest) = (26, Some mid)"
      "InlineGreedyStringParser rt (rh_timeout m) mid = (v, Some rest)"
    using string_field [of 3 v rest "rh_timeout m"] assms by auto
  then show ?thesis using write_nonempty(2) [of 3 v] assms
    by (simp add: RpcHeader_InternalParse.simps [of rt "WriteString rt 3 v @ rest"])
qed

lemma hello_name:
  assumes "length v < 2 ^ 31" "VerifyUTF8 rt v"
  shows "HelloReq_InternalParse rt (WriteString rt 1 v @ rest) m = HelloReq_InternalParse rt rest (set_name v m)"
proof -
  obtain mid where "ReadTag rt (WriteString rt 1 v @ rest) = (10, Some mid)"
      "InlineGreedyStringParser rt (hq_name m) mid = (v, Some rest)"
    using string_field [of 1 v rest "hq_name m"] assms by auto
  then show ?thesis using write_nonempty(2) [of 1 v] assms
    by (subst HelloReq_InternalParse.simps) simp
qed

end

section \<open>Messages that can be sent\<close>

text \<open>
  A message is well formed when only the bits of its fields are set and an absent field has its default
  value; it can be sent when in addition its strings are UTF-8 and not too long and it carries no unknown field.
\<close>

definition wf_header :: "'u RpcHeader \<Rightarrow> bool" where
  "wf_header m \<longleftrightarrow> rh_has_bits m AND 7 = rh_has_bits m \<and> (\<not> has_func m \<longrightarrow> rh_func m = []) \<and>
     (\<not> has_timeout m \<longrightarrow> rh_timeout m = []) \<and> (\<not> has_type m \<longrightarrow> rh_type m = 0)"

definition wf_hello :: "'u HelloReq \<Rightarrow> bool" where
  "wf_hello m \<longleftrightarrow> hq_has_bits m AND 1 = hq_has_bits m \<and> (\<not> has_name m \<longrightarrow> hq_name m = [])"

definition sendable_string :: "'u pb_runtime \<Rightarrow> byte list \<Rightarrow> bool" where
  "sendable_string rt v \<longleftrightarrow> length v < 2 ^ 31 \<and> VerifyUTF8 rt v"

definition sendable_header :: "'u pb_runtime \<Rightarrow> 'u RpcHeader \<Rightarrow> bool" where
  "sendable_header rt m \<longleftrightarrow> wf_header m \<and> rh_unknown m = no_unknown_fields rt \<and>
     (has_func m \<longrightarrow> sendable_string rt (rh_func m)) \<and> (has_timeout m \<longrightarrow> sendable_string rt (rh_timeout m)) \<and>
     - (2 ^ 31) \<le> rh_type m \<and> rh_type m < 2 ^ 31"

definition sendable_hello :: "'u pb_runtime \<Rightarrow> 'u HelloReq \<Rightarrow> bool" where
  "sendable_hello rt m \<longleftrightarrow> wf_hello m \<and> hq_unknown m = no_unknown_fields rt \<and>
     (has_name m \<longrightarrow> sendable_string rt (hq_name m))"

lemma has_bits_or:
  fixes w :: "32 word"
  shows "(w OR 4) AND 4 \<noteq> 0" "(w OR 4) AND 2 = w AND 2" "(w OR 4) AND 1 = w AND 1"
    "(w OR 2) AND 2 \<noteq> 0" "(w OR 2) AND 4 = w AND 4" "(w OR 2) AND 1 = w AND 1"
    "(w OR 1) AND 1 \<noteq> 0" "(w OR 1) AND 2 = w AND 2" "(w OR 1) AND 4 = w AND 4"
    "(w OR 4) AND 7 = (w AND 7) OR 4" "(w OR 2) AND 7 = (w AND 7) OR 2" "(w OR 1) AND 7 = (w AND 7) OR 1"
  by (simp_all add: bit.conj_disj_distrib2)

lemma small_bits_cases:
  fixes w :: "32 word"
  assumes "w AND 7 = w"
  shows "w \<in> {0, 1, 2, 3, 4, 5, 6, 7}"
proof -
  have "w = take_bit 3 w" using assms by (simp add: take_bit_eq_mask mask_eq_exp_minus_1)
  then have "unat w < 2 ^ 3" by (metis take_bit_nat_less_exp unsigned_take_bit_eq)
  then have "unat w \<in> {0, 1, 2, 3, 4, 5, 6, 7}" by auto
  then show ?thesis by (simp add: word_unat_eq_iff)
qed

lemma small_bits:
  fixes w :: "32 word"
  assumes "w AND 7 = w"
  shows "w = (if w AND 4 \<noteq> 0 then 4 else 0) OR (if w AND 1 \<noteq> 0 then 1 else 0) OR (if w AND 2 \<noteq> 0 then 2 else 0)"
  using small_bits_cases [OF assms] by auto

text \<open>Setting the fields that \<open>m\<close> has, in the order of their numbers, on a default message.\<close>

lemma header_rebuild:
  assumes "wf_header m" "rh_unknown m = no_unknown_fields rt"
  shows "(if has_timeout m then set_timeout (rh_timeout m) else id)
    ((if has_func m then set_func (rh_func m) else id)
      ((if has_type m then set_type (rh_type m) else id) (RpcHeader_SharedCtor rt))) = m"
proof -
  have "rh_has_bits m = (if has_type m then 4 else 0) OR (if has_func m then 1 else 0) OR (if has_timeout m then 2 else 0)"
    using small_bits [of "rh_has_bits m"] assms(1) by (simp add: wf_header_def has_type_def has_func_def has_timeout_def)
  then show ?thesis
    using assms by (cases m) (auto simp: wf_header_def set_type_def set_func_def set_timeout_def RpcHeader_SharedCtor_def)
qed

lemma hello_rebuild:
  assumes "wf_hello m" "hq_unknown m = no_unknown_fields rt"
  shows "(if has_name m then set_name (hq_name m) else id) (HelloReq_SharedCtor rt) = m"
proof -
  have "hq_has_bits m = (if has_name m then 1 else 0)"
    using assms(1) by (cases "odd (hq_has_bits m)") (simp_all add: wf_hello_def has_name_def and_one_eq mod_2_eq_odd)
  then show ?thesis
    using assms by (cases m) (auto simp: wf_hello_def set_name_def HelloReq_SharedCtor_def)
qed

context protobuf_runtime
begin

lemma header_parses:
  assumes "sendable_header rt m"
  shows "RpcHeader_InternalParse rt (RpcHeader_InternalSerialize rt m) (RpcHeader_SharedCtor rt) = Some (m, Some ([], 0))"
proof -
  let ?ty = "if has_type m then WriteEnumToArray rt 1 (rh_type m) else []"
    and ?fn = "if has_func m then WriteString rt 2 (rh_func m) else []"
    and ?tm = "if has_timeout m then WriteString rt 3 (rh_timeout m) else []"
  have ser: "RpcHeader_InternalSerialize rt m = ?ty @ ?fn @ ?tm @ []"
    using assms none_unknown by (simp add: RpcHeader_InternalSerialize_def sendable_header_def)
  have ty: "RpcHeader_InternalParse rt (?ty @ rest) x =
      RpcHeader_InternalParse rt rest ((if has_type m then set_type (rh_type m) else id) x)" for rest x
    using assms header_type by (simp add: sendable_header_def)
  have fn: "RpcHeader_InternalParse rt (?fn @ rest) x =
      RpcHeader_InternalParse rt rest ((if has_func m then set_func (rh_func m) else id) x)" for rest x
    using assms header_func by (simp add: sendable_header_def sendable_string_def)
  have tm: "RpcHeader_InternalParse rt (?tm @ rest) x =
      RpcHeader_InternalParse rt rest ((if has_timeout m then set_timeout (rh_timeout m) else id) x)" for rest x
    using assms header_timeout by (simp add: sendable_header_def sendable_string_def)
  have wf: "wf_header m" "rh_unknown m = no_unknown_fields rt" using assms by (simp_all add: sendable_header_def)
  show ?thesis unfolding ser ty fn tm header_rebuild [OF wf] by (subst RpcHeader_InternalParse.simps) simp
qed

lemma header_size: "RpcHeader_ByteSizeLong rt m = length (RpcHeader_InternalSerialize rt m)"
proof -
  have "rh_has_bits m AND 7 = 0 \<Longrightarrow> \<not> has_type m \<and> \<not> has_func m \<and> \<not> has_timeout m"
    unfolding has_type_def has_func_def has_timeout_def
    using and.assoc [of "rh_has_bits m" 7 4] and.assoc [of "rh_has_bits m" 7 1] and.assoc [of "rh_has_bits m" 7 2] by simp
  then show ?thesis
    by (auto simp: RpcHeader_ByteSizeLong_def RpcHeader_InternalSerialize_def Let_def enum_size string_size
      unknown_size has_type_def has_func_def has_timeout_def)
qed

lemma hello_parses:
  assumes "sendable_hello rt m"
  shows "HelloReq_InternalParse rt (HelloReq_InternalSerialize rt m) (HelloReq_SharedCtor rt) = Some (m, Some ([], 0))"
proof -
  let ?nm = "if has_name m then WriteString rt 1 (hq_name m) else []"
  have ser: "HelloReq_InternalSerialize rt m = ?nm @ []"
    using assms none_unknown by (simp add: HelloReq_InternalSerialize_def sendable_hello_def)
  have nm: "HelloReq_InternalParse rt (?nm @ rest) x =
      HelloReq_InternalParse rt rest ((if has_name m then set_name (hq_name m) else id) x)" for rest x
    using assms hello_name by (simp add: sendable_hello_def sendable_string_def)
  have wf: "wf_hello m" "hq_unknown m = no_unknown_fields rt" using assms by (simp_all add: sendable_hello_def)
  show ?thesis unfolding ser nm hello_rebuild [OF wf] by (subst HelloReq_InternalParse.simps) simp
qed

lemma hello_size: "HelloReq_ByteSizeLong rt m = length (HelloReq_InternalSerialize rt m)"
  by (simp add: HelloReq_ByteSizeLong_def HelloReq_InternalSerialize_def string_size unknown_size has_name_def)

end

section \<open>A runtime that follows the wire format\<close>

text \<open>
  Base 128 varints, one-byte tags, length-delimited strings and raw unknown fields, as the protobuf
  encoding documents them. It shows that the laws of the locale can hold together.
\<close>

fun varint :: "nat \<Rightarrow> byte list" where
  "varint n = (if n < 128 then [of_nat n] else of_nat (n mod 128 + 128) # varint (n div 128))"

fun read_varint :: "nat \<Rightarrow> byte list \<Rightarrow> (nat \<times> byte list) option" where
  "read_varint 0 bs = None"
| "read_varint (Suc k) [] = None"
| "read_varint (Suc k) (b # bs) = (if unat b < 128 then Some (unat b, bs)
     else map_option (\<lambda>(v, rest). (unat b - 128 + 128 * v, rest)) (read_varint k bs))"

definition continuation :: "byte \<Rightarrow> bool" where
  "continuation b \<longleftrightarrow> 128 \<le> unat b \<and> unat b < 192"

fun utf8 :: "byte list \<Rightarrow> bool" where
  "utf8 [] = True"
| "utf8 (a # bs) = (if unat a < 128 then utf8 bs else
     (case bs of
        [] \<Rightarrow> False
      | b # cs \<Rightarrow> if \<not> continuation b then False
          else if 194 \<le> unat a \<and> unat a < 224 then utf8 cs
          else (case cs of
             [] \<Rightarrow> False
           | c # ds \<Rightarrow> if \<not> continuation c then False
               else if 224 \<le> unat a \<and> unat a < 240 then
                 (unat a = 224 \<longrightarrow> 160 \<le> unat b) \<and> (unat a = 237 \<longrightarrow> unat b < 160) \<and> utf8 ds
               else (case ds of
                  [] \<Rightarrow> False
                | d # es \<Rightarrow> continuation d \<and> 240 \<le> unat a \<and> unat a < 245 \<and>
                    (unat a = 240 \<longrightarrow> 144 \<le> unat b) \<and> (unat a = 244 \<longrightarrow> unat b < 144) \<and> utf8 es))))"

definition wire_tag :: "byte list \<Rightarrow> 32 word \<times> byte list option" where
  "wire_tag ptr = (case read_varint 5 ptr of None \<Rightarrow> (0, None) | Some (n, rest) \<Rightarrow> (of_nat n, Some rest))"

definition wire_varint :: "byte list \<Rightarrow> 64 word \<times> byte list option" where
  "wire_varint ptr = (case read_varint 10 ptr of None \<Rightarrow> (0, None) | Some (n, rest) \<Rightarrow> (of_nat n, Some rest))"

definition wire_string :: "byte list \<Rightarrow> byte list \<Rightarrow> byte list \<times> byte list option" where
  "wire_string old ptr = (case read_varint 5 ptr of None \<Rightarrow> (old, None)
     | Some (n, rest) \<Rightarrow> if n \<le> length rest then (take n rest, Some (drop n rest)) else (old, None))"

definition wire_unknown :: "32 word \<Rightarrow> byte list \<Rightarrow> byte list \<Rightarrow> byte list \<times> byte list option" where
  "wire_unknown tag u ptr =
     (let skip = (\<lambda>n. if n \<le> length ptr then (u @ varint (unat tag) @ take n ptr, Some (drop n ptr)) else (u, None))
      in if tag AND 7 = 0 then
           (case read_varint 10 ptr of None \<Rightarrow> (u, None) | Some (_, rest) \<Rightarrow> skip (length ptr - length rest))
         else if tag AND 7 = 1 then skip 8
         else if tag AND 7 = 2 then
           (case read_varint 5 ptr of None \<Rightarrow> (u, None) | Some (n, rest) \<Rightarrow> skip (length ptr - length rest + n))
         else if tag AND 7 = 5 then skip 4
         else (u, None))"

definition wire_runtime :: "byte list pb_runtime" where
  "wire_runtime = \<lparr>ReadTag = wire_tag, ReadVarint64 = wire_varint, InlineGreedyStringParser = wire_string,
     VerifyUTF8 = utf8, UnknownFieldParse = wire_unknown,
     WriteEnumToArray = (\<lambda>f v. varint (8 * f) @ varint (unat (word_of_int v :: 64 word))),
     WriteString = (\<lambda>f v. varint (8 * f + 2) @ varint (length v) @ v),
     EnumSize = (\<lambda>v. length (varint (unat (word_of_int v :: 64 word)))),
     StringSize = (\<lambda>v. length (varint (length v) @ v)),
     no_unknown_fields = [], have_unknown_fields = (\<lambda>u. u \<noteq> []), merge_unknown_fields = (@),
     write_unknown_fields = id, unknown_fields_size = length\<rparr>"

declare varint.simps [simp del]

lemma read_varint_varint: "n < 128 ^ Suc k \<Longrightarrow> read_varint (Suc k) (varint n @ rest) = Some (n, rest)"
proof (induction k arbitrary: n)
  case 0
  then show ?case by (simp add: varint.simps unsigned_of_nat take_bit_nat_eq_self)
next
  case (Suc k)
  have "n div 128 < 128 ^ Suc k" using Suc.prems by (simp add: less_mult_imp_div_less mult.commute)
  then have IH: "read_varint (Suc k) (varint (n div 128) @ rest) = Some (n div 128, rest)" by (rule Suc.IH)
  have b: "unat (of_nat (n mod 128 + 128) :: byte) = n mod 128 + 128"
    by (simp only: unsigned_of_nat) (simp add: take_bit_nat_eq_self)
  show ?case
  proof (cases "n < 128")
    case True
    then show ?thesis by (simp add: varint.simps unsigned_of_nat take_bit_nat_eq_self)
  next
    case False
    then have "varint n = of_nat (n mod 128 + 128) # varint (n div 128)" by (subst varint.simps) simp
    then show ?thesis using IH b by simp
  qed
qed

lemma read_written: "0 < k \<Longrightarrow> n < 128 ^ k \<Longrightarrow> read_varint k (varint n @ rest) = Some (n, rest)"
  using read_varint_varint [of n "k - 1" rest] by simp

lemma varint_small: "n < 128 \<Longrightarrow> length (varint n) = 1"
  by (simp add: varint.simps)

lemma wire_tag_varint: "n < 128 \<Longrightarrow> wire_tag (varint n @ rest) = (of_nat n, Some rest)"
  using read_written [of 5 n rest] by (simp add: wire_tag_def)

lemma wire_varint_varint: "wire_varint (varint (unat v) @ rest) = (v, Some rest)"
proof -
  have "unat v < 2 ^ 64" using unsigned_less [of v] by simp
  then show ?thesis using read_written [of 10 "unat v" rest] by (simp add: wire_varint_def)
qed

lemma wire_string_varint:
  assumes "length v < 2 ^ 31"
  shows "wire_string old (varint (length v) @ v @ rest) = (v, Some rest)"
  using assms read_written [of 5 "length v" "v @ rest"] by (simp add: wire_string_def)

lemma varint_length: "n < 128 ^ Suc k \<Longrightarrow> length (varint n) \<le> Suc k"
proof (induction k arbitrary: n)
  case 0
  then show ?case by (simp add: varint.simps)
next
  case (Suc k)
  have "n div 128 < 128 ^ Suc k" using Suc.prems by (simp add: less_mult_imp_div_less mult.commute)
  then show ?case using Suc.IH [of "n div 128"] by (subst varint.simps) simp
qed

lemma utf8_ascii: "\<forall>b\<in>set str. unat b < 128 \<Longrightarrow> utf8 str"
  by (induction str) simp_all

lemma wire_bounds:
  "EnumSize wire_runtime v \<le> 10" "length str < 2 ^ 31 \<Longrightarrow> StringSize wire_runtime str \<le> 5 + length str"
proof -
  have "unat (word_of_int v :: 64 word) < 2 ^ 64" using unsigned_less [of "word_of_int v :: 64 word"] by simp
  then have "unat (word_of_int v :: 64 word) < 128 ^ Suc 9" by simp
  then show "EnumSize wire_runtime v \<le> 10" using varint_length [of _ 9] by (simp add: wire_runtime_def)
  show "StringSize wire_runtime str \<le> 5 + length str" if "length str < 2 ^ 31"
    using varint_length [of "length str" 4] that by (simp add: wire_runtime_def)
qed

interpretation wire: protobuf_runtime wire_runtime
proof unfold_locales
  fix f v rest old str u
  assume f: "1 \<le> f" "f < (16 :: nat)"
  show "\<exists>mid. ReadTag wire_runtime (WriteEnumToArray wire_runtime f v @ rest) = (of_nat (8 * f), Some mid) \<and>
      ReadVarint64 wire_runtime mid = (word_of_int v, Some rest)"
    using f wire_tag_varint [of "8 * f"] wire_varint_varint by (simp add: wire_runtime_def)
  show "\<exists>mid. ReadTag wire_runtime (WriteString wire_runtime f str @ rest) = (of_nat (8 * f + 2), Some mid) \<and>
      InlineGreedyStringParser wire_runtime old mid = (str, Some rest)" if "length str < 2 ^ 31"
    using f that wire_tag_varint [of "8 * f + 2"] wire_string_varint by (simp add: wire_runtime_def)
qed (use wire_bounds in \<open>simp_all add: wire_runtime_def varint_small utf8_ascii\<close>)

section \<open>The invariant of the messages\<close>

lemma wf_header_updates:
  assumes "wf_header m"
  shows "wf_header (set_type v m)" "wf_header (set_func str m)" "wf_header (set_timeout str m)"
    "wf_header (m\<lparr>rh_unknown := u\<rparr>)"
  using assms by (simp_all add: wf_header_def set_type_def set_func_def set_timeout_def has_type_def has_func_def
    has_timeout_def has_bits_or)

lemma wf_header_new: "wf_header (RpcHeader_SharedCtor rt)"
  by (simp add: wf_header_def RpcHeader_SharedCtor_def)

lemma wf_header_parse:
  assumes "RpcHeader_InternalParse rt ptr m = Some R"
  shows "wf_header m \<Longrightarrow> wf_header (fst R)"
proof -
  let ?P = "\<lambda>rt ptr m (R :: 'a RpcHeader \<times> (byte list \<times> 32 word) option). wf_header m \<longrightarrow> wf_header (fst R)"
  have "?P rt ptr m R"
    by (rule RpcHeader_InternalParse.raw_induct [where P = ?P, rotated, OF assms])
      (auto simp: wf_header_updates split: if_splits prod.splits option.splits)
  then show "wf_header m \<Longrightarrow> ?thesis" by simp
qed

lemma clear_header:
  assumes "wf_header m"
  shows "RpcHeader_Clear rt m = RpcHeader_SharedCtor rt"
proof -
  have "rh_has_bits m \<in> {0, 1, 2, 3, 4, 5, 6, 7}" using assms small_bits_cases by (simp add: wf_header_def)
  then show ?thesis using assms
    by (cases m) (auto simp: RpcHeader_Clear_def RpcHeader_SharedCtor_def wf_header_def has_func_def has_timeout_def)
qed

lemma merge_new_header:
  assumes "protobuf_runtime rt" "wf_header from"
  shows "RpcHeader_MergeFrom rt from (RpcHeader_SharedCtor rt) = from"
proof -
  have "rh_has_bits from \<in> {0, 1, 2, 3, 4, 5, 6, 7}" using assms(2) small_bits_cases by (simp add: wf_header_def)
  then show ?thesis using assms(2) protobuf_runtime.merge_unknown [OF assms(1)]
    by (cases "from") (auto simp: RpcHeader_MergeFrom_def RpcHeader_SharedCtor_def wf_header_def has_type_def
      has_func_def has_timeout_def set_func_def set_timeout_def Let_def)
qed

lemma copy_header: "protobuf_runtime rt \<Longrightarrow> wf_header from \<Longrightarrow> RpcHeader_copy rt from = from"
  by (cases "from") (auto simp: RpcHeader_copy_def wf_header_def has_func_def has_timeout_def protobuf_runtime.merge_unknown)

section \<open>Properties\<close>

text \<open>
  C3: Parsing what a message serialises to gives the message back, consumes every byte and ends without
  a trailing tag, for \<open>RpcHeader\<close>, \<open>HelloReq\<close> and \<open>HelloRes\<close>; and \<open>ByteSizeLong\<close> is the number of bytes
  that are written, which is what the frames announce as lengths.
\<close>

theorem rpc_message_roundtrip:
  assumes "protobuf_runtime rt" "sendable_header rt m" "sendable_hello rt q"
  shows "RpcHeader_InternalParse rt (RpcHeader_InternalSerialize rt m) (RpcHeader_SharedCtor rt) =
      Some (m, Some ([], 0)) \<and>
    HelloReq_InternalParse rt (HelloReq_InternalSerialize rt q) (HelloReq_SharedCtor rt) = Some (q, Some ([], 0)) \<and>
    HelloRes_InternalParse rt (HelloRes_InternalSerialize rt q) (HelloRes_SharedCtor rt) = Some (q, Some ([], 0)) \<and>
    RpcHeader_ByteSizeLong rt m = length (RpcHeader_InternalSerialize rt m) \<and>
    HelloReq_ByteSizeLong rt q = length (HelloReq_InternalSerialize rt q)"
  by (simp add: HelloRes_InternalParse_def HelloRes_InternalSerialize_def HelloRes_SharedCtor_def
    protobuf_runtime.header_parses [OF assms(1,2)] protobuf_runtime.hello_parses [OF assms(1,3)]
    protobuf_runtime.header_size [OF assms(1)] protobuf_runtime.hello_size [OF assms(1)])

theorem rpc_message_roundtrip_witness:
  "RpcHeader_InternalParse wire_runtime (RpcHeader_InternalSerialize wire_runtime
       (set_func [104, 105] (set_type 1 (RpcHeader_SharedCtor wire_runtime)))) (RpcHeader_SharedCtor wire_runtime) =
     Some (set_func [104, 105] (set_type 1 (RpcHeader_SharedCtor wire_runtime)), Some ([], 0)) \<and>
   RpcHeader_ByteSizeLong wire_runtime (set_func [104, 105] (set_type 1 (RpcHeader_SharedCtor wire_runtime))) = 6"
proof -
  let ?m = "set_func [104, 105] (set_type 1 (RpcHeader_SharedCtor wire_runtime))"
    and ?q = "set_name [104] (HelloReq_SharedCtor wire_runtime)"
  have "sendable_header wire_runtime ?m" "sendable_hello wire_runtime ?q"
    by (simp_all add: sendable_header_def sendable_hello_def sendable_string_def wf_header_def wf_hello_def set_func_def
      set_type_def set_name_def has_func_def has_type_def has_timeout_def has_name_def RpcHeader_SharedCtor_def
      HelloReq_SharedCtor_def wire_runtime_def)
  moreover have "length (RpcHeader_InternalSerialize wire_runtime ?m) = 6"
    by (simp add: RpcHeader_InternalSerialize_def set_func_def set_type_def has_func_def has_type_def has_timeout_def
      RpcHeader_SharedCtor_def wire_runtime_def varint.simps)
  ultimately show ?thesis using rpc_message_roundtrip [OF wire.protobuf_runtime_axioms, of ?m ?q] by simp
qed

text \<open>
  C34: Whatever bytes arrive, a header stays well formed: bits are set only for its three fields and a
  field that is absent has its default value. On well-formed headers \<open>Clear\<close> gives the default message,
  \<open>CopyFrom\<close> and the copy constructor give an equal message, and \<open>InternalSwap\<close> exchanges the two.
\<close>

theorem rpc_header_operations:
  assumes "protobuf_runtime rt" "wf_header m" "wf_header from"
  shows "(\<forall>ptr m' r. RpcHeader_InternalParse rt ptr m = Some (m', r) \<longrightarrow> wf_header m') \<and>
    RpcHeader_Clear rt m = RpcHeader_SharedCtor rt \<and> RpcHeader_CopyFrom rt False from m = from \<and>
    RpcHeader_copy rt from = from \<and> RpcHeader_InternalSwap m from = (from, m)"
proof -
  have "\<forall>ptr m' r. RpcHeader_InternalParse rt ptr m = Some (m', r) \<longrightarrow> wf_header m'"
    using wf_header_parse [OF _ assms(2)] by fastforce
  then show ?thesis
    by (simp add: RpcHeader_CopyFrom_def RpcHeader_InternalSwap_def clear_header [OF assms(2)]
      merge_new_header [OF assms(1,3)] copy_header [OF assms(1,3)])
qed

theorem rpc_header_operations_witness:
  "RpcHeader_CopyFrom wire_runtime False (set_type 2 (RpcHeader_SharedCtor wire_runtime))
     (set_func [104] (RpcHeader_SharedCtor wire_runtime)) = set_type 2 (RpcHeader_SharedCtor wire_runtime)"
  using rpc_header_operations [OF wire.protobuf_runtime_axioms wf_header_updates(2) [OF wf_header_new]
    wf_header_updates(1) [OF wf_header_new]] by blast

end
