(* ===== verification/Rpc_Server.thy ===== *)
theory Rpc_Server
  imports Rpc_Parser Rpc_Message
begin

text \<open>
  The RPC server's connection manager, its send and receive handlers and its event loop
  (\<^verbatim>\<open>connection.cpp\<close>, \<^verbatim>\<open>connection_manager.cpp\<close>, \<^verbatim>\<open>hello_rpc_task.cpp\<close> and \<^verbatim>\<open>main.cpp\<close> of
  \<^verbatim>\<open>gencode/mg_server/server\<close>), and the client's call. The operating system is a script: for every
  descriptor the results that \<open>recv\<close> and \<open>send\<close> will give, and a record of what was sent and closed.
  Connections are objects shared by pointers, so they live in a heap. \<^term>\<open>None\<close> is undefined behaviour or
  a loop without end.
\<close>

section \<open>System calls\<close>

definition EAGAIN :: int where
  "EAGAIN = 11"

definition EWOULDBLOCK :: int where
  "EWOULDBLOCK = 11"

definition EINTR :: int where
  "EINTR = 4"

datatype recv_result = Recv "byte list" | RecvErr int

datatype send_result = Sent nat | SendErr int

record mg_sys =
  sy_recv :: "int \<Rightarrow> recv_result list"
  sy_send :: "int \<Rightarrow> send_result list"
  sy_sent :: "(int \<times> byte list) list"
  sy_closed :: "int list"
  sy_epoll_del :: "(int \<times> int) list"

text \<open>A socket whose script is used up would block; data that do not fit stay in the socket.\<close>

definition sys_recv :: "int \<Rightarrow> int \<Rightarrow> mg_sys \<Rightarrow> recv_result \<times> mg_sys" where
  "sys_recv fd n y = (case sy_recv y fd of
      [] \<Rightarrow> (RecvErr EAGAIN, y)
    | RecvErr e # rs \<Rightarrow> (RecvErr e, y\<lparr>sy_recv := (sy_recv y)(fd := rs)\<rparr>)
    | Recv d # rs \<Rightarrow> (Recv (take (nat n) d), y\<lparr>sy_recv := (sy_recv y)(fd :=
        (if int (length d) \<le> n then rs else Recv (drop (nat n) d) # rs))\<rparr>))"

definition sys_send :: "int \<Rightarrow> byte list \<Rightarrow> mg_sys \<Rightarrow> send_result \<times> mg_sys" where
  "sys_send fd d y = (case sy_send y fd of
      [] \<Rightarrow> (SendErr EAGAIN, y)
    | SendErr e # rs \<Rightarrow> (SendErr e, y\<lparr>sy_send := (sy_send y)(fd := rs)\<rparr>)
    | Sent k # rs \<Rightarrow> (Sent (min k (length d)), y\<lparr>sy_send := (sy_send y)(fd := rs),
        sy_sent := sy_sent y @ [(fd, take k d)]\<rparr>))"

section \<open>MConnManager\<close>

type_synonym conn_id = nat

record mg_server =
  ms_conns :: "int \<rightharpoonup> conn_id"
  ms_epfd :: int
  ms_heap :: "conn_id \<rightharpoonup> MConnection"
  ms_next :: conn_id
  ms_bufs :: buf_store
  ms_sys :: mg_sys

definition MConnManager_new :: "int \<Rightarrow> buf_store \<Rightarrow> mg_sys \<Rightarrow> mg_server" where
  "MConnManager_new epfd s y = \<lparr>ms_conns = Map.empty, ms_epfd = epfd, ms_heap = Map.empty, ms_next = 0,
     ms_bufs = s, ms_sys = y\<rparr>"

definition CreateConn :: "int \<Rightarrow> string \<Rightarrow> int \<Rightarrow> mg_server \<Rightarrow> mg_server" where
  "CreateConn fd client_ip client_port sv = (case ms_conns sv fd of
      Some _ \<Rightarrow> sv
    | None \<Rightarrow> sv\<lparr>ms_heap := (ms_heap sv)(ms_next sv \<mapsto> MConnection_new fd client_ip client_port),
        ms_conns := (ms_conns sv)(fd \<mapsto> ms_next sv), ms_next := ms_next sv + 1\<rparr>)"

definition GetConn :: "int \<Rightarrow> mg_server \<Rightarrow> conn_id option" where
  "GetConn fd sv = ms_conns sv fd"

definition CloseConn :: "int \<Rightarrow> mg_server \<Rightarrow> mg_server" where
  "CloseConn fd sv = sv\<lparr>ms_conns := (ms_conns sv)(fd := None),
     ms_sys := (ms_sys sv)\<lparr>sy_epoll_del := sy_epoll_del (ms_sys sv) @ [(ms_epfd sv, fd)],
       sy_closed := sy_closed (ms_sys sv) @ [fd]\<rparr>\<rparr>"

section \<open>MConnection::SendBuf\<close>

definition put_conn :: "conn_id \<Rightarrow> MConnection \<Rightarrow> mg_server \<Rightarrow> mg_server" where
  "put_conn c conn sv = sv\<lparr>ms_heap := (ms_heap sv)(c \<mapsto> conn)\<rparr>"

text \<open>
  The handlers \<open>recv_run\<close> and \<open>send_run\<close> hold the connection in a local \<open>shared_ptr\<close>; when it goes out of
  scope the connection is destroyed, if the table no longer refers to it. A connection that has a
  parser is not: the parser holds a \<open>shared_ptr\<close> to the connection and the connection one to the parser,
  and nothing breaks this cycle, so both stay in memory for ever.
\<close>

definition release :: "conn_id \<Rightarrow> mg_server \<Rightarrow> mg_server" where
  "release c sv = (case ms_heap sv c of
      None \<Rightarrow> sv
    | Some conn \<Rightarrow>
        if ms_conns sv (mc_fd conn) = Some c \<or> mc_parser conn \<noteq> None then sv
        else sv\<lparr>ms_heap := (ms_heap sv)(c := None),
          ms_bufs := fold MBufferGuard_delete (mr_list (mc_send_buf conn)) (ms_bufs sv)\<rparr>)"

definition SendQueue :: "MBufferGuard \<Rightarrow> MConnection \<Rightarrow> MConnection" where
  "SendQueue g conn = conn\<lparr>mc_send_buf := Append g (mc_send_buf conn)\<rparr>"

text \<open>The bytes that a system call reads from an address; reading outside the buffer is undefined.\<close>

definition data_at :: "buf_store \<Rightarrow> buf_id \<times> int \<Rightarrow> int \<Rightarrow> byte list option" where
  "data_at s p n = do {
     m \<leftarrow> bs_bufs s (fst p);
     (if 0 \<le> n \<and> 0 \<le> snd p \<and> snd p + n \<le> int (length (mb_bytes m)) then Some (window s p n) else None) }"

text \<open>\<open>Erase\<close> drops the guard that \<open>Next\<close> handed out last, whose destructor runs then.\<close>

definition erase_sent :: "MReadBuf \<Rightarrow> buf_store \<Rightarrow> (MReadBuf \<times> buf_store) option" where
  "erase_sent r s = do {
     r' \<leftarrow> Erase r;
     last_it \<leftarrow> mr_last_it r;
     Some (r', if mr_cur_it r \<noteq> last_it then MBufferGuard_delete (mr_list r ! last_it) s else s) }"

partial_function (option) SendBuf :: "conn_id \<Rightarrow> mg_server \<Rightarrow> mg_server option" where
  "SendBuf c sv = do {
     conn \<leftarrow> ms_heap sv c;
     (case Next (mc_send_buf conn) of
        None \<Rightarrow> Some sv
      | Some (data, sz, r) \<Rightarrow> do {
          d \<leftarrow> data_at (ms_bufs sv) data sz;
          let (ret, y) = sys_send (mc_fd conn) d (ms_sys sv);
          let sv = (put_conn c (conn\<lparr>mc_send_buf := r\<rparr>) sv)\<lparr>ms_sys := y\<rparr>;
          (case ret of
             SendErr e \<Rightarrow>
               if e = EAGAIN OR EWOULDBLOCK OR EINTR then do {
                 r \<leftarrow> BackUp sz r;
                 SendBuf c (put_conn c (conn\<lparr>mc_send_buf := r\<rparr>) sv) }
               else Some (CloseConn (mc_fd conn) sv)
           | Sent k \<Rightarrow>
               if k = 0 then Some (CloseConn (mc_fd conn) sv)
               else if int k < sz then do {
                 r \<leftarrow> BackUp (sz - int k) r;
                 SendBuf c (put_conn c (conn\<lparr>mc_send_buf := r\<rparr>) sv) }
               else do {
                 (r, s) \<leftarrow> erase_sent r (ms_bufs sv);
                 SendBuf c ((put_conn c (conn\<lparr>mc_send_buf := r\<rparr>) sv)\<lparr>ms_bufs := s\<rparr>) }) }) }"

definition send_run :: "int \<Rightarrow> mg_server \<Rightarrow> mg_server option" where
  "send_run fd sv = (case GetConn fd sv of
      None \<Rightarrow> Some (CloseConn fd sv)
    | Some c \<Rightarrow> map_option (release c) (SendBuf c sv))"

section \<open>do\_response and do\_request\<close>

definition HelloTask_Run :: "'u HelloReq \<Rightarrow> 'u HelloRes \<Rightarrow> 'u HelloRes" where
  "HelloTask_Run req res = set_name [119, 111, 114, 108, 100] res"

definition response_bytes :: "'u pb_runtime \<Rightarrow> 'u RpcHeader \<Rightarrow> 'u HelloRes \<Rightarrow> byte list" where
  "response_bytes rt rpc_header hellores = MAGIC @ le_bytes (int (RpcHeader_ByteSizeLong rt rpc_header)) @
     le_bytes (int (HelloRes_ByteSizeLong rt hellores)) @ RpcHeader_InternalSerialize rt rpc_header @
     HelloRes_InternalSerialize rt hellores"

text \<open>The tail of \<open>do_response\<close>: what was not sent is queued, a buffer that was sent is given back.\<close>

definition finish_response :: "conn_id \<Rightarrow> buf_id \<Rightarrow> int \<Rightarrow> mg_server \<Rightarrow> mg_server option" where
  "finish_response c b remain sv = (if remain > 0 then do {
       conn \<leftarrow> ms_heap sv c;
       g \<leftarrow> MBufferGuard_new b remain (ms_bufs sv);
       Some (put_conn c (SendQueue g conn) sv) }
     else Some (sv\<lparr>ms_bufs := GiveBack b (ms_bufs sv)\<rparr>))"

definition do_response :: "'u pb_runtime \<Rightarrow> conn_id \<Rightarrow> 'u RpcHeader \<Rightarrow> 'u HelloRes \<Rightarrow> mg_server \<Rightarrow> mg_server option" where
  "do_response rt c rpc_header hellores sv =
     (let remain = 4 + 8 + int (RpcHeader_ByteSizeLong rt rpc_header) + int (HelloRes_ByteSizeLong rt hellores) in
      case Allocate (ms_bufs sv) of
        (None, _) \<Rightarrow> Some sv
      | (Some b, s) \<Rightarrow> do {
          conn \<leftarrow> ms_heap sv c;
          m \<leftarrow> bs_bufs s b;
          s \<leftarrow> deliver b (response_bytes rt rpc_header hellores) s;
          d \<leftarrow> data_at s (b, Buf m) remain;
          let (ret, y) = sys_send (mc_fd conn) d (ms_sys sv);
          let sv = sv\<lparr>ms_bufs := s, ms_sys := y\<rparr>;
          (case ret of
             SendErr e \<Rightarrow>
               if e = EAGAIN OR EWOULDBLOCK \<or> e = EINTR then finish_response c b remain sv
               else Some (CloseConn (mc_fd conn) sv)
           | Sent k \<Rightarrow>
               if k = 0 then Some (CloseConn (mc_fd conn) sv)
               else do {
                 s \<leftarrow> consume_buf b (int k) s;
                 finish_response c b (remain - int k) (sv\<lparr>ms_bufs := s\<rparr>) }) })"

text \<open>A stream parsed by the runtime: it reads the chunks until the bounded number of bytes.\<close>

definition stream_bytes :: "buf_store \<Rightarrow> MReadBuf \<Rightarrow> byte list" where
  "stream_bytes s r = take (nat (TotalBytes r)) (drain (length (mr_list r)) (next_bytes s) r)"

text \<open>
  The queue of requests in \<open>recv_run\<close> shares the requests with the copy that \<open>do_request\<close> works on, so they
  are destroyed after \<open>do_request\<close> returned, in order; each destroys its body stream first, and with
  the streams the guards.
\<close>

definition delete_request :: "MRequest \<Rightarrow> buf_store \<Rightarrow> buf_store" where
  "delete_request r s = fold MBufferGuard_delete (mr_list (rq_body_buf r) @ mr_list (rq_header_buf r)) s"

definition delete_requests :: "MRequest list \<Rightarrow> mg_server \<Rightarrow> mg_server" where
  "delete_requests reqs sv = sv\<lparr>ms_bufs := fold delete_request reqs (ms_bufs sv)\<rparr>"

definition hello_func :: "byte list" where
  "hello_func = [104, 101, 108, 108, 111]"

definition do_one_request :: "'u pb_runtime \<Rightarrow> conn_id \<Rightarrow> MRequest \<Rightarrow> mg_server \<Rightarrow> mg_server option" where
  "do_one_request rt c it sv = do {
     (rpc_header, _) \<leftarrow> RpcHeader_InternalParse rt (stream_bytes (ms_bufs sv) (rq_header_buf it)) (RpcHeader_SharedCtor rt);
     (if rh_func rpc_header = hello_func then do {
         (req, _) \<leftarrow> HelloReq_InternalParse rt (stream_bytes (ms_bufs sv) (rq_body_buf it)) (HelloReq_SharedCtor rt);
         let res = HelloTask_Run req (HelloRes_SharedCtor rt);
         do_response rt c (set_type RPC_TYPE_RPC_RESPONSE rpc_header) res sv }
       else Some sv) }"

primrec do_request :: "'u pb_runtime \<Rightarrow> conn_id \<Rightarrow> MRequest list \<Rightarrow> mg_server \<Rightarrow> mg_server option" where
  "do_request rt c [] sv = Some sv"
| "do_request rt c (it # reqs) sv = do {
     sv \<leftarrow> do_one_request rt c it sv;
     do_request rt c reqs sv }"

section \<open>recv\_run\<close>

primrec allocate_retry :: "nat \<Rightarrow> buf_store \<Rightarrow> buf_id option \<times> buf_store" where
  "allocate_retry 0 s = (None, s)"
| "allocate_retry (Suc n) s = (case Allocate s of
      (Some b, s) \<Rightarrow> (Some b, s)
    | (None, s) \<Rightarrow> allocate_retry n s)"

definition give_back :: "buf_id \<Rightarrow> mg_server \<Rightarrow> mg_server" where
  "give_back b sv = sv\<lparr>ms_bufs := GiveBack b (ms_bufs sv)\<rparr>"

partial_function (option) recv_loop :: "'u pb_runtime \<Rightarrow> int \<Rightarrow> int \<Rightarrow> conn_id \<Rightarrow> mg_server \<Rightarrow> mg_server option" where
  "recv_loop rt garbage fd c sv = (case allocate_retry 3 (ms_bufs sv) of
      (None, _) \<Rightarrow> Some (CloseConn fd sv)
    | (Some b, s) \<Rightarrow> do {
        m \<leftarrow> bs_bufs s b;
        let (len, y) = sys_recv fd (Remain m) (ms_sys sv);
        let sv = sv\<lparr>ms_bufs := s, ms_sys := y\<rparr>;
        (case len of
           RecvErr e \<Rightarrow>
             if e = EAGAIN OR EWOULDBLOCK then Some (give_back b sv)
             else if e = EINTR then recv_loop rt garbage fd c (give_back b sv)
             else Some (CloseConn fd (give_back b sv))
         | Recv d \<Rightarrow>
             if d = [] then Some (CloseConn fd (give_back b sv))
             else do {
               conn \<leftarrow> ms_heap sv c;
               (reqs, conn, s) \<leftarrow> receive garbage b d conn s;
               let sv = (put_conn c conn sv)\<lparr>ms_bufs := s\<rparr>;
               sv \<leftarrow> do_request rt c reqs sv;
               recv_loop rt garbage fd c (delete_requests reqs sv) }) })"

definition recv_run :: "'u pb_runtime \<Rightarrow> int \<Rightarrow> int \<Rightarrow> mg_server \<Rightarrow> mg_server option" where
  "recv_run rt garbage fd sv = (case GetConn fd sv of
      None \<Rightarrow> Some (CloseConn fd sv)
    | Some c \<Rightarrow> map_option (release c) (recv_loop rt garbage fd c sv))"

section \<open>The event loop\<close>

text \<open>
  One event of \<open>epoll_wait\<close>: the listening socket with the result of \<open>accept\<close> (its address already
  converted) and of \<open>epoll_ctl\<close>, or a client descriptor with its readable and writable flags. The
  result says whether \<open>accept_run\<close> returned.
\<close>

datatype ep_event = ListenReady "(int \<times> string \<times> int) option" int | ClientReady int bool bool

definition handle_event :: "'u pb_runtime \<Rightarrow> int \<Rightarrow> ep_event \<Rightarrow> mg_server \<Rightarrow> (bool \<times> mg_server) option" where
  "handle_event rt garbage ev sv = (case ev of
      ListenReady None ctl \<Rightarrow> Some (False, sv)
    | ListenReady (Some (client, client_ip, client_port)) ctl \<Rightarrow>
        if ctl < 0 then Some (True, sv\<lparr>ms_sys := (ms_sys sv)\<lparr>sy_closed := sy_closed (ms_sys sv) @ [client]\<rparr>\<rparr>)
        else Some (False, CreateConn client client_ip client_port sv)
    | ClientReady fd readable writable \<Rightarrow> do {
        sv \<leftarrow> (if readable then recv_run rt garbage fd sv else Some sv);
        sv \<leftarrow> (if writable then send_run fd sv else Some sv);
        Some (False, sv) })"

text \<open>The loop of \<open>accept_run\<close> over the events that arrive.\<close>

primrec accept_events :: "'u pb_runtime \<Rightarrow> int \<Rightarrow> ep_event list \<Rightarrow> mg_server \<Rightarrow> (bool \<times> mg_server) option" where
  "accept_events rt garbage [] sv = Some (False, sv)"
| "accept_events rt garbage (ev # evs) sv = do {
     (returned, sv) \<leftarrow> handle_event rt garbage ev sv;
     (if returned then Some (True, sv) else accept_events rt garbage evs sv) }"

section \<open>The client\<close>

text \<open>What the client's \<open>main\<close> sends, and what it reads out of the bytes it receives.\<close>

definition client_header :: "'u pb_runtime \<Rightarrow> 'u RpcHeader" where
  "client_header rt = set_func hello_func (set_type RPC_TYPE_RPC_REQUEST (RpcHeader_SharedCtor rt))"

definition client_request :: "'u pb_runtime \<Rightarrow> byte list" where
  "client_request rt = (let rpc_header = client_header rt; helloreq = set_name hello_func (HelloReq_SharedCtor rt)
     in MAGIC @ le_bytes (int (RpcHeader_ByteSizeLong rt rpc_header)) @
        le_bytes (int (HelloReq_ByteSizeLong rt helloreq)) @ RpcHeader_InternalSerialize rt rpc_header @
        HelloReq_InternalSerialize rt helloreq)"

text \<open>The receive buffer has 1024 bytes and is zeroed before; lengths that reach outside it are undefined.\<close>

definition client_response :: "'u pb_runtime \<Rightarrow> byte list \<Rightarrow> ('u RpcHeader \<times> 'u HelloRes) option" where
  "client_response rt received =
     (let buf = take 1024 (received @ replicate 1024 0);
          rpc_header_length = le32 (take 4 (drop 4 buf)); rpc_body_length = le32 (take 4 (drop 8 buf))
      in if 0 \<le> rpc_header_length \<and> 0 \<le> rpc_body_length \<and> 12 + rpc_header_length + rpc_body_length \<le> 1024 then do {
           (header, _) \<leftarrow> RpcHeader_InternalParse rt (take (nat rpc_header_length) (drop 12 buf)) (RpcHeader_SharedCtor rt);
           (res, _) \<leftarrow> HelloRes_InternalParse rt
             (take (nat rpc_body_length) (drop (12 + nat rpc_header_length) buf)) (HelloRes_SharedCtor rt);
           Some (header, res) }
         else None)"

lemma release_fields [simp]: "ms_conns (release c sv) = ms_conns sv" "ms_sys (release c sv) = ms_sys sv"
  by (simp_all add: release_def split: option.split)


lemma delete_requests_Nil [simp]: "delete_requests [] sv = sv"
  by (simp add: delete_requests_def)

section \<open>Receiving a frame\<close>

lemma parse_keeps_fd:
  assumes "parse_connection garbage b len conn s = Some R"
  shows "mc_fd (fst (snd R)) = mc_fd conn \<and> mc_send_buf (fst (snd R)) = mc_send_buf conn"
proof -
  let ?P = "\<lambda>(garbage :: int) (b :: buf_id) (len :: int) conn (s :: buf_store) (R :: MRequest list \<times> MConnection \<times> buf_store).
    mc_fd (fst (snd R)) = mc_fd conn \<and> mc_send_buf (fst (snd R)) = mc_send_buf conn"
  show ?thesis
    by (rule parse_connection.raw_induct [where P = ?P, rotated, OF assms])
      (fastforce simp: Let_def split: if_splits parse_type.splits Option.bind_splits)
qed

lemma receive_keeps_fd:
  "receive garbage b d conn s = Some (reqs, conn', s') \<Longrightarrow> mc_fd conn' = mc_fd conn \<and> mc_send_buf conn' = mc_send_buf conn"
  using parse_keeps_fd by (fastforce simp: receive_def split: Option.bind_splits)

definition fresh_buf :: "buf_store \<Rightarrow> buf_id \<Rightarrow> bool" where
  "fresh_buf s b \<longleftrightarrow> (case bs_bufs s b of None \<Rightarrow> False
     | Some m \<Rightarrow> Buf m = 0 \<and> Remain m = 1024 \<and> length (mb_bytes m) = 1024)"

lemma allocate_retry_first:
  "bs_pool1024 s = b # bs \<Longrightarrow> allocate_retry 3 s = (Some b, s\<lparr>bs_pool1024 := bs\<rparr>)"
  by (simp add: numeral_3_eq_3 Allocate_def)

lemma sys_recv_fits:
  "sy_recv y fd = Recv d # rs \<Longrightarrow> length d \<le> 1024 \<Longrightarrow>
   sys_recv fd 1024 y = (Recv d, y\<lparr>sy_recv := (sy_recv y)(fd := rs)\<rparr>)"
  by (simp add: sys_recv_def)

definition received :: "conn_id \<Rightarrow> MConnection \<Rightarrow> buf_store \<Rightarrow> int \<Rightarrow> recv_result list \<Rightarrow> mg_server \<Rightarrow> mg_server" where
  "received c conn s fd rs sv = sv\<lparr>ms_heap := (ms_heap sv)(c \<mapsto> conn), ms_bufs := s,
     ms_sys := (ms_sys sv)\<lparr>sy_recv := (sy_recv (ms_sys sv))(fd := rs)\<rparr>\<rparr>"

lemma received_simps [simp]:
  "ms_heap (received c conn s fd rs sv) = (ms_heap sv)(c \<mapsto> conn)" "ms_bufs (received c conn s fd rs sv) = s"
  "ms_conns (received c conn s fd rs sv) = ms_conns sv" "sy_recv (ms_sys (received c conn s fd rs sv)) fd = rs"
  "received c conn s fd rs (received c conn0 s0 fd rs0 sv) = received c conn s fd rs sv"
  "sy_sent (ms_sys (received c conn s fd rs sv)) = sy_sent (ms_sys sv)"
  "sy_send (ms_sys (received c conn s fd rs sv)) = sy_send (ms_sys sv)"
  "sy_closed (ms_sys (received c conn s fd rs sv)) = sy_closed (ms_sys sv)"
  by (simp_all add: received_def)

lemma server_updates: "sv\<lparr>ms_sys := y, ms_heap := h, ms_bufs := s\<rparr> = sv\<lparr>ms_heap := h, ms_bufs := s, ms_sys := y\<rparr>"
  by (cases sv) simp

text \<open>One round of the loop that receives the chunk \<open>d\<close> into the fresh buffer \<open>b\<close>.\<close>

lemma recv_round:
  assumes "bs_pool1024 (ms_bufs sv) = b # bs" "fresh_buf (ms_bufs sv) b" "ms_heap sv c = Some conn"
    and "sy_recv (ms_sys sv) fd = Recv d # rs" "d \<noteq> []" "length d \<le> 1024"
    and "receive garbage b d conn ((ms_bufs sv)\<lparr>bs_pool1024 := bs\<rparr>) = Some (reqs, conn', s')"
  shows "recv_loop rt garbage fd c sv = do {
    sv \<leftarrow> do_request rt c reqs (received c conn' s' fd rs sv);
    recv_loop rt garbage fd c (delete_requests reqs sv) }"
proof -
  obtain m where m: "bs_bufs (ms_bufs sv) b = Some m" "Remain m = 1024"
    using assms(2) by (auto simp: fresh_buf_def split: option.splits)
  have "sys_recv fd (Remain m) (ms_sys sv) =
      (Recv d, (ms_sys sv)\<lparr>sy_recv := (sy_recv (ms_sys sv))(fd := rs)\<rparr>)"
    unfolding m(2) by (rule sys_recv_fits [OF assms(4,6)])
  then show ?thesis
    using m(1) assms(3,5,7) by (subst recv_loop.simps) (simp add: allocate_retry_first [OF assms(1)] put_conn_def
      received_def server_updates)
qed

lemma recv_loop_frame:
  assumes "fits hdr body" "length magic = 4" "conn_follows garbage hdr body j conn (ms_bufs sv)"
    and "ms_heap sv c = Some conn" "sy_recv (ms_sys sv) fd = map Recv ds @ tail"
    and "\<forall>d\<in>set ds. d \<noteq> [] \<and> length d \<le> 1024" "concat ds = drop j (framed magic hdr body)"
    and "j < 12 + length hdr + length body"
    and "bs_pool1024 (ms_bufs sv) = bs @ ps" "length bs = length ds" "distinct (bs @ ps)"
    and "\<forall>b\<in>set bs. fresh_buf (ms_bufs sv) b \<and> b \<notin> conn_bufs garbage conn"
  shows "\<exists>r conn' s'. recv_loop rt garbage fd c sv = do {
      sv \<leftarrow> do_request rt c [r] (received c conn' s' fd tail sv);
      recv_loop rt garbage fd c (delete_requests [r] sv) } \<and>
    complete hdr body r s' \<and> finished conn' \<and> mc_fd conn' = mc_fd conn \<and> mc_send_buf conn' = mc_send_buf conn \<and>
    bs_pool1024 s' = ps \<and> (\<forall>x\<in>set ps. bs_bufs s' x = bs_bufs (ms_bufs sv) x)"
  using assms
proof (induction ds arbitrary: j conn sv bs)
  case Nil
  then have "length (drop j (framed magic hdr body)) = 0" by simp
  then show ?case using Nil.prems by (simp add: framed_def)
next
  case (Cons d ds)
  obtain b bs' where bs: "bs = b # bs'" using Cons.prems(10) by (cases bs) auto
  let ?s0 = "(ms_bufs sv)\<lparr>bs_pool1024 := bs' @ ps\<rparr>"
  have fb: "fresh_buf (ms_bufs sv) b" "b \<notin> conn_bufs garbage conn" using Cons.prems(12) bs by auto
  have ff: "fresh_for ?s0 (b, d)"
    using fb(1) Cons.prems(6) by (auto simp: fresh_buf_def fresh_for_def split: option.splits)
  have cf: "conn_follows garbage hdr body j conn ?s0"
    by (rule conn_follows_other [OF _ fb(2) Cons.prems(3)]) simp
  have dd: "d @ concat ds = drop j (framed magic hdr body)" using Cons.prems(7) by simp
  obtain reqs conn' s' where r: "receive garbage b d conn ?s0 = Some (reqs, conn', s')"
      "\<forall>x. x \<noteq> b \<longrightarrow> bs_bufs s' x = bs_bufs ?s0 x" "bs_pool1024 s' = bs_pool1024 ?s0"
      "conn_bufs garbage conn' \<subseteq> insert b (conn_bufs garbage conn)"
      "if j + length d < 12 + length hdr + length body then reqs = [] \<and> conn_follows garbage hdr body (j + length d) conn' s'
       else \<exists>r. reqs = [r] \<and> complete hdr body r s' \<and> finished conn'"
    using receive_progress [OF Cons.prems(1,2) cf ff fb(2) dd Cons.prems(8)] by blast
  have k: "mc_fd conn' = mc_fd conn" "mc_send_buf conn' = mc_send_buf conn" using receive_keeps_fd [OF r(1)] by auto
  let ?sv = "received c conn' s' fd (map Recv ds @ tail) sv"
  have step: "recv_loop rt garbage fd c sv = do {
      sv \<leftarrow> do_request rt c reqs ?sv; recv_loop rt garbage fd c (delete_requests reqs sv) }"
    by (rule recv_round [OF _ fb(1) Cons.prems(4) _ _ _ r(1)]) (use Cons.prems(5,6,9) bs in auto)
  have d': "concat ds = drop (j + length d) (framed magic hdr body)"
    using arg_cong [OF dd, of "drop (length d)"] by (simp add: add.commute)
  have bp: "b \<notin> set bs'" "b \<notin> set ps" using Cons.prems(11) bs by auto
  show ?case
  proof (cases "j + length d < 12 + length hdr + length body")
    case True
    have fr: "\<forall>x\<in>set bs'. fresh_buf (ms_bufs ?sv) x \<and> x \<notin> conn_bufs garbage conn'"
      using Cons.prems(12) bs bp(1) r(2,4) by (auto simp: fresh_buf_def)
    have "\<exists>r conn'' s''. recv_loop rt garbage fd c ?sv = do {
        sv \<leftarrow> do_request rt c [r] (received c conn'' s'' fd tail ?sv);
        recv_loop rt garbage fd c (delete_requests [r] sv) } \<and>
      complete hdr body r s'' \<and> finished conn'' \<and> mc_fd conn'' = mc_fd conn' \<and> mc_send_buf conn'' = mc_send_buf conn' \<and>
      bs_pool1024 s'' = ps \<and> (\<forall>x\<in>set ps. bs_bufs s'' x = bs_bufs (ms_bufs ?sv) x)"
      by (rule Cons.IH [OF Cons.prems(1,2) _ _ _ _ d' True _ _ _ fr])
        (use r(3,5) True Cons.prems(6,9,10,11) bs in auto)
    moreover have "recv_loop rt garbage fd c sv = recv_loop rt garbage fd c ?sv" using step r(5) True by simp
    ultimately show ?thesis using k bp(2) r(2) by (elim exE) (rule exI, rule exI, rule exI, auto)
  next
    case False
    then have "concat ds = []" unfolding d' using Cons.prems(2) by (simp add: framed_def)
    moreover have "\<forall>x\<in>set ds. x \<noteq> []" using Cons.prems(6) by simp
    ultimately have ds: "ds = []" by (cases ds) auto
    obtain r where rr: "reqs = [r]" "complete hdr body r s'" "finished conn'" using r(5) False by auto
    then show ?thesis
      using step ds bs Cons.prems(10) r(2,3) k bp(2)
      by (intro exI [of _ r] exI [of _ conn'] exI [of _ s']) (auto simp: ds)
  qed
qed

section \<open>Answering a request\<close>

lemma stream_bytes_tidy: "tidy r \<Longrightarrow> stream_bytes s r = contents s r"
  using mrb.drain_rest [of r "length (mr_list r)" s] tidy_rest [of r s] by (simp add: stream_bytes_def)

lemma length_response:
  "protobuf_runtime rt \<Longrightarrow> int (length (response_bytes rt h res)) =
     4 + 8 + int (RpcHeader_ByteSizeLong rt h) + int (HelloRes_ByteSizeLong rt res)"
  by (simp add: response_bytes_def MAGIC_def protobuf_runtime.header_size protobuf_runtime.hello_size
    HelloRes_ByteSizeLong_def HelloRes_InternalSerialize_def)

lemma deliver_whole:
  assumes "fresh_buf s b" "length d \<le> 1024"
  shows "\<exists>s' m. deliver b d s = Some s' \<and> bs_bufs s b = Some m \<and> Buf m = 0 \<and> bs_pool1024 s' = bs_pool1024 s \<and>
    data_at s' (b, 0) (int (length d)) = Some d \<and> (\<exists>s''. consume_buf b n s' = Some s'' \<and> bs_pool1024 s'' = bs_pool1024 s \<and>
      (\<forall>x. x \<noteq> b \<longrightarrow> bs_bufs s'' x = bs_bufs s x))"
  using assms
  by (auto simp: fresh_buf_def deliver_def data_at_def window_def write_at_def consume_buf_def Buf_def split: option.splits)

definition sent_to :: "int \<Rightarrow> byte list \<Rightarrow> send_result list \<Rightarrow> mg_sys \<Rightarrow> mg_sys" where
  "sent_to fd d rs y = y\<lparr>sy_send := (sy_send y)(fd := rs), sy_sent := sy_sent y @ [(fd, d)]\<rparr>"

lemma respond:
  assumes rt: "protobuf_runtime rt" and pool: "bs_pool1024 (ms_bufs sv) = b # ps" and fr: "fresh_buf (ms_bufs sv) b"
    and conn: "ms_heap sv c = Some conn" and snd: "sy_send (ms_sys sv) (mc_fd conn) = Sent k # rs"
    and k: "length (response_bytes rt h res) \<le> k" and le: "length (response_bytes rt h res) \<le> 1024"
  shows "\<exists>s. do_response rt c h res sv = Some (sv\<lparr>ms_bufs := s,
      ms_sys := sent_to (mc_fd conn) (response_bytes rt h res) rs (ms_sys sv)\<rparr>) \<and> bs_pool1024 s = ps @ [b] \<and>
    (\<forall>x. x \<noteq> b \<longrightarrow> bs_bufs s x = bs_bufs (ms_bufs sv) x)"
proof -
  let ?d = "response_bytes rt h res" and ?s0 = "(ms_bufs sv)\<lparr>bs_pool1024 := ps\<rparr>"
  have al: "Allocate (ms_bufs sv) = (Some b, ?s0)" using pool by (simp add: Allocate_def)
  have fr0: "fresh_buf ?s0 b" using fr by (simp add: fresh_buf_def)
  obtain s1 m s2 where s1: "deliver b ?d ?s0 = Some s1" "bs_bufs ?s0 b = Some m" "Buf m = 0"
      "data_at s1 (b, 0) (int (length ?d)) = Some ?d" "consume_buf b (int (length ?d)) s1 = Some s2"
      "bs_pool1024 s2 = bs_pool1024 ?s0" "\<forall>x. x \<noteq> b \<longrightarrow> bs_bufs s2 x = bs_bufs ?s0 x"
    using deliver_whole [OF fr0 le, of "int (length ?d)"] by blast
  have pos: "length ?d \<noteq> 0" by (simp add: response_bytes_def MAGIC_def)
  have sd: "sys_send (mc_fd conn) ?d (ms_sys sv) = (Sent (length ?d), sent_to (mc_fd conn) ?d rs (ms_sys sv))"
    using snd k by (simp add: sys_send_def sent_to_def)
  have len: "4 + 8 + int (RpcHeader_ByteSizeLong rt h) + int (HelloRes_ByteSizeLong rt res) = int (length ?d)"
    using length_response [OF rt] by simp
  have "do_response rt c h res sv = Some (sv\<lparr>ms_bufs := GiveBack b s2, ms_sys := sent_to (mc_fd conn) ?d rs (ms_sys sv)\<rparr>)"
    unfolding do_response_def len al
    using conn s1 sd pos by (simp add: finish_response_def)
  then show ?thesis using s1(6,7) by (intro exI [of _ "GiveBack b s2"]) (simp add: GiveBack_def)
qed

lemma delete_request_bufs: "bs_bufs (delete_request r s) = bs_bufs s"
proof -
  have "bs_bufs (fold MBufferGuard_delete gs s) = bs_bufs s" for gs
    by (induction gs arbitrary: s) (simp_all add: MBufferGuard_delete_def GiveBack_def)
  then show ?thesis unfolding delete_request_def .
qed

lemma delete_request_pool: "\<exists>zs. bs_pool1024 (delete_request r s) = bs_pool1024 s @ zs"
proof -
  have "\<exists>zs. bs_pool1024 (fold MBufferGuard_delete gs s) = bs_pool1024 s @ zs" for gs
  proof (induction gs arbitrary: s)
    case (Cons g gs)
    then obtain zs where "bs_pool1024 (fold MBufferGuard_delete (g # gs) s) = bs_pool1024 (MBufferGuard_delete g s) @ zs"
      by fastforce
    moreover have "\<exists>z. bs_pool1024 (MBufferGuard_delete g s) = bs_pool1024 s @ z"
      by (auto simp: MBufferGuard_delete_def GiveBack_def)
    ultimately show ?case by (metis append.assoc)
  qed simp
  then show ?thesis unfolding delete_request_def .
qed

lemma recv_loop_blocked:
  assumes "bs_pool1024 (ms_bufs sv) = b # bs" "bs_bufs (ms_bufs sv) b = Some m" "sy_recv (ms_sys sv) fd = []"
  shows "recv_loop rt garbage fd c sv = Some (give_back b (sv\<lparr>ms_bufs := (ms_bufs sv)\<lparr>bs_pool1024 := bs\<rparr>\<rparr>))"
  using assms
  by (subst recv_loop.simps) (simp add: allocate_retry_first [OF assms(1)] sys_recv_def EAGAIN_def EWOULDBLOCK_def)

lemma answer:
  assumes rt: "protobuf_runtime rt" and pool: "bs_pool1024 (ms_bufs sv) = b # p # ps" and fr: "fresh_buf (ms_bufs sv) b"
    and conn: "ms_heap sv c = Some conn" and snd: "sy_send (ms_sys sv) (mc_fd conn) = Sent k # rs"
    and hd: "sendable_header rt h" "rh_func h = hello_func" and q: "sendable_hello rt q"
    and cp: "complete (RpcHeader_InternalSerialize rt h) (HelloReq_InternalSerialize rt q) r (ms_bufs sv)"
    and resp: "d = response_bytes rt (set_type RPC_TYPE_RPC_RESPONSE h) (HelloTask_Run q (HelloRes_SharedCtor rt))"
    and k: "length d \<le> k" and le: "length d \<le> 1024"
  shows "\<exists>s. do_request rt c [r] sv = Some (sv\<lparr>ms_bufs := s, ms_sys := sent_to (mc_fd conn) d rs (ms_sys sv)\<rparr>) \<and>
    (\<exists>zs. bs_pool1024 (delete_request r s) = p # zs) \<and>
    (\<forall>x. x \<noteq> b \<longrightarrow> bs_bufs (delete_request r s) x = bs_bufs (ms_bufs sv) x)"
proof -
  have sb: "stream_bytes (ms_bufs sv) (rq_header_buf r) = RpcHeader_InternalSerialize rt h"
    "stream_bytes (ms_bufs sv) (rq_body_buf r) = HelloReq_InternalSerialize rt q"
    using cp by (simp_all add: complete_def stream_bytes_tidy)
  obtain s where s: "do_response rt c (set_type RPC_TYPE_RPC_RESPONSE h) (HelloTask_Run q (HelloRes_SharedCtor rt)) sv =
      Some (sv\<lparr>ms_bufs := s, ms_sys := sent_to (mc_fd conn) d rs (ms_sys sv)\<rparr>)" "bs_pool1024 s = (p # ps) @ [b]"
      "\<forall>x. x \<noteq> b \<longrightarrow> bs_bufs s x = bs_bufs (ms_bufs sv) x"
    using respond [OF rt pool fr conn snd] k le unfolding resp by blast
  have "do_request rt c [r] sv = Some (sv\<lparr>ms_bufs := s, ms_sys := sent_to (mc_fd conn) d rs (ms_sys sv)\<rparr>)"
    by (simp add: do_one_request_def sb protobuf_runtime.header_parses [OF rt hd(1)] protobuf_runtime.hello_parses [OF rt q]
      hd(2) s(1))
  moreover obtain zs where "bs_pool1024 (delete_request r s) = bs_pool1024 s @ zs" using delete_request_pool by blast
  ultimately show ?thesis using s(2,3) by (intro exI [of _ s]) (simp add: delete_request_bufs)
qed

section \<open>The hello call\<close>

definition hello_header :: "'u pb_runtime \<Rightarrow> int \<Rightarrow> 'u RpcHeader" where
  "hello_header rt t = set_func hello_func (set_type t (RpcHeader_SharedCtor rt))"

definition hello_message :: "'u pb_runtime \<Rightarrow> byte list \<Rightarrow> 'u HelloReq" where
  "hello_message rt v = set_name v (HelloReq_SharedCtor rt)"

definition world :: "byte list" where
  "world = [119, 111, 114, 108, 100]"

lemma hello_header_simps:
  "rh_func (hello_header rt t) = hello_func" "rh_type (hello_header rt t) = t"
  "set_type t' (hello_header rt t) = hello_header rt t'" "has_func (hello_header rt t)" "has_type (hello_header rt t)"
  "\<not> has_timeout (hello_header rt t)" "rh_unknown (hello_header rt t) = no_unknown_fields rt"
  "wf_header (hello_header rt t)"
  by (simp_all add: hello_header_def set_func_def set_type_def RpcHeader_SharedCtor_def has_func_def has_type_def
    has_timeout_def wf_header_def)

lemma hello_message_simps:
  "hq_name (hello_message rt v) = v" "has_name (hello_message rt v)" "wf_hello (hello_message rt v)"
  "hq_unknown (hello_message rt v) = no_unknown_fields rt"
  by (simp_all add: hello_message_def set_name_def HelloReq_SharedCtor_def has_name_def wf_hello_def)

context protobuf_runtime
begin

lemma hello_sendable:
  assumes "- (2 ^ 31) \<le> t" "t < 2 ^ 31"
  shows "sendable_header rt (hello_header rt t)"
proof -
  have "VerifyUTF8 rt hello_func" by (rule ascii_utf8) (simp add: hello_func_def)
  then show ?thesis using assms
    by (simp add: sendable_header_def hello_header_simps sendable_string_def) (simp add: hello_func_def)
qed

lemma message_sendable:
  assumes "\<forall>b\<in>set v. unat b < 128" "length v = 5"
  shows "sendable_hello rt (hello_message rt v)"
  using assms ascii_utf8 [OF assms(1)] by (simp add: sendable_hello_def hello_message_simps sendable_string_def)

lemma hello_header_length: "length (RpcHeader_InternalSerialize rt (hello_header rt t)) \<le> 22"
  using enum_size [of 1 t] string_size [of 2 hello_func] enum_bound [of t] string_bound [of hello_func] none_unknown
  by (simp add: RpcHeader_InternalSerialize_def hello_header_simps) (simp add: hello_func_def)

lemma hello_message_length:
  assumes "length v = 5"
  shows "length (HelloReq_InternalSerialize rt (hello_message rt v)) \<le> 11"
    "HelloReq_InternalSerialize rt (hello_message rt v) \<noteq> []"
  using assms string_size [of 1 v] string_bound [of v] none_unknown write_nonempty(2) [of 1 v]
  by (simp_all add: HelloReq_InternalSerialize_def hello_message_simps)

lemma client_reads:
  assumes "sendable_header rt h" "sendable_hello rt q" "length (response_bytes rt h q) \<le> 1024"
  shows "client_response rt (response_bytes rt h q) = Some (h, q)"
proof -
  let ?hd = "RpcHeader_InternalSerialize rt h" and ?bd = "HelloReq_InternalSerialize rt q"
  define pad :: "byte list" where "pad = replicate (1024 - length (response_bytes rt h q)) 0"
  have len: "length (response_bytes rt h q) = 12 + length ?hd + length ?bd"
    by (simp add: response_bytes_def MAGIC_def HelloRes_InternalSerialize_def)
  have buf: "take 1024 (response_bytes rt h q @ replicate 1024 0) =
      MAGIC @ le_bytes (int (length ?hd)) @ le_bytes (int (length ?bd)) @ ?hd @ ?bd @ pad"
  proof -
    have "take 1024 (response_bytes rt h q @ replicate 1024 0) = response_bytes rt h q @ pad"
      using assms(3) by (simp add: pad_def)
    then show ?thesis
      by (simp add: response_bytes_def header_size hello_size HelloRes_ByteSizeLong_def HelloRes_InternalSerialize_def)
  qed
  have l: "le32 (le_bytes (int (length ?hd))) = int (length ?hd)" "le32 (le_bytes (int (length ?bd))) = int (length ?bd)"
    using assms(3) len by (simp_all add: le32_le_bytes)
  define X where "X = MAGIC @ le_bytes (int (length ?hd)) @ le_bytes (int (length ?bd)) @ ?hd @ ?bd @ pad"
  have d12: "drop 12 X = ?hd @ ?bd @ pad" by (simp add: X_def MAGIC_def)
  have "drop (12 + length ?hd) X = drop (length ?hd) (drop 12 X)" by (simp only: drop_drop add.commute)
  then have dn: "drop (12 + length ?hd) X = ?bd @ pad" using d12 by simp
  have d48: "take 4 (drop 4 X) = le_bytes (int (length ?hd))" "take 4 (drop 8 X) = le_bytes (int (length ?bd))"
    by (simp_all add: X_def MAGIC_def)
  show ?thesis
    unfolding client_response_def buf X_def [symmetric]
    using l d12 d48 dn len assms(3) header_parses [OF assms(1)] hello_parses [OF assms(2)]
    by (simp add: HelloRes_InternalParse_def HelloRes_SharedCtor_def)
qed

end

section \<open>Properties\<close>

lemma client_request_framed:
  "protobuf_runtime rt \<Longrightarrow> client_request rt = framed MAGIC (RpcHeader_InternalSerialize rt (hello_header rt 1))
     (HelloReq_InternalSerialize rt (hello_message rt hello_func))"
  by (simp add: client_request_def client_header_def hello_header_def hello_message_def RPC_TYPE_RPC_REQUEST_def
    framed_def length_bytes_def Let_def protobuf_runtime.header_size protobuf_runtime.hello_size)

text \<open>
  C1: The hello call works end to end: when the bytes that the client writes reach a new connection in
  any chunks of at most 1024 bytes, the pool's buffers are fresh and the socket takes the answer, then
  \<open>recv_run\<close> returns, has sent exactly one frame on that connection and closed nothing, and the client
  reads out of it a response header for \<open>hello\<close> and the name \<open>world\<close>.
\<close>

theorem rpc_hello_call:
  assumes rt: "protobuf_runtime rt" and conn: "GetConn fd sv = Some c" "ms_heap sv c = Some (MConnection_new fd ip port)"
    and inp: "sy_recv (ms_sys sv) fd = map Recv ds" "concat ds = client_request rt" "\<forall>d\<in>set ds. d \<noteq> [] \<and> length d \<le> 1024"
    and out: "sy_send (ms_sys sv) fd = [Sent k]" "1024 \<le> k"
    and pool: "distinct (bs_pool1024 (ms_bufs sv))" "\<forall>b\<in>set (bs_pool1024 (ms_bufs sv)). fresh_buf (ms_bufs sv) b"
      "length ds + 2 \<le> length (bs_pool1024 (ms_bufs sv))"
  shows "\<exists>sv' d. recv_run rt garbage fd sv = Some sv' \<and> sy_sent (ms_sys sv') = sy_sent (ms_sys sv) @ [(fd, d)] \<and>
    client_response rt d = Some (hello_header rt RPC_TYPE_RPC_RESPONSE, hello_message rt world) \<and>
    ms_conns sv' = ms_conns sv \<and> sy_closed (ms_sys sv') = sy_closed (ms_sys sv)"
proof -
  let ?h = "hello_header rt 1" and ?q = "hello_message rt hello_func"
  let ?hd = "RpcHeader_InternalSerialize rt ?h" and ?bd = "HelloReq_InternalSerialize rt ?q"
  let ?d = "response_bytes rt (hello_header rt RPC_TYPE_RPC_RESPONSE) (hello_message rt world)"
  let ?P = "bs_pool1024 (ms_bufs sv)" and ?conn = "MConnection_new fd ip port"
  have f5: "length hello_func = 5" "length world = 5" "\<forall>b\<in>set hello_func. unat b < 128" "\<forall>b\<in>set world. unat b < 128"
    by (simp_all add: hello_func_def world_def)
  have snd: "sendable_header rt ?h" "sendable_header rt (hello_header rt RPC_TYPE_RPC_RESPONSE)"
      "sendable_hello rt ?q" "sendable_hello rt (hello_message rt world)"
    using f5 by (simp_all add: protobuf_runtime.hello_sendable [OF rt] protobuf_runtime.message_sendable [OF rt]
      RPC_TYPE_RPC_RESPONSE_def)
  have fits: "fits ?hd ?bd"
    using protobuf_runtime.hello_header_length [OF rt, of 1] protobuf_runtime.hello_message_length [OF rt f5(1)]
    by (simp add: fits_def)
  have len: "length ?d \<le> 1024"
    using protobuf_runtime.hello_header_length [OF rt, of RPC_TYPE_RPC_RESPONSE]
      protobuf_runtime.hello_message_length(1) [OF rt f5(2)]
    by (simp add: response_bytes_def MAGIC_def HelloRes_InternalSerialize_def)
  obtain b p ps where P: "?P = take (length ds) ?P @ b # p # ps"
  proof -
    have "2 \<le> length (drop (length ds) ?P)" using pool(3) by simp
    then obtain b p ps where "drop (length ds) ?P = b # p # ps" by (cases "drop (length ds) ?P" rule: remdups_adj.cases) auto
    then show thesis using that append_take_drop_id [of "length ds" ?P] by metis
  qed
  have in_P: "x \<in> set ?P" if "x \<in> set (b # p # ps)" for x using P that by (metis Un_iff set_append)
  obtain r conn' s' where l: "recv_loop rt garbage fd c sv = do {
        sv \<leftarrow> do_request rt c [r] (received c conn' s' fd [] sv); recv_loop rt garbage fd c (delete_requests [r] sv) }"
      "complete ?hd ?bd r s'" "mc_fd conn' = mc_fd ?conn" "bs_pool1024 s' = b # p # ps"
      "\<forall>x\<in>set (b # p # ps). bs_bufs s' x = bs_bufs (ms_bufs sv) x"
    using recv_loop_frame [OF fits _ new_conn_follows conn(2), where magic = MAGIC and garbage = garbage and fd = fd and ds = ds
        and tail = "[]" and bs = "take (length ds) ?P" and ps = "b # p # ps" and rt = rt]
      inp pool client_request_framed [OF rt] P in_set_takeD [of _ "length ds" ?P] by (auto simp: MAGIC_def)
  have bp: "fresh_buf s' b" "fresh_buf s' p" "p \<noteq> b"
    using l(5) pool(1,2) in_P [of b] in_P [of p] P distinct_append [of "take (length ds) ?P" "b # p # ps"]
    by (auto simp: fresh_buf_def)
  have fd: "mc_fd conn' = fd" using l(3) by (simp add: MConnection_new_def)
  have task: "HelloTask_Run ?q (HelloRes_SharedCtor rt) = hello_message rt world"
    by (simp add: HelloTask_Run_def hello_message_def HelloRes_SharedCtor_def world_def)
  let ?sv1 = "received c conn' s' fd [] sv"
  obtain s zs where a: "do_request rt c [r] ?sv1 = Some (?sv1\<lparr>ms_bufs := s, ms_sys := sent_to fd ?d [] (ms_sys ?sv1)\<rparr>)"
      "bs_pool1024 (delete_request r s) = p # zs" "\<forall>x. x \<noteq> b \<longrightarrow> bs_bufs (delete_request r s) x = bs_bufs s' x"
    using answer [OF rt, of ?sv1 b p ps c conn' k "[]" ?h ?q r ?d] l(2,4) bp fd out snd(1,3) len
    by (auto simp: hello_header_simps task)
  obtain m where m: "bs_bufs (delete_request r s) p = Some m" using a(3) bp(2,3) by (auto simp: fresh_buf_def split: option.splits)
  let ?s2 = "delete_request r s"
  let ?sv2 = "?sv1\<lparr>ms_bufs := ?s2, ms_sys := sent_to fd ?d [] (ms_sys ?sv1)\<rparr>"
  have "recv_loop rt garbage fd c ?sv2 = Some (give_back p (?sv2\<lparr>ms_bufs := ?s2\<lparr>bs_pool1024 := zs\<rparr>\<rparr>))"
    using recv_loop_blocked [of ?sv2 p zs m fd rt garbage c] a(2) m by (simp add: sent_to_def)
  moreover have "delete_requests [r] (?sv1\<lparr>ms_bufs := s, ms_sys := sent_to fd ?d [] (ms_sys ?sv1)\<rparr>) = ?sv2"
    by (simp add: delete_requests_def)
  ultimately have "recv_run rt garbage fd sv =
      Some (release c (give_back p (?sv2\<lparr>ms_bufs := ?s2\<lparr>bs_pool1024 := zs\<rparr>\<rparr>)))"
    using conn(1) l(1) a(1) by (simp add: recv_run_def)
  then show ?thesis
    using protobuf_runtime.client_reads [OF rt snd(2,4) len] by (auto simp: give_back_def sent_to_def)
qed

definition demo_server :: mg_server where
  "demo_server = CreateConn 5 [] 80 (MConnManager_new (- 1) MBufferPool_new
     \<lparr>sy_recv = (\<lambda>fd. if fd = 5 then [Recv (client_request wire_runtime)] else []),
      sy_send = (\<lambda>fd. if fd = 5 then [Sent 1024] else []), sy_sent = [], sy_closed = [], sy_epoll_del = []\<rparr>)"

lemma demo_server_simps:
  "ms_conns demo_server = [5 \<mapsto> 0]" "ms_heap demo_server = [0 \<mapsto> MConnection_new 5 [] 80]"
  "ms_bufs demo_server = MBufferPool_new" "sy_recv (ms_sys demo_server) 5 = [Recv (client_request wire_runtime)]"
  "sy_send (ms_sys demo_server) 5 = [Sent 1024]" "sy_sent (ms_sys demo_server) = []"
  by (simp_all add: demo_server_def CreateConn_def MConnManager_new_def)

lemma initial_pool:
  "bs_pool1024 MBufferPool_new = [0..<1024]" "b < 1024 \<Longrightarrow> fresh_buf MBufferPool_new b"
  by (simp_all add: MBufferPool_new_def BUFFER_POOL_SIZE_def fresh_buf_def MBuffer_new_def Buf_def Remain_def)

theorem rpc_hello_call_witness:
  "\<exists>sv' d. recv_run wire_runtime 0 5 demo_server = Some sv' \<and> sy_sent (ms_sys sv') = [(5, d)] \<and>
    client_response wire_runtime d =
      Some (hello_header wire_runtime RPC_TYPE_RPC_RESPONSE, hello_message wire_runtime world)"
proof -
  have "client_request wire_runtime \<noteq> []" by (simp add: client_request_def Let_def MAGIC_def)
  moreover have "length (client_request wire_runtime) \<le> 1024"
    using client_request_framed [OF wire.protobuf_runtime_axioms] wire.hello_header_length [of 1]
      wire.hello_message_length(1) [of hello_func]
    by (simp add: framed_def MAGIC_def length_bytes_def) (simp add: hello_func_def)
  ultimately show ?thesis
    using rpc_hello_call [OF wire.protobuf_runtime_axioms, of 5 demo_server 0 "[]" 80 "[client_request wire_runtime]" 1024 0]
      initial_pool(2)
    by (simp add: GetConn_def demo_server_simps initial_pool(1)) blast
qed

text \<open>
  A full socket loses the connection: the case label \<open>EAGAIN | EWOULDBLOCK | EINTR\<close> is the number 15,
  so the error \<open>EAGAIN\<close> that a non-blocking socket reports when it cannot take more data is
  handled by the default branch, which closes the connection with the unsent data still queued.
\<close>

theorem rpc_send_would_block_closes:
  assumes "ms_heap sv c = Some conn" "Next (mc_send_buf conn) = Some (data, sz, r)"
    and "data_at (ms_bufs sv) data sz = Some d" "sy_send (ms_sys sv) (mc_fd conn) = SendErr EAGAIN # rs"
  shows "EAGAIN OR EWOULDBLOCK OR EINTR = 15 \<and> (\<exists>sv'. SendBuf c sv = Some sv' \<and>
    sy_closed (ms_sys sv') = sy_closed (ms_sys sv) @ [mc_fd conn] \<and> ms_conns sv' (mc_fd conn) = None \<and>
    sy_sent (ms_sys sv') = sy_sent (ms_sys sv))"
proof -
  have e: "EAGAIN OR EWOULDBLOCK OR EINTR = 15" by (simp add: EAGAIN_def EWOULDBLOCK_def EINTR_def)
  then have "EAGAIN \<noteq> EAGAIN OR EWOULDBLOCK OR EINTR" by (simp add: EAGAIN_def)
  then show ?thesis
    using assms e by (subst SendBuf.simps) (simp add: sys_send_def CloseConn_def put_conn_def)
qed

definition demo_blocked :: mg_server where
  "demo_blocked = demo_server\<lparr>ms_heap := [0 \<mapsto> SendQueue (demo_guard 7) (MConnection_new 5 [] 80)],
     ms_sys := (ms_sys demo_server)\<lparr>sy_send := (\<lambda>fd. [SendErr EAGAIN])\<rparr>\<rparr>"

theorem rpc_send_would_block_closes_witness:
  "\<exists>sv'. send_run 5 demo_blocked = Some sv' \<and> ms_conns sv' 5 = None \<and> sy_sent (ms_sys sv') = []"
proof -
  let ?conn = "SendQueue (demo_guard 7) (MConnection_new 5 [] 80)"
  obtain r where n: "Next (mc_send_buf ?conn) = Some ((7, 0), 4, r)"
    by (simp add: SendQueue_def MConnection_new_def Next_def Append_def MReadBuf_new_def demo_guard_def guard_Buf_def
      guard_Size_def)
  have h: "ms_heap demo_blocked 0 = Some ?conn" by (simp add: demo_blocked_def)
  have fd: "mc_fd ?conn = 5" by (simp add: SendQueue_def MConnection_new_def)
  have "\<exists>d. data_at (ms_bufs demo_blocked) (7, 0) 4 = Some d"
    by (simp add: demo_blocked_def demo_server_simps data_at_def MBufferPool_new_def BUFFER_POOL_SIZE_def MBuffer_new_def)
  then obtain d where d: "data_at (ms_bufs demo_blocked) (7, 0) 4 = Some d" by blast
  have "\<exists>sv'. SendBuf 0 demo_blocked = Some sv' \<and> ms_conns sv' 5 = None \<and> sy_sent (ms_sys sv') = []"
    using rpc_send_would_block_closes [OF h n d, of "[]"] fd by (simp add: demo_blocked_def demo_server_simps) blast
  then obtain sv' where "SendBuf 0 demo_blocked = Some sv'" "ms_conns sv' 5 = None" "sy_sent (ms_sys sv') = []" by blast
  moreover have "GetConn 5 demo_blocked = Some 0" by (simp add: GetConn_def demo_blocked_def demo_server_simps)
  ultimately show ?thesis by (simp add: send_run_def)
qed

text \<open>
  The error paths of \<open>recv_run\<close>: a descriptor without a connection is closed; an empty pool closes the
  connection; a socket without data gives the buffer back and keeps the connection; when the peer has
  closed, the buffer is given back and the connection closed. Each time \<open>recv_run\<close> then lets go of the connection.
\<close>

theorem rpc_recv_errors:
  assumes "GetConn fd sv = Some c" "bs_pool1024 (ms_bufs sv) = b # bs" "bs_bufs (ms_bufs sv) b = Some m"
  shows "(GetConn x sv = None \<longrightarrow> recv_run rt garbage x sv = Some (CloseConn x sv)) \<and>
    recv_run rt garbage fd (sv\<lparr>ms_bufs := (ms_bufs sv)\<lparr>bs_pool1024 := []\<rparr>\<rparr>) =
      Some (release c (CloseConn fd (sv\<lparr>ms_bufs := (ms_bufs sv)\<lparr>bs_pool1024 := []\<rparr>\<rparr>))) \<and>
    (sy_recv (ms_sys sv) fd = [] \<longrightarrow>
      recv_run rt garbage fd sv = Some (release c (sv\<lparr>ms_bufs := (ms_bufs sv)\<lparr>bs_pool1024 := bs @ [b]\<rparr>\<rparr>))) \<and>
    (\<forall>rs. sy_recv (ms_sys sv) fd = Recv [] # rs \<and> 0 \<le> Remain m \<longrightarrow>
      (\<exists>sv'. recv_run rt garbage fd sv = Some (release c sv') \<and> ms_conns sv' fd = None \<and> bs_pool1024 (ms_bufs sv') = bs @ [b] \<and>
        sy_closed (ms_sys sv') = sy_closed (ms_sys sv) @ [fd]))"
proof -
  have "allocate_retry 3 ((ms_bufs sv)\<lparr>bs_pool1024 := []\<rparr>) = (None, (ms_bufs sv)\<lparr>bs_pool1024 := []\<rparr>)"
    by (simp add: numeral_3_eq_3 Allocate_def)
  then have "recv_loop rt garbage fd c (sv\<lparr>ms_bufs := (ms_bufs sv)\<lparr>bs_pool1024 := []\<rparr>\<rparr>) =
      Some (CloseConn fd (sv\<lparr>ms_bufs := (ms_bufs sv)\<lparr>bs_pool1024 := []\<rparr>\<rparr>))"
    by (subst recv_loop.simps) simp
  moreover have "sy_recv (ms_sys sv) fd = [] \<Longrightarrow>
      recv_loop rt garbage fd c sv = Some (sv\<lparr>ms_bufs := (ms_bufs sv)\<lparr>bs_pool1024 := bs @ [b]\<rparr>\<rparr>)"
    using recv_loop_blocked [OF assms(2,3)] by (simp add: give_back_def GiveBack_def)
  moreover have "\<exists>sv'. recv_loop rt garbage fd c sv = Some sv' \<and> ms_conns sv' fd = None \<and>
      bs_pool1024 (ms_bufs sv') = bs @ [b] \<and> sy_closed (ms_sys sv') = sy_closed (ms_sys sv) @ [fd]"
    if "sy_recv (ms_sys sv) fd = Recv [] # rs" "0 \<le> Remain m" for rs
    using that assms(3) by (subst recv_loop.simps)
      (simp add: allocate_retry_first [OF assms(2)] sys_recv_def give_back_def GiveBack_def CloseConn_def)
  ultimately show ?thesis using assms(1) by (auto simp: recv_run_def GetConn_def) blast
qed

definition demo_small :: "recv_result list \<Rightarrow> mg_server" where
  "demo_small rs = demo_server\<lparr>ms_bufs := MBufferPool_new\<lparr>bs_pool1024 := [0, 2]\<rparr>,
     ms_sys := (ms_sys demo_server)\<lparr>sy_recv := (\<lambda>fd. rs)\<rparr>\<rparr>"

lemma demo_small_simps:
  "ms_conns (demo_small rs) = [5 \<mapsto> 0]" "ms_heap (demo_small rs) = [0 \<mapsto> MConnection_new 5 [] 80]"
  "bs_pool1024 (ms_bufs (demo_small rs)) = [0, 2]" "sy_recv (ms_sys (demo_small rs)) 5 = rs"
  "bs_bufs (ms_bufs (demo_small rs)) 0 = Some (MBuffer_new 1024)"
  "fresh_buf (ms_bufs (demo_small rs)) 0" "fresh_buf (ms_bufs (demo_small rs)) 2"
  by (simp_all add: demo_small_def demo_server_simps MBufferPool_new_def BUFFER_POOL_SIZE_def fresh_buf_def MBuffer_new_def
    Buf_def Remain_def)

theorem rpc_recv_errors_witness:
  "recv_run wire_runtime 0 9 (demo_small [Recv []]) = Some (CloseConn 9 (demo_small [Recv []])) \<and>
   (\<exists>sv'. recv_run wire_runtime 0 5 (demo_small [Recv []]) = Some sv' \<and> ms_conns sv' 5 = None)"
proof -
  have r: "0 \<le> Remain (MBuffer_new 1024)" by (simp add: Remain_def MBuffer_new_def)
  show ?thesis
    using rpc_recv_errors [of 5 "demo_small [Recv []]" 0 0 "[2]" "MBuffer_new 1024" 9 wire_runtime 0] r
    by (auto simp: GetConn_def demo_small_simps)
qed



end
