(* ===== verification/Rpc_Main.thy ===== *)
theory Rpc_Main
  imports Rpc_Server
begin

text \<open>
  The rest of the RPC server's process: opening the listening socket (\<open>listen_port\<close> of \<^verbatim>\<open>main.cpp\<close> and
  \<open>MListen\<close>), the signal handler, the event loop from its start, resource limits and the supervisor
  \<open>watch_dog\<close>; and what the events do to the connection manager's table and to the life of the connections. The
  results of system calls are arguments.
\<close>

section \<open>Listening\<close>

record listen_results =
  lr_socket :: int
  lr_bind :: int
  lr_listen :: int

text \<open>\<open>listen_port\<close> assigns the caller's \<open>sock\<close>; the second component lists the descriptors it closed.\<close>

definition listen_port :: "listen_results \<Rightarrow> int \<times> int list" where
  "listen_port r = (let sock = lr_socket r in
     if sock < 0 then (sock, [])
     else if lr_bind r < 0 then (sock, [sock])
     else if lr_listen r < 0 then (sock, [sock])
     else (sock, []))"

text \<open>\<open>MListen\<close> keeps \<open>_sock\<close>, which its \<open>Listen\<close> never assigns: the socket is a local variable.\<close>

record MListen =
  ml_sock :: int
  ml_port :: int
  ml_address :: string

definition Listen :: "listen_results \<Rightarrow> MListen \<Rightarrow> bool \<times> int list \<times> MListen" where
  "Listen r l = (let sock = lr_socket r in
     if sock < 0 then (False, [], l)
     else if lr_bind r < 0 then (False, [sock], l)
     else if lr_listen r < 0 then (False, [sock], l)
     else (True, [], l))"

definition Socket :: "MListen \<Rightarrow> int" where
  "Socket l = ml_sock l"

section \<open>MEpollEvent\<close>

record MEpollEvent =
  me_epollfd :: int

definition Create :: "int \<Rightarrow> MEpollEvent \<Rightarrow> bool \<times> MEpollEvent" where
  "Create result e = (let e = e\<lparr>me_epollfd := result\<rparr> in if me_epollfd e = - 1 then (False, e) else (True, e))"

section \<open>Signals and the event loop\<close>

definition SIGUSR1 :: int where
  "SIGUSR1 = 10"

definition SIGUSR2 :: int where
  "SIGUSR2 = 12"

text \<open>The handler of \<open>SIGUSR1\<close> only prints and frees its argument.\<close>

definition dowork :: "'u pb_runtime \<Rightarrow> int \<Rightarrow> int \<Rightarrow> int \<Rightarrow> mg_server \<Rightarrow> mg_server option" where
  "dowork rt garbage sig sival_int sv =
     (if sig = SIGUSR1 then Some sv
      else if sig = SIGUSR2 then recv_run rt garbage sival_int sv
      else Some sv)"

text \<open>
  \<open>accept_run\<close>: the results of \<open>epoll_create\<close> and of adding the listening socket, then the events. The
  flag tells whether the function returned.
\<close>

definition accept_run :: "'u pb_runtime \<Rightarrow> int \<Rightarrow> int \<Rightarrow> int \<Rightarrow> ep_event list \<Rightarrow> mg_server \<Rightarrow> (bool \<times> mg_server) option" where
  "accept_run rt garbage epfd ctl evs sv =
     (if epfd < 0 then Some (True, sv)
      else if ctl = - 1 then Some (True, sv\<lparr>ms_sys := (ms_sys sv)\<lparr>sy_closed := sy_closed (ms_sys sv) @ [epfd]\<rparr>\<rparr>)
      else accept_events rt garbage evs sv)"

section \<open>Resource limits\<close>

text \<open>
  \<open>set_multi_env\<close>: the results of the two \<open>setrlimit\<close> calls and the soft limits that \<open>getrlimit\<close> then
  reports; \<^const>\<open>False\<close> is \<open>exit(0)\<close>.
\<close>

definition set_multi_env :: "int \<Rightarrow> int \<Rightarrow> int \<Rightarrow> int \<Rightarrow> bool" where
  "set_multi_env set_stack set_nofile get_stack get_nofile =
     (if set_stack \<noteq> 0 then False
      else if set_nofile \<noteq> 0 then False
      else if get_stack \<noteq> 1024 then False
      else if get_nofile \<noteq> 1000000 then False
      else True)"

section \<open>The supervisor\<close>

text \<open>
  One round of \<open>watch_dog\<close>. \<open>forks\<close> gives the result of \<open>fork\<close> for the next calls, \<open>reaped\<close> the
  result of \<open>waitpid\<close> for a process; \<open>cpus\<close> are the keys of \<open>pool\<close> in order.
\<close>

datatype spawn_result = Parent "int \<rightharpoonup> int" | Child int | Exit

fun watch_spawn :: "(int \<Rightarrow> int) \<Rightarrow> int list \<Rightarrow> (int \<rightharpoonup> int) \<Rightarrow> spawn_result" where
  "watch_spawn forks [] pool = Parent pool"
| "watch_spawn forks (cpu # myqueue) pool =
     (if forks cpu = 0 then Child cpu
      else if forks cpu < 0 then Exit
      else watch_spawn forks myqueue (pool(cpu \<mapsto> forks cpu)))"

fun watch_reap :: "(int \<Rightarrow> int) \<Rightarrow> int list \<Rightarrow> (int \<rightharpoonup> int) \<Rightarrow> int list \<Rightarrow> (int \<rightharpoonup> int) \<times> int list" where
  "watch_reap reaped [] pool myqueue = (pool, myqueue)"
| "watch_reap reaped (cpu # cpus) pool myqueue =
     (case pool cpu of
        None \<Rightarrow> watch_reap reaped cpus pool myqueue
      | Some pid \<Rightarrow>
          if reaped pid = pid then watch_reap reaped cpus (pool(cpu \<mapsto> 0)) (myqueue @ [cpu])
          else watch_reap reaped cpus pool myqueue)"

definition watch_round :: "(int \<Rightarrow> int) \<Rightarrow> (int \<Rightarrow> int) \<Rightarrow> int list \<Rightarrow> int list \<times> (int \<rightharpoonup> int) \<Rightarrow>
    (int \<times> bool) + int list \<times> (int \<rightharpoonup> int)" where
  "watch_round forks reaped cpus st = (case watch_spawn forks (fst st) (snd st) of
      Child cpu \<Rightarrow> Inl (cpu, True)
    | Exit \<Rightarrow> Inl (0, False)
    | Parent pool \<Rightarrow> (case watch_reap reaped cpus pool [] of (pool, myqueue) \<Rightarrow> Inr (myqueue, pool)))"

definition watch_start :: "nat \<Rightarrow> int list \<times> (int \<rightharpoonup> int)" where
  "watch_start cpunum = (map int [0..<cpunum], Map.empty)"

section \<open>The supervisor restarts every worker\<close>

text \<open>Every processor either waits to be started or has a running process; none is listed twice.\<close>

definition watch_inv :: "int list \<Rightarrow> int list \<times> (int \<rightharpoonup> int) \<Rightarrow> bool" where
  "watch_inv cpus st \<longleftrightarrow> distinct (fst st) \<and> set (fst st) \<subseteq> set cpus \<and> dom (snd st) \<subseteq> set cpus \<and>
     (\<forall>cpu\<in>set cpus. cpu \<notin> set (fst st) \<longrightarrow> (\<exists>pid>0. snd st cpu = Some pid))"

lemma watch_spawn_pool:
  "watch_spawn forks q pool = Parent pool' \<Longrightarrow> (\<forall>cpu\<in>set q. forks cpu > 0) \<and>
     pool' = (\<lambda>cpu. if cpu \<in> set q then Some (forks cpu) else pool cpu)"
proof (induction q arbitrary: pool)
  case (Cons c q)
  then show ?case by (fastforce split: if_splits)
qed simp

lemma watch_reap_result:
  "distinct cpus \<Longrightarrow> watch_reap reaped cpus pool q = (pool', q') \<Longrightarrow>
   q' = q @ filter (\<lambda>cpu. \<exists>pid. pool cpu = Some pid \<and> reaped pid = pid) cpus \<and>
   pool' = (\<lambda>cpu. if cpu \<in> set cpus \<and> (\<exists>pid. pool cpu = Some pid \<and> reaped pid = pid) then Some 0 else pool cpu)"
proof (induction cpus arbitrary: pool q)
  case (Cons c cpus)
  show ?case
  proof (cases "\<exists>pid. pool c = Some pid \<and> reaped pid = pid")
    case True
    then have "watch_reap reaped cpus (pool(c \<mapsto> 0)) (q @ [c]) = (pool', q')" using Cons.prems by auto
    from Cons.IH [OF _ this] Cons.prems(1) have ih:
      "q' = (q @ [c]) @ filter (\<lambda>cpu. \<exists>pid. (pool(c \<mapsto> 0)) cpu = Some pid \<and> reaped pid = pid) cpus"
      "pool' = (\<lambda>cpu. if cpu \<in> set cpus \<and> (\<exists>pid. (pool(c \<mapsto> 0)) cpu = Some pid \<and> reaped pid = pid) then Some 0
        else (pool(c \<mapsto> 0)) cpu)"
      by auto
    have "filter (\<lambda>cpu. \<exists>pid. (pool(c \<mapsto> 0)) cpu = Some pid \<and> reaped pid = pid) cpus =
        filter (\<lambda>cpu. \<exists>pid. pool cpu = Some pid \<and> reaped pid = pid) cpus"
      using Cons.prems(1) by (auto intro!: filter_cong)
    then show ?thesis using ih Cons.prems(1) True by (auto simp: fun_eq_iff)
  next
    case False
    then have "watch_reap reaped cpus pool q = (pool', q')" using Cons.prems by (auto split: option.splits)
    then show ?thesis using Cons.IH [of pool q] Cons.prems(1) False by (auto simp: fun_eq_iff)
  qed
qed simp

text \<open>
  C21: The supervisor loses no processor: in every round in which it neither becomes a worker nor exits,
  each queued processor gets a process, exactly the processors whose process ended are queued again, and the
  invariant that every processor is queued once or has a process is kept.
\<close>

theorem watch_dog_round:
  assumes "distinct cpus" "watch_inv cpus st" "watch_round forks reaped cpus st = Inr st'"
  shows "watch_inv cpus st' \<and> (\<forall>cpu\<in>set (fst st). forks cpu > 0) \<and>
    (\<forall>cpu\<in>set cpus. cpu \<in> set (fst st') \<longleftrightarrow>
      (let pid = (if cpu \<in> set (fst st) then forks cpu else the (snd st cpu)) in reaped pid = pid))"
proof -
  obtain pool where p: "watch_spawn forks (fst st) (snd st) = Parent pool"
    using assms(3) by (auto simp: watch_round_def split: spawn_result.splits)
  obtain pool' q' where r: "watch_reap reaped cpus pool [] = (pool', q')" "st' = (q', pool')"
    using assms(3) p by (auto simp: watch_round_def split: prod.splits)
  note sp = watch_spawn_pool [OF p] and re = watch_reap_result [OF assms(1) r(1)]
  have pool: "\<exists>pid>0. pool cpu = Some pid" if "cpu \<in> set cpus" for cpu
    using sp assms(2) that by (auto simp: watch_inv_def)
  have the_pool: "pool cpu = Some (if cpu \<in> set (fst st) then forks cpu else the (snd st cpu))" if "cpu \<in> set cpus" for cpu
    using sp assms(2) that by (auto simp: watch_inv_def)
  have dom: "pool cpu = None" if "cpu \<notin> set cpus" for cpu
    using sp assms(2) that by (auto simp: watch_inv_def dom_def)
  have "watch_inv cpus (q', pool')"
    unfolding watch_inv_def fst_conv snd_conv
  proof (intro conjI ballI impI)
    show "distinct q'" "set q' \<subseteq> set cpus" using re assms(1) by auto
    show "dom pool' \<subseteq> set cpus"
    proof
      fix cpu assume "cpu \<in> dom pool'"
      then show "cpu \<in> set cpus" using re dom [of cpu] by (cases "cpu \<in> set cpus") (auto simp: dom_def)
    qed
    fix cpu assume "cpu \<in> set cpus" "cpu \<notin> set q'"
    then show "\<exists>pid>0. pool' cpu = Some pid" using re pool by auto
  qed
  then have "watch_inv cpus st'" using r(2) by simp
  then show ?thesis using sp re r(2) the_pool by (simp add: Let_def)
qed

theorem watch_dog_round_witness:
  "watch_inv [0, 1] (watch_start 2) \<and>
   (\<exists>st'. watch_round (\<lambda>c. c + 100) (\<lambda>p. if p = 101 then 101 else 0) [0, 1] (watch_start 2) = Inr st' \<and>
     fst st' = [1] \<and> watch_inv [0, 1] st')"
proof -
  let ?f = "\<lambda>c. c + (100 :: int)" and ?r = "\<lambda>p. if p = 101 then 101 else (0 :: int)"
  have i: "watch_inv [0, 1] (watch_start 2)" by (simp add: watch_inv_def watch_start_def numeral_2_eq_2)
  obtain st' where s: "watch_round ?f ?r [0, 1] (watch_start 2) = Inr st'" "fst st' = [1]"
    by (simp add: watch_round_def watch_start_def numeral_2_eq_2)
  show ?thesis using watch_dog_round [OF _ i s(1)] i s by auto
qed

section \<open>The table of connections\<close>

text \<open>
  The table and the connection objects between two events: every entry names an existing object
  with that descriptor, and every object is in the table under its descriptor or has a parser.
\<close>

definition conn_inv :: "mg_server \<Rightarrow> bool" where
  "conn_inv sv \<longleftrightarrow>
     (\<forall>fd c. ms_conns sv fd = Some c \<longrightarrow> (\<exists>conn. ms_heap sv c = Some conn \<and> mc_fd conn = fd)) \<and>
     (\<forall>c conn. ms_heap sv c = Some conn \<longrightarrow> c < ms_next sv \<and> (ms_conns sv (mc_fd conn) = Some c \<or> mc_parser conn \<noteq> None))"

text \<open>
  What a handler does to connection \<open>c\<close> on descriptor \<open>fd\<close> while it holds it: it touches no other object,
  keeps the descriptor and never takes the parser away; it closes at most this descriptor, and the
  entry leaves the table exactly when it does.
\<close>

definition runs :: "int \<Rightarrow> conn_id \<Rightarrow> mg_server \<Rightarrow> mg_server \<Rightarrow> bool" where
  "runs fd c sv sv' \<longleftrightarrow> ms_next sv' = ms_next sv \<and> (\<forall>x. x \<noteq> c \<longrightarrow> ms_heap sv' x = ms_heap sv x) \<and>
     (\<exists>conn conn'. ms_heap sv c = Some conn \<and> mc_fd conn = fd \<and> ms_heap sv' c = Some conn' \<and> mc_fd conn' = fd \<and>
        (mc_parser conn \<noteq> None \<longrightarrow> mc_parser conn' \<noteq> None)) \<and>
     (\<exists>n. sy_closed (ms_sys sv') = sy_closed (ms_sys sv) @ replicate n fd \<and>
        ms_conns sv' = (if n = 0 then ms_conns sv else (ms_conns sv)(fd := None)))"

named_theorems runs_intros

lemma runsE:
  assumes "runs fd c sv sv'"
  obtains conn conn' n where "ms_heap sv c = Some conn" "mc_fd conn = fd" "ms_heap sv' c = Some conn'" "mc_fd conn' = fd"
    "mc_parser conn \<noteq> None \<longrightarrow> mc_parser conn' \<noteq> None"
    "sy_closed (ms_sys sv') = sy_closed (ms_sys sv) @ replicate n fd"
    "ms_conns sv' = (if n = 0 then ms_conns sv else (ms_conns sv)(fd := None))"
    "ms_next sv' = ms_next sv" "\<forall>x. x \<noteq> c \<longrightarrow> ms_heap sv' x = ms_heap sv x"
  using assms unfolding runs_def by (elim conjE exE) (rule that)

lemma runsI:
  assumes "ms_heap sv c = Some conn" "mc_fd conn = fd" "ms_heap sv' c = Some conn'" "mc_fd conn' = fd"
    "mc_parser conn \<noteq> None \<longrightarrow> mc_parser conn' \<noteq> None"
    "sy_closed (ms_sys sv') = sy_closed (ms_sys sv) @ replicate n fd"
    "ms_conns sv' = (if n = 0 then ms_conns sv else (ms_conns sv)(fd := None))"
    "ms_next sv' = ms_next sv" "\<forall>x. x \<noteq> c \<longrightarrow> ms_heap sv' x = ms_heap sv x"
  shows "runs fd c sv sv'"
  unfolding runs_def using assms by blast

lemma runs_refl [runs_intros]: "ms_heap sv c = Some conn \<Longrightarrow> mc_fd conn = fd \<Longrightarrow> runs fd c sv sv"
  by (rule runsI [where n = 0 and conn = conn and conn' = conn]) simp_all

lemma runs_conn: "runs fd c a b \<Longrightarrow> \<exists>conn. ms_heap b c = Some conn \<and> mc_fd conn = fd"
  by (erule runsE) simp

lemma runs_trans:
  assumes "runs fd c x y" "runs fd c y z"
  shows "runs fd c x z"
proof -
  obtain p q n where 1: "ms_heap x c = Some p" "mc_fd p = fd" "ms_heap y c = Some q" "mc_parser p \<noteq> None \<longrightarrow> mc_parser q \<noteq> None"
    "sy_closed (ms_sys y) = sy_closed (ms_sys x) @ replicate n fd"
    "ms_conns y = (if n = 0 then ms_conns x else (ms_conns x)(fd := None))"
    "ms_next y = ms_next x" "\<forall>i. i \<noteq> c \<longrightarrow> ms_heap y i = ms_heap x i"
    by (rule runsE [OF assms(1)])
  obtain q' r k where 2: "ms_heap y c = Some q'" "ms_heap z c = Some r" "mc_fd r = fd" "mc_parser q' \<noteq> None \<longrightarrow> mc_parser r \<noteq> None"
    "sy_closed (ms_sys z) = sy_closed (ms_sys y) @ replicate k fd"
    "ms_conns z = (if k = 0 then ms_conns y else (ms_conns y)(fd := None))"
    "ms_next z = ms_next y" "\<forall>i. i \<noteq> c \<longrightarrow> ms_heap z i = ms_heap y i"
    by (rule runsE [OF assms(2)])
  have "sy_closed (ms_sys z) = sy_closed (ms_sys x) @ replicate (n + k) fd" unfolding 2(5) 1(5) by (simp add: replicate_add)
  moreover have "ms_conns z = (if n + k = 0 then ms_conns x else (ms_conns x)(fd := None))" unfolding 2(6) 1(6) by simp
  moreover have "ms_next z = ms_next x" "\<forall>i. i \<noteq> c \<longrightarrow> ms_heap z i = ms_heap x i" using 1(7,8) 2(7,8) by simp_all
  moreover have "mc_parser p \<noteq> None \<longrightarrow> mc_parser r \<noteq> None" using 1(3,4) 2(1,4) by simp
  ultimately show ?thesis by (intro runsI [OF 1(1,2) 2(2,3)])
qed

lemma runs_close [runs_intros]:
  assumes "runs fd c a sv"
  shows "runs fd c a (CloseConn fd sv)"
proof -
  obtain p q n where r: "ms_heap a c = Some p" "mc_fd p = fd" "ms_heap sv c = Some q" "mc_fd q = fd"
    "mc_parser p \<noteq> None \<longrightarrow> mc_parser q \<noteq> None" "sy_closed (ms_sys sv) = sy_closed (ms_sys a) @ replicate n fd"
    "ms_conns sv = (if n = 0 then ms_conns a else (ms_conns a)(fd := None))"
    "ms_next sv = ms_next a" "\<forall>x. x \<noteq> c \<longrightarrow> ms_heap sv x = ms_heap a x"
    by (rule runsE [OF assms])
  have "ms_conns (CloseConn fd sv) = (ms_conns a)(fd := None)" by (simp add: CloseConn_def r(7))
  moreover have "sy_closed (ms_sys (CloseConn fd sv)) = sy_closed (ms_sys a) @ replicate (Suc n) fd"
    by (simp add: CloseConn_def r(6) replicate_append_same)
  ultimately show ?thesis
    using r by (intro runsI [where n = "Suc n", OF r(1,2), of _ q]) (simp_all add: CloseConn_def)
qed

lemma runs_fields [runs_intros]:
  "runs fd c a sv \<Longrightarrow> runs fd c a (sv\<lparr>ms_bufs := s\<rparr>)"
  "runs fd c a sv \<Longrightarrow> runs fd c a (give_back b sv)"
  "runs fd c a sv \<Longrightarrow> runs fd c a (delete_requests reqs sv)"
  by (simp_all add: runs_def give_back_def delete_requests_def)

lemma runs_sys [runs_intros]:
  "runs fd c a sv \<Longrightarrow> sy_closed y = sy_closed (ms_sys sv) \<Longrightarrow> runs fd c a (sv\<lparr>ms_sys := y\<rparr>)"
  by (simp add: runs_def)

lemma sys_keeps_closed:
  "sys_recv fd n y = (r, y') \<Longrightarrow> sy_closed y' = sy_closed y"
  "sys_send fd d y = (t, y') \<Longrightarrow> sy_closed y' = sy_closed y"
  by (auto simp: sys_recv_def sys_send_def split: list.splits recv_result.splits send_result.splits)

lemma put_conn_fields [simp]:
  "ms_heap (put_conn c conn sv) = (ms_heap sv)(c \<mapsto> conn)" "ms_conns (put_conn c conn sv) = ms_conns sv"
  "ms_sys (put_conn c conn sv) = ms_sys sv" "ms_next (put_conn c conn sv) = ms_next sv"
  by (simp_all add: put_conn_def)

lemma runs_put [runs_intros]:
  assumes "runs fd c a sv" "mc_fd conn' = fd"
    "\<And>conn. ms_heap sv c = Some conn \<Longrightarrow> mc_parser conn \<noteq> None \<Longrightarrow> mc_parser conn' \<noteq> None"
  shows "runs fd c a (put_conn c conn' sv)"
proof -
  obtain p q n where r: "ms_heap a c = Some p" "mc_fd p = fd" "ms_heap sv c = Some q" "mc_fd q = fd"
    "mc_parser p \<noteq> None \<longrightarrow> mc_parser q \<noteq> None" "sy_closed (ms_sys sv) = sy_closed (ms_sys a) @ replicate n fd"
    "ms_conns sv = (if n = 0 then ms_conns a else (ms_conns a)(fd := None))"
    "ms_next sv = ms_next a" "\<forall>x. x \<noteq> c \<longrightarrow> ms_heap sv x = ms_heap a x"
    by (rule runsE [OF assms(1)])
  show ?thesis
    by (rule runsI [OF r(1,2), where conn' = conn']) (use r assms(2,3) in simp_all)
qed

text \<open>What the recursive call of a handler does.\<close>

definition handler :: "int \<Rightarrow> conn_id \<Rightarrow> mg_server \<Rightarrow> mg_server \<Rightarrow> bool" where
  "handler fd c sv sv' \<longleftrightarrow> (\<forall>conn. ms_heap sv c = Some conn \<longrightarrow> mc_fd conn = fd \<longrightarrow> runs fd c sv sv')"

lemma handler_runs: "handler fd c b sv' \<Longrightarrow> runs fd c a b \<Longrightarrow> runs fd c a sv'"
  using runs_conn runs_trans unfolding handler_def by blast

lemma runs_SendBuf:
  assumes "SendBuf c sv = Some sv'"
  shows "\<forall>fd. handler fd c sv sv'"
proof (rule SendBuf.raw_induct [where P = "\<lambda>c sv sv'. \<forall>fd. handler fd c sv sv'", rotated, OF assms])
  fix f :: "conn_id \<Rightarrow> mg_server \<Rightarrow> mg_server option" and c sv sv'
  assume IH: "\<And>c sv sv'. f c sv = Some sv' \<Longrightarrow> \<forall>fd. handler fd c sv sv'"
    and step: "do {
     conn \<leftarrow> ms_heap sv c;
     (case Next (mc_send_buf conn) of
        None \<Rightarrow> Some sv
      | Some (data, sz, r) \<Rightarrow> do {
          d \<leftarrow> data_at (ms_bufs sv) data sz;
          let (ret, y) = sys_send (mc_fd conn) d (ms_sys sv);
          let sv = (put_conn c (conn\<lparr>mc_send_buf := r\<rparr>) sv)\<lparr>ms_sys := y\<rparr>;
          (case ret of
             SendErr e \<Rightarrow>
               if e = EAGAIN OR EWOULDBLOCK OR EINTR then do {
                 r \<leftarrow> BackUp sz r;
                 f c (put_conn c (conn\<lparr>mc_send_buf := r\<rparr>) sv) }
               else Some (CloseConn (mc_fd conn) sv)
           | Sent k \<Rightarrow>
               if k = 0 then Some (CloseConn (mc_fd conn) sv)
               else if int k < sz then do {
                 r \<leftarrow> BackUp (sz - int k) r;
                 f c (put_conn c (conn\<lparr>mc_send_buf := r\<rparr>) sv) }
               else do {
                 (r, s) \<leftarrow> erase_sent r (ms_bufs sv);
                 f c ((put_conn c (conn\<lparr>mc_send_buf := r\<rparr>) sv)\<lparr>ms_bufs := s\<rparr>) }) }) } = Some sv'"
  have IH': "f c b = Some sv' \<Longrightarrow> runs fd c a b \<Longrightarrow> runs fd c a sv'" for fd c a b sv'
    using IH handler_runs by blast
  show "\<forall>fd. handler fd c sv sv'"
    unfolding handler_def
  proof (intro allI impI)
    fix fd conn assume c: "ms_heap sv c = Some conn" "mc_fd conn = fd"
    show "runs fd c sv sv'"
      using step c runs_refl [OF c]
      by (auto simp: Let_def split: Option.bind_splits option.splits prod.splits send_result.splits if_splits
          intro!: runs_intros dest: sys_keeps_closed elim!: IH')
  qed
qed

lemma runs_finish:
  "finish_response c b n sv = Some sv' \<Longrightarrow> runs fd c a sv \<Longrightarrow> runs fd c a sv'"
  by (frule runs_conn)
    (auto simp: finish_response_def SendQueue_def split: if_splits Option.bind_splits intro!: runs_intros)

lemma runs_do_response:
  assumes "do_response rt c h res sv = Some sv'"
  shows "handler fd c sv sv'"
  unfolding handler_def
proof (intro allI impI)
  fix conn assume c: "ms_heap sv c = Some conn" "mc_fd conn = fd"
  show "runs fd c sv sv'"
    using assms c runs_refl [OF c]
    by (auto simp: do_response_def Let_def split: if_splits Option.bind_splits option.splits prod.splits send_result.splits
        intro!: runs_intros dest: sys_keeps_closed elim!: runs_finish)
qed

lemma runs_do_request: "do_request rt c reqs sv = Some sv' \<Longrightarrow> handler fd c sv sv'"
proof (induction reqs arbitrary: sv)
  case Nil
  then show ?case by (simp add: handler_def runs_refl)
next
  case (Cons r reqs)
  then obtain sv1 where s: "do_one_request rt c r sv = Some sv1" "do_request rt c reqs sv1 = Some sv'"
    by (auto split: Option.bind_splits)
  have "handler fd c sv sv1"
    using s(1) runs_do_response
    by (fastforce simp: do_one_request_def Let_def handler_def runs_refl split: if_splits Option.bind_splits prod.splits)
  then show ?case using Cons.IH [OF s(2)] handler_runs unfolding handler_def by blast
qed

lemma parse_keeps_parser:
  assumes "parse_connection garbage b len conn s = Some R"
  shows "mc_parser conn \<noteq> None \<longrightarrow> mc_parser (fst (snd R)) \<noteq> None"
proof -
  let ?P = "\<lambda>(garbage :: int) (b :: buf_id) (len :: int) conn (s :: buf_store) (R :: MRequest list \<times> MConnection \<times> buf_store).
    mc_parser conn \<noteq> None \<longrightarrow> mc_parser (fst (snd R)) \<noteq> None"
  show ?thesis
    by (rule parse_connection.raw_induct [where P = ?P, rotated, OF assms])
      (fastforce simp: Let_def split: if_splits parse_type.splits Option.bind_splits)
qed

lemma receive_keeps_parser:
  "receive garbage b d conn s = Some (reqs, conn', s') \<Longrightarrow> mc_parser conn \<noteq> None \<Longrightarrow> mc_parser conn' \<noteq> None"
  using parse_keeps_parser by (fastforce simp: receive_def split: Option.bind_splits)

text \<open>One round of the loop of \<open>recv_run\<close>.\<close>

lemma runs_round:
  assumes "ms_heap sv c = Some conn" "mc_fd conn = fd" "receive garbage b d conn s = Some (reqs, conn', s')"
    and "sy_closed y = sy_closed (ms_sys sv)"
    and "do_request rt c reqs ((put_conn c conn' (sv\<lparr>ms_bufs := s, ms_sys := y\<rparr>))\<lparr>ms_bufs := s'\<rparr>) = Some sv'"
  shows "runs fd c sv (delete_requests reqs sv')"
proof -
  have "runs fd c sv ((put_conn c conn' (sv\<lparr>ms_bufs := s, ms_sys := y\<rparr>))\<lparr>ms_bufs := s'\<rparr>)"
    using assms(1,2,4) receive_keeps_fd [OF assms(3)] receive_keeps_parser [OF assms(3)]
    by (intro runs_intros runs_refl [OF assms(1,2)]) auto
  with runs_do_request [OF assms(5)] show ?thesis
    by (intro runs_intros) (rule handler_runs)
qed

lemma runs_recv_loop:
  assumes "recv_loop rt garbage fd c sv = Some sv'"
  shows "handler fd c sv sv'"
proof -
  let ?P = "\<lambda>(rt :: 'a pb_runtime) (garbage :: int) (fd :: int) (c :: conn_id). handler fd c"
  show ?thesis
    apply (rule recv_loop.raw_induct [where P = ?P, rotated, OF assms])
    apply (auto simp: handler_def Let_def dest!: sys_keeps_closed
        split: Option.bind_splits option.splits prod.splits recv_result.splits if_splits
        intro!: runs_intros)
    subgoal premises prems
      by (rule handler_runs [OF prems(1) [OF prems(8), folded handler_def] runs_round [OF prems(4) refl prems(5,9,7)]])
    subgoal premises prems
      by (rule handler_runs [OF prems(1) [OF prems(5), folded handler_def]])
        (intro runs_intros runs_refl [OF prems(7) refl], simp add: prems(6))
    done
qed

text \<open>Letting go of the connection restores the invariant.\<close>

lemma runs_release:
  assumes "conn_inv sv" "ms_conns sv fd = Some c" "runs fd c sv sv'"
  shows "conn_inv (release c sv') \<and>
    (\<exists>n. sy_closed (ms_sys sv') = sy_closed (ms_sys sv) @ replicate n fd \<and>
      ms_conns sv' = (if n = 0 then ms_conns sv else (ms_conns sv)(fd := None))) \<and>
    (\<forall>x. x \<noteq> c \<longrightarrow> ms_heap (release c sv') x = ms_heap sv x)"
proof -
  obtain p q n where r: "ms_heap sv c = Some p" "mc_fd p = fd" "ms_heap sv' c = Some q" "mc_fd q = fd"
    "mc_parser p \<noteq> None \<longrightarrow> mc_parser q \<noteq> None" "sy_closed (ms_sys sv') = sy_closed (ms_sys sv) @ replicate n fd"
    "ms_conns sv' = (if n = 0 then ms_conns sv else (ms_conns sv)(fd := None))"
    "ms_next sv' = ms_next sv" "\<forall>x. x \<noteq> c \<longrightarrow> ms_heap sv' x = ms_heap sv x"
    by (rule runsE [OF assms(3)])
  have other: "c' \<noteq> c" if "ms_conns sv fd' = Some c'" "fd' \<noteq> fd" for fd' c'
    using assms(1) that r(1,2) unfolding conn_inv_def by force
  let ?gone = "ms_conns sv' fd \<noteq> Some c \<and> mc_parser q = None"
  have h: "ms_heap (release c sv') = (if ?gone then (ms_heap sv')(c := None) else ms_heap sv')"
    using r(3,4) by (simp add: release_def)
  have nx: "ms_next (release c sv') = ms_next sv" using r(8) by (simp add: release_def split: option.split)
  have "\<exists>conn. ms_heap (release c sv') c' = Some conn \<and> mc_fd conn = fd'" if "ms_conns sv' fd' = Some c'" for fd' c'
  proof (cases "fd' = fd")
    case True
    then have "c' = c" "ms_conns sv' fd = Some c" using that r(7) assms(2) by (auto split: if_splits)
    then show ?thesis using True h r(3,4) by simp
  next
    case False
    then have "ms_conns sv fd' = Some c'" using that r(7) by (auto split: if_splits)
    then show ?thesis using other [of fd' c'] False h r(9) assms(1) by (auto simp: conn_inv_def)
  qed
  moreover have "x < ms_next sv \<and> (ms_conns sv' (mc_fd conn) = Some x \<or> mc_parser conn \<noteq> None)"
    if "ms_heap (release c sv') x = Some conn" for x conn
  proof (cases "x = c")
    case True
    then show ?thesis using that h r(1,3,4) assms(1) by (auto simp: conn_inv_def split: if_splits)
  next
    case False
    then have x: "ms_heap sv x = Some conn" using that h r(9) by (auto split: if_splits)
    then have inv: "x < ms_next sv" "ms_conns sv (mc_fd conn) = Some x \<or> mc_parser conn \<noteq> None"
      using assms(1) by (auto simp: conn_inv_def)
    have "mc_fd conn \<noteq> fd" if "ms_conns sv (mc_fd conn) = Some x" using that assms(2) False by auto
    then show ?thesis using inv r(7) by auto
  qed
  ultimately have "conn_inv (release c sv')" using nx by (simp add: conn_inv_def)
  moreover have "\<forall>x. x \<noteq> c \<longrightarrow> ms_heap (release c sv') x = ms_heap sv x" using h r(9) by simp
  ultimately show ?thesis using r(6,7) by blast
qed

text \<open>
  The change that one handler makes: it closes the descriptor \<open>n\<close> times, removes its entry if \<open>n\<close> is not 0,
  and touches no object but the one that the table had under the descriptor.
\<close>

definition closes :: "nat \<Rightarrow> int \<Rightarrow> mg_server \<Rightarrow> mg_server \<Rightarrow> bool" where
  "closes n fd sv sv' \<longleftrightarrow> sy_closed (ms_sys sv') = sy_closed (ms_sys sv) @ replicate n fd \<and>
     ms_conns sv' = (if n = 0 then ms_conns sv else (ms_conns sv)(fd := None)) \<and>
     (\<forall>c. ms_conns sv fd \<noteq> Some c \<longrightarrow> ms_heap sv' c = ms_heap sv c)"

lemma closes_trans:
  assumes "closes n fd x y" "closes k fd y z"
  shows "closes (n + k) fd x z"
proof -
  have "sy_closed (ms_sys z) = sy_closed (ms_sys x) @ replicate (n + k) fd"
    using assms by (simp add: closes_def replicate_add)
  moreover have "ms_conns z = (if n + k = 0 then ms_conns x else (ms_conns x)(fd := None))"
    using assms by (simp add: closes_def)
  moreover have "\<forall>c. ms_conns x fd \<noteq> Some c \<longrightarrow> ms_heap z c = ms_heap x c"
    using assms by (auto simp: closes_def split: if_splits)
  ultimately show ?thesis unfolding closes_def by blast
qed

lemma closes_CloseConn:
  assumes "conn_inv sv" "ms_conns sv fd = None"
  shows "closes 1 fd sv (CloseConn fd sv)" "conn_inv (CloseConn fd sv)"
proof -
  have "(ms_conns sv)(fd := None) = ms_conns sv" using assms(2) by (simp add: fun_upd_idem)
  then show "closes 1 fd sv (CloseConn fd sv)" "conn_inv (CloseConn fd sv)"
    using assms(1) by (simp_all add: closes_def CloseConn_def conn_inv_def)
qed

lemma closes_released:
  assumes "conn_inv sv" "ms_conns sv fd = Some c" "handler fd c sv sv'"
  shows "\<exists>n. closes n fd sv (release c sv') \<and> conn_inv (release c sv')"
proof -
  obtain conn where "ms_heap sv c = Some conn" "mc_fd conn = fd" using assms(1,2) by (auto simp: conn_inv_def)
  then have "runs fd c sv sv'" using assms(3) by (simp add: handler_def)
  from runs_release [OF assms(1,2) this] assms(2) show ?thesis by (auto simp: closes_def)
qed

lemma send_run_closes:
  assumes "send_run fd sv = Some sv'" "conn_inv sv"
  shows "\<exists>n. closes n fd sv sv' \<and> conn_inv sv' \<and> (ms_conns sv fd = None \<longrightarrow> n = 1)"
proof (cases "ms_conns sv fd")
  case None
  then show ?thesis
    using assms closes_CloseConn [OF assms(2) None] by (auto simp: send_run_def GetConn_def intro: exI [of _ 1])
next
  case (Some c)
  then obtain sv1 where s: "SendBuf c sv = Some sv1" "sv' = release c sv1"
    using assms(1) by (auto simp: send_run_def GetConn_def)
  have "handler fd c sv sv1" using runs_SendBuf [OF s(1)] by blast
  from closes_released [OF assms(2) Some this] Some s(2) show ?thesis by auto
qed

text \<open>The end of the stream closes the connection.\<close>

lemma recv_loop_eof:
  assumes "recv_loop rt garbage fd c sv = Some sv'" "sy_recv (ms_sys sv) fd = Recv [] # rs"
  shows "sy_closed (ms_sys sv') = sy_closed (ms_sys sv) @ [fd]"
proof -
  have eof: "\<exists>y. sys_recv fd n (ms_sys sv) = (Recv [], y) \<and> sy_closed y = sy_closed (ms_sys sv)" for n
    using assms(2) by (simp add: sys_recv_def)
  obtain bo s where al: "allocate_retry 3 (ms_bufs sv) = (bo, s)" by fastforce
  show ?thesis
  proof (cases bo)
    case None
    then show ?thesis using assms(1) al by (subst (asm) recv_loop.simps) (auto simp: CloseConn_def)
  next
    case (Some b)
    then obtain m where m: "bs_bufs s b = Some m"
      using assms(1) al by (subst (asm) recv_loop.simps) (auto split: Option.bind_splits)
    obtain y where y: "sys_recv fd (Remain m) (ms_sys sv) = (Recv [], y)" "sy_closed y = sy_closed (ms_sys sv)"
      using eof by blast
    have "sv' = CloseConn fd (give_back b (sv\<lparr>ms_bufs := s, ms_sys := y\<rparr>))"
      using assms(1) al Some m y(1) by (subst (asm) recv_loop.simps) simp
    then show ?thesis using y(2) by (simp add: CloseConn_def give_back_def)
  qed
qed

lemma recv_run_closes:
  assumes "recv_run rt garbage fd sv = Some sv'" "conn_inv sv"
  shows "\<exists>n. closes n fd sv sv' \<and> conn_inv sv' \<and> (ms_conns sv fd = None \<longrightarrow> n = 1) \<and>
    ((\<exists>rs. sy_recv (ms_sys sv) fd = Recv [] # rs) \<longrightarrow> 0 < n)"
proof (cases "ms_conns sv fd")
  case None
  then show ?thesis
    using assms closes_CloseConn [OF assms(2) None] by (auto simp: recv_run_def GetConn_def intro: exI [of _ 1])
next
  case (Some c)
  then obtain sv1 where s: "recv_loop rt garbage fd c sv = Some sv1" "sv' = release c sv1"
    using assms(1) by (auto simp: recv_run_def GetConn_def)
  obtain n where n: "closes n fd sv sv'" "conn_inv sv'"
    using closes_released [OF assms(2) Some runs_recv_loop [OF s(1)]] s(2) by blast
  have "0 < n" if "sy_recv (ms_sys sv) fd = Recv [] # rs" for rs
    using recv_loop_eof [OF s(1) that] n(1) s(2) by (cases n) (simp_all add: closes_def)
  then show ?thesis using n Some by auto
qed

lemma client_event_closes:
  assumes "handle_event rt garbage (ClientReady fd readable writable) sv = Some (returned, sv')" "conn_inv sv"
  shows "\<exists>n. closes n fd sv sv' \<and> conn_inv sv' \<and>
    (ms_conns sv fd = None \<longrightarrow> n = of_bool readable + of_bool writable) \<and>
    (readable \<and> (\<exists>rs. sy_recv (ms_sys sv) fd = Recv [] # rs) \<longrightarrow> 0 < n)"
proof -
  obtain sv1 where s: "(if readable then recv_run rt garbage fd sv else Some sv) = Some sv1"
      "(if writable then send_run fd sv1 else Some sv1) = Some sv'"
    using assms(1) by (auto simp: handle_event_def split: Option.bind_splits)
  have stay: "closes 0 fd x x" for x by (simp add: closes_def)
  obtain n where n: "closes n fd sv sv1" "conn_inv sv1" "ms_conns sv fd = None \<longrightarrow> n = of_bool readable"
      "readable \<and> (\<exists>rs. sy_recv (ms_sys sv) fd = Recv [] # rs) \<longrightarrow> 0 < n"
    using s(1) recv_run_closes [OF _ assms(2), of rt garbage fd sv1] stay [of sv] assms(2)
    by (cases readable) auto
  obtain k where k: "closes k fd sv1 sv'" "conn_inv sv'" "ms_conns sv1 fd = None \<longrightarrow> k = of_bool writable"
    using s(2) send_run_closes [OF _ n(2), of fd sv'] stay [of sv1] n(2) by (cases writable) auto
  have "ms_conns sv1 fd = None" if "ms_conns sv fd = None" using n(1) that by (simp add: closes_def)
  then show ?thesis using closes_trans [OF n(1) k(1)] n(3,4) k(2,3) by (intro exI [of _ "n + k"]) auto
qed

lemma conn_inv_sys: "conn_inv (sv\<lparr>ms_sys := y\<rparr>) = conn_inv sv"
  by (simp add: conn_inv_def)

lemma listen_event_inv:
  assumes "handle_event rt garbage (ListenReady acc ctl) sv = Some (returned, sv')" "conn_inv sv"
  shows "conn_inv sv' \<and> ms_heap sv (ms_next sv) = None"
proof -
  have fresh: "ms_heap sv (ms_next sv) = None"
  proof (cases "ms_heap sv (ms_next sv)")
    case (Some conn)
    then have "ms_next sv < ms_next sv" using assms(2) unfolding conn_inv_def by blast
    then show ?thesis by simp
  qed
  have "conn_inv (CreateConn fd ip port sv)" for fd ip port
  proof (cases "ms_conns sv fd")
    case None
    have "x < ms_next sv \<and> (ms_conns sv (mc_fd conn) = Some x \<or> mc_parser conn \<noteq> None)" if "ms_heap sv x = Some conn" for x conn
      using assms(2) that unfolding conn_inv_def by blast
    moreover have "\<exists>conn. ms_heap sv x = Some conn \<and> mc_fd conn = fd'" if "ms_conns sv fd' = Some x" for fd' x
      using assms(2) that unfolding conn_inv_def by blast
    ultimately show ?thesis
      using None fresh by (fastforce simp: conn_inv_def CreateConn_def MConnection_new_def less_Suc_eq)
  qed (use assms(2) in \<open>simp add: CreateConn_def\<close>)
  then show ?thesis
    using assms fresh by (auto simp: handle_event_def conn_inv_sys split: option.splits prod.splits if_splits)
qed

lemma handle_event_inv:
  assumes "handle_event rt garbage ev sv = Some (returned, sv')" "conn_inv sv"
  shows "conn_inv sv'"
proof (cases ev)
  case (ListenReady acc ctl)
  then show ?thesis using listen_event_inv assms by blast
next
  case (ClientReady fd readable writable)
  then show ?thesis using client_event_closes assms by blast
qed

lemma new_manager_inv: "conn_inv (MConnManager_new epfd s y)"
  by (simp add: conn_inv_def MConnManager_new_def)

lemma accept_events_inv:
  "accept_events rt garbage evs sv = Some (returned, sv') \<Longrightarrow> conn_inv sv \<Longrightarrow> conn_inv sv'"
proof (induction evs arbitrary: sv)
  case (Cons ev evs)
  then obtain r sv1 where s: "handle_event rt garbage ev sv = Some (r, sv1)"
      "if r then returned \<and> sv' = sv1 else accept_events rt garbage evs sv1 = Some (returned, sv')"
    by (auto split: Option.bind_splits if_splits)
  from handle_event_inv [OF s(1) Cons.prems(2)] show ?case using Cons.IH [of sv1] s(2) by (auto split: if_splits)
qed simp

text \<open>
  C6: Whatever events, chunks, errors and system call results have arrived, the next event changes the
  table of connections exactly as follows. A new client gets a fresh object under its descriptor; if the descriptor
  is already in the table nothing changes. A client event closes at most its own descriptor; the entry of that descriptor
  leaves the table if and only if it is closed, all other entries stay, and no object but the one of
  this entry is touched. A descriptor that is not in the table is closed by each of the two handlers, and
  the end of the stream closes the connection. Afterwards every entry names an existing object
  with that descriptor, and every object that still exists is in the table or has a parser: a
  closed connection is destroyed, except that one with a parser is never destroyed.
\<close>

theorem rpc_connection_table:
  assumes "accept_events rt garbage evs (MConnManager_new epfd s y) = Some (returned, sv)"
    and "handle_event rt garbage ev sv = Some (returned', sv')"
  shows "(case ev of
      ListenReady None ctl \<Rightarrow> sv' = sv
    | ListenReady (Some (fd, ip, port)) ctl \<Rightarrow>
        if ctl < 0 then ms_conns sv' = ms_conns sv \<and> ms_heap sv' = ms_heap sv \<and>
          sy_closed (ms_sys sv') = sy_closed (ms_sys sv) @ [fd]
        else if ms_conns sv fd = None then ms_heap sv (ms_next sv) = None \<and>
          ms_conns sv' = (ms_conns sv)(fd \<mapsto> ms_next sv) \<and>
          ms_heap sv' = (ms_heap sv)(ms_next sv \<mapsto> MConnection_new fd ip port)
        else sv' = sv
    | ClientReady fd readable writable \<Rightarrow> \<exists>n.
        sy_closed (ms_sys sv') = sy_closed (ms_sys sv) @ replicate n fd \<and>
        ms_conns sv' = (if n = 0 then ms_conns sv else (ms_conns sv)(fd := None)) \<and>
        (\<forall>c. ms_conns sv fd \<noteq> Some c \<longrightarrow> ms_heap sv' c = ms_heap sv c) \<and>
        (ms_conns sv fd = None \<longrightarrow> n = of_bool readable + of_bool writable) \<and>
        (readable \<and> (\<exists>rs. sy_recv (ms_sys sv) fd = Recv [] # rs) \<longrightarrow> 0 < n)) \<and>
    (\<forall>fd c. ms_conns sv' fd = Some c \<longrightarrow> (\<exists>conn. ms_heap sv' c = Some conn \<and> mc_fd conn = fd)) \<and>
    (\<forall>c conn. ms_heap sv' c = Some conn \<longrightarrow> ms_conns sv' (mc_fd conn) = Some c \<or> mc_parser conn \<noteq> None)"
proof -
  have inv: "conn_inv sv" using accept_events_inv [OF assms(1) new_manager_inv] .
  have "conn_inv sv'" by (rule handle_event_inv [OF assms(2) inv])
  then have inv': "(\<forall>fd c. ms_conns sv' fd = Some c \<longrightarrow> (\<exists>conn. ms_heap sv' c = Some conn \<and> mc_fd conn = fd)) \<and>
      (\<forall>c conn. ms_heap sv' c = Some conn \<longrightarrow> ms_conns sv' (mc_fd conn) = Some c \<or> mc_parser conn \<noteq> None)"
    by (simp add: conn_inv_def)
  show ?thesis
  proof (cases ev)
    case (ListenReady acc ctl)
    show ?thesis
    proof (cases acc)
      case None
      then show ?thesis using assms(2) ListenReady inv' by (simp add: handle_event_def)
    next
      case (Some a)
      obtain fd ip port where a: "a = (fd, ip, port)" by (cases a)
      have "ms_heap sv (ms_next sv) = None" using listen_event_inv assms(2) ListenReady inv by blast
      then show ?thesis
        using assms(2) ListenReady Some a inv' by (auto simp: handle_event_def CreateConn_def split: if_splits option.splits)
    qed
  next
    case (ClientReady fd readable writable)
    obtain n where "sy_closed (ms_sys sv') = sy_closed (ms_sys sv) @ replicate n fd"
        "ms_conns sv' = (if n = 0 then ms_conns sv else (ms_conns sv)(fd := None))"
        "\<forall>c. ms_conns sv fd \<noteq> Some c \<longrightarrow> ms_heap sv' c = ms_heap sv c"
        "ms_conns sv fd = None \<longrightarrow> n = of_bool readable + of_bool writable"
        "readable \<and> (\<exists>rs. sy_recv (ms_sys sv) fd = Recv [] # rs) \<longrightarrow> 0 < n"
      using client_event_closes [OF assms(2) [unfolded ClientReady] inv] unfolding closes_def
      by (elim exE conjE) (rule that)
    then have "\<exists>n. sy_closed (ms_sys sv') = sy_closed (ms_sys sv) @ replicate n fd \<and>
        ms_conns sv' = (if n = 0 then ms_conns sv else (ms_conns sv)(fd := None)) \<and>
        (\<forall>c. ms_conns sv fd \<noteq> Some c \<longrightarrow> ms_heap sv' c = ms_heap sv c) \<and>
        (ms_conns sv fd = None \<longrightarrow> n = of_bool readable + of_bool writable) \<and>
        (readable \<and> (\<exists>rs. sy_recv (ms_sys sv) fd = Recv [] # rs) \<longrightarrow> 0 < n)"
      by (intro exI [of _ n] conjI)
    then show ?thesis unfolding ClientReady ep_event.case using inv' by (rule conjI)
  qed
qed

text \<open>A client connects and closes its side: its entry is gone.\<close>

theorem rpc_connection_table_witness:
  "\<exists>sv sv'. accept_events wire_runtime 0 [ListenReady (Some (5, [], 80)) 0]
     (MConnManager_new (- 1) (MBufferPool_new\<lparr>bs_pool1024 := [0, 2]\<rparr>) (ms_sys (demo_small [Recv []]))) = Some (False, sv) \<and>
     ms_conns sv 5 = Some 0 \<and> handle_event wire_runtime 0 (ClientReady 5 True False) sv = Some (False, sv') \<and>
     ms_conns sv' 5 = None"
proof -
  let ?sv = "demo_small [Recv []]"
  have a: "accept_events wire_runtime 0 [ListenReady (Some (5, [], 80)) 0]
      (MConnManager_new (- 1) (MBufferPool_new\<lparr>bs_pool1024 := [0, 2]\<rparr>) (ms_sys ?sv)) = Some (False, ?sv)"
    by (simp add: handle_event_def demo_small_def demo_server_def CreateConn_def MConnManager_new_def)
  have r: "0 \<le> Remain (MBuffer_new 1024)" by (simp add: Remain_def MBuffer_new_def)
  obtain sv' where "recv_run wire_runtime 0 5 ?sv = Some sv'"
    using rpc_recv_errors [of 5 ?sv 0 0 "[2]" "MBuffer_new 1024" 9 wire_runtime 0] r
    by (auto simp: GetConn_def demo_small_simps)
  then have h: "handle_event wire_runtime 0 (ClientReady 5 True False) ?sv = Some (False, sv')"
    by (simp add: handle_event_def)
  obtain n where "ms_conns sv' = (if n = 0 then ms_conns ?sv else (ms_conns ?sv)(5 := None))" "0 < (n :: nat)"
    using rpc_connection_table [OF a h] by (auto simp: demo_small_simps)
  then show ?thesis using a h by (auto simp: demo_small_simps)
qed

end
