(* ===== verification/Rpc_Client.thy ===== *)
theory Rpc_Client
  imports Rpc_Server
begin

text \<open>
  The client, \<open>main\<close> of \<^verbatim>\<open>gencode/mg_server/client/client.cpp\<close>, over the results of its system calls: the
  descriptor, the results of \<open>connect\<close> and \<open>send\<close>, and what \<open>recv\<close> delivered (\<^term>\<open>None\<close> when its result was
  not positive). The request it builds and the reading of the answer are in \<open>Rpc_Server\<close>. \<^term>\<open>None\<close> as the
  outcome is a request that does not fit its buffer or an answer whose lengths reach outside it. The
  outcome has the exit code, the bytes sent, the lines written to \<open>cout\<close> and the descriptors closed; the
  messages of \<open>perror\<close> on the error stream are left out.
\<close>

record client_results =
  cl_socket :: int
  cl_connect :: int
  cl_send :: int
  cl_recv :: "byte list option"

record client_outcome =
  co_exit :: int
  co_sent :: "byte list"
  co_output :: "byte list list"
  co_closed :: "int list"

definition recv_nothing :: "byte list" where
  "recv_nothing = map of_char ''recv nothing''"

definition client_main :: "'u pb_runtime \<Rightarrow> client_results \<Rightarrow> client_outcome option" where
  "client_main rt r = (let sockfd = cl_socket r in
     if sockfd = - 1 then Some \<lparr>co_exit = - 1, co_sent = [], co_output = [], co_closed = []\<rparr>
     else if cl_connect r \<noteq> 0 then Some \<lparr>co_exit = - 1, co_sent = [], co_output = [], co_closed = [sockfd]\<rparr>
     else (let buf = client_request rt in
       if 1024 < length buf then None
       else if cl_send r \<le> 0 then Some \<lparr>co_exit = 0, co_sent = [], co_output = [], co_closed = [sockfd]\<rparr>
       else (let sent = take (nat (cl_send r)) buf in
         (case cl_recv r of
            None \<Rightarrow> Some \<lparr>co_exit = 0, co_sent = sent, co_output = [recv_nothing], co_closed = [sockfd]\<rparr>
          | Some got \<Rightarrow> do {
              (header, res) \<leftarrow> client_response rt got;
              Some \<lparr>co_exit = 0, co_sent = sent, co_output = [HelloRes_InternalSerialize rt res],
                co_closed = [sockfd]\<rparr> }))))"

section \<open>Reading an answer\<close>

text \<open>The buffer after \<open>recv\<close>: the answer, then zeros.\<close>

lemma padded: "length got \<le> 1024 \<Longrightarrow> take 1024 (got @ replicate 1024 0) = got @ replicate (1024 - length got) (0 :: byte)"
  by (simp add: take_replicate)

lemma lengths_outside:
  assumes "12 \<le> length got" "length got \<le> 1024"
    and "le32 (take 4 (drop 4 got)) < 0 \<or> le32 (take 4 (drop 8 got)) < 0 \<or>
      1024 < 12 + le32 (take 4 (drop 4 got)) + le32 (take 4 (drop 8 got))"
  shows "client_response rt got = None"
  unfolding client_response_def padded [OF assms(2)] Let_def using assms by auto

context protobuf_runtime
begin

lemma client_request_fits: "length (client_request rt) \<le> 1024"
  using client_request_framed [OF protobuf_runtime_axioms] hello_header_length [of 1] hello_message_length(1) [of hello_func]
  by (simp add: framed_def MAGIC_def length_bytes_def) (simp add: hello_func_def)

text \<open>Neither the magic number nor the contents of the header are looked at.\<close>

lemma answer_read:
  assumes "length magic = 4" "RpcHeader_InternalParse rt hb (RpcHeader_SharedCtor rt) = Some (h, x)" "sendable_hello rt q"
    and "12 + length hb + length (HelloRes_InternalSerialize rt q) + length t \<le> 1024"
  shows "client_response rt (framed magic hb (HelloRes_InternalSerialize rt q) @ t) = Some (h, q)"
proof -
  let ?bd = "HelloReq_InternalSerialize rt q"
  let ?got = "framed magic hb (HelloRes_InternalSerialize rt q) @ t"
  define X where "X = ?got @ replicate (1024 - length ?got) (0 :: byte)"
  have X: "X = magic @ le_bytes (int (length hb)) @ le_bytes (int (length ?bd)) @ hb @ ?bd @ t @
      replicate (1024 - length ?got) 0"
    by (simp add: X_def framed_def length_bytes_def HelloRes_InternalSerialize_def)
  have "length ?got \<le> 1024" using assms(1,4) by (simp add: framed_def length_bytes_def)
  then have buf: "take 1024 (?got @ replicate 1024 0) = X" unfolding X_def by (rule padded)
  have l: "le32 (le_bytes (int (length hb))) = int (length hb)" "le32 (le_bytes (int (length ?bd))) = int (length ?bd)"
    using assms(4) by (simp_all add: le32_le_bytes HelloRes_InternalSerialize_def)
  have d48: "take 4 (drop 4 X) = le_bytes (int (length hb))" "take 4 (drop 8 X) = le_bytes (int (length ?bd))"
    using assms(1) by (simp_all add: X)
  have d12: "drop 12 X = hb @ ?bd @ t @ replicate (1024 - length ?got) 0" using assms(1) by (simp add: X)
  have "drop (12 + length hb) X = drop (length hb) (drop 12 X)" by (simp only: drop_drop add.commute)
  then have dn: "drop (12 + length hb) X = ?bd @ t @ replicate (1024 - length ?got) 0" using d12 by simp
  show ?thesis
    unfolding client_response_def buf
    using l d12 d48 dn assms(2,4) hello_parses [OF assms(3)]
    by (simp add: HelloRes_InternalParse_def HelloRes_SharedCtor_def HelloRes_InternalSerialize_def)
qed

text \<open>The rest of the buffer is zero, so the lengths of an answer that has not arrived are zero.\<close>

lemma short_read:
  assumes "length got \<le> 4"
  shows "client_response rt got = Some (RpcHeader_SharedCtor rt, HelloRes_SharedCtor rt)"
proof -
  have "drop n (got @ replicate (1024 - length got) 0) = replicate (1024 - n) 0" if "4 \<le> n" for n
    using assms that by simp
  moreover have "le32 [0, 0, 0, 0] = 0" by (simp add: le32_def)
  moreover have "length got \<le> 1024" using assms by simp
  ultimately show ?thesis
    unfolding client_response_def padded [OF \<open>length got \<le> 1024\<close>]
    by (simp add: RpcHeader_InternalParse.simps HelloRes_InternalParse_def HelloReq_InternalParse.simps
      eval_nat_numeral)
qed

lemma empty_serialises: "HelloRes_InternalSerialize rt (HelloRes_SharedCtor rt) = []"
  using none_unknown by (simp add: HelloRes_InternalSerialize_def HelloRes_SharedCtor_def HelloReq_InternalSerialize_def
    HelloReq_SharedCtor_def has_name_def)

end

section \<open>Properties\<close>

text \<open>
  C22: The outcomes of the client. Without a socket or a connection it fails with -1, and it closes the
  socket it has in every outcome. When nothing could be sent it exits with 0 without output; when nothing was
  received it prints that. Otherwise it prints exactly one line. For every frame that fits its buffer, with any magic number
  and any header that parses, followed by anything, the line is the serialised message of the frame. It does not check how much it
  received: of an answer of at most four bytes, whatever they are, it prints an empty message. An answer
  whose lengths are negative or reach outside the buffer is undefined behaviour.
\<close>
theorem client_main_outcomes:
  assumes "protobuf_runtime rt" "s \<noteq> - 1" "c \<noteq> 0" "0 < k" "j \<le> 0"
  shows "client_main rt \<lparr>cl_socket = - 1, cl_connect = x, cl_send = y, cl_recv = z\<rparr> =
      Some \<lparr>co_exit = - 1, co_sent = [], co_output = [], co_closed = []\<rparr> \<and>
    client_main rt \<lparr>cl_socket = s, cl_connect = c, cl_send = y, cl_recv = z\<rparr> =
      Some \<lparr>co_exit = - 1, co_sent = [], co_output = [], co_closed = [s]\<rparr> \<and>
    client_main rt \<lparr>cl_socket = s, cl_connect = 0, cl_send = j, cl_recv = z\<rparr> =
      Some \<lparr>co_exit = 0, co_sent = [], co_output = [], co_closed = [s]\<rparr> \<and>
    client_main rt \<lparr>cl_socket = s, cl_connect = 0, cl_send = k, cl_recv = None\<rparr> =
      Some \<lparr>co_exit = 0, co_sent = take (nat k) (client_request rt), co_output = [recv_nothing], co_closed = [s]\<rparr> \<and>
    (\<forall>magic hb h r q t. length magic = 4 \<longrightarrow> RpcHeader_InternalParse rt hb (RpcHeader_SharedCtor rt) = Some (h, r) \<longrightarrow>
      sendable_hello rt q \<longrightarrow> 12 + length hb + length (HelloRes_InternalSerialize rt q) + length t \<le> 1024 \<longrightarrow>
      client_main rt \<lparr>cl_socket = s, cl_connect = 0, cl_send = k,
          cl_recv = Some (framed magic hb (HelloRes_InternalSerialize rt q) @ t)\<rparr> =
        Some \<lparr>co_exit = 0, co_sent = take (nat k) (client_request rt),
          co_output = [HelloRes_InternalSerialize rt q], co_closed = [s]\<rparr>) \<and>
    (\<forall>got. length got \<le> 4 \<longrightarrow>
      client_main rt \<lparr>cl_socket = s, cl_connect = 0, cl_send = k, cl_recv = Some got\<rparr> =
        Some \<lparr>co_exit = 0, co_sent = take (nat k) (client_request rt), co_output = [[]], co_closed = [s]\<rparr>) \<and>
    (\<forall>got. 12 \<le> length got \<longrightarrow> length got \<le> 1024 \<longrightarrow>
      le32 (take 4 (drop 4 got)) < 0 \<or> le32 (take 4 (drop 8 got)) < 0 \<or>
        1024 < 12 + le32 (take 4 (drop 4 got)) + le32 (take 4 (drop 8 got)) \<longrightarrow>
      client_main rt \<lparr>cl_socket = s, cl_connect = 0, cl_send = k, cl_recv = Some got\<rparr> = None)"
proof -
  have fits: "\<not> 1024 < length (client_request rt)" using protobuf_runtime.client_request_fits [OF assms(1)] by simp
  show ?thesis
    using assms(2-5) fits protobuf_runtime.answer_read [OF assms(1)] protobuf_runtime.short_read [OF assms(1)]
      protobuf_runtime.empty_serialises [OF assms(1)] lengths_outside [of _ rt]
    by (simp add: client_main_def)
qed

text \<open>The server's own answer to the hello call, and an answer of which one byte has arrived.\<close>

theorem client_main_outcomes_witness:
  "client_main wire_runtime \<lparr>cl_socket = 3, cl_connect = 0, cl_send = 100,
      cl_recv = Some (framed MAGIC [] (HelloRes_InternalSerialize wire_runtime (hello_message wire_runtime world)))\<rparr> =
     Some \<lparr>co_exit = 0, co_sent = take (nat 100) (client_request wire_runtime),
       co_output = [HelloRes_InternalSerialize wire_runtime (hello_message wire_runtime world)], co_closed = [3]\<rparr> \<and>
   client_main wire_runtime \<lparr>cl_socket = 3, cl_connect = 0, cl_send = 100, cl_recv = Some [112]\<rparr> =
     Some \<lparr>co_exit = 0, co_sent = take (nat 100) (client_request wire_runtime), co_output = [[]], co_closed = [3]\<rparr>"
proof -
  have p: "RpcHeader_InternalParse wire_runtime [] (RpcHeader_SharedCtor wire_runtime) =
      Some (RpcHeader_SharedCtor wire_runtime, Some ([], 0))"
    by (subst RpcHeader_InternalParse.simps) simp
  have w: "length world = 5" "\<forall>b\<in>set world. unat b < 128" by (simp_all add: world_def)
  have q: "sendable_hello wire_runtime (hello_message wire_runtime world)" by (rule wire.message_sendable [OF w(2,1)])
  have l: "length (HelloRes_InternalSerialize wire_runtime (hello_message wire_runtime world)) \<le> 11"
    using wire.hello_message_length(1) [OF w(1)] by (simp add: HelloRes_InternalSerialize_def)
  note law = client_main_outcomes [OF wire.protobuf_runtime_axioms, of 3 1 100 0 0 0 None]
  note full = law [THEN conjunct2, THEN conjunct2, THEN conjunct2, THEN conjunct2, THEN conjunct1, rule_format,
      OF _ _ _ _ _ p q, of MAGIC "[]"]
    and short = law [THEN conjunct2, THEN conjunct2, THEN conjunct2, THEN conjunct2, THEN conjunct2, THEN conjunct1,
      rule_format, of "[112]"]
  show ?thesis using full short l by (simp add: MAGIC_def)
qed

end
