(* ===== verification/Rpc_Send.thy ===== *)
theory Rpc_Send
  imports Rpc_Server
begin

text \<open>
  What \<open>SendBuf\<close> (\<^verbatim>\<open>gencode/mg_server/server/connection.cpp\<close>, definition in \<open>Rpc_Server\<close>) sends of a queue of
  buffers when the socket takes data, in one piece or in several.
\<close>

text \<open>The bytes a guard stands for.\<close>

definition guard_data :: "buf_store \<Rightarrow> MBufferGuard \<Rightarrow> byte list option" where
  "guard_data s g = data_at s (guard_Buf g) (guard_Size g)"

lemma guard_data_Some:
  "guard_data s g = Some d \<Longrightarrow> 0 \<le> p \<Longrightarrow> p \<le> int (length d) \<Longrightarrow>
     guard_Size g = int (length d) \<and>
     data_at s (bg_buf g, bg_index g + p) (guard_Size g - p) = Some (drop (nat p) d)"
  by (auto simp: guard_data_def data_at_def guard_Buf_def window_def bind_Some_iff min_def nat_add_distrib add.commute
      drop_take nat_diff_distrib split: if_splits option.splits)

lemma guard_data_delete [simp]: "guard_data (MBufferGuard_delete x s) g = guard_data s g"
  by (cases "bs_bufs s (fst (guard_Buf g))") (auto simp: guard_data_def data_at_def window_def MBufferGuard_delete_def GiveBack_def)

lemma pool_delete: "bs_pool1024 (MBufferGuard_delete g s) = bs_pool1024 s @ (if bg_buf_free g then [] else [bg_buf g])"
  by (simp add: MBufferGuard_delete_def GiveBack_def)

section \<open>The queue of a connection\<close>

text \<open>
  Connection \<open>c\<close> of the server has the queue \<open>gs\<close>, of whose first buffer \<open>p\<close> bytes were sent; its socket
  is about to give the results \<open>rs\<close>.
\<close>

definition queued :: "conn_id \<Rightarrow> int \<Rightarrow> MBufferGuard list \<Rightarrow> int \<Rightarrow> send_result list \<Rightarrow> mg_server \<Rightarrow> bool" where
  "queued c fd gs p rs sv \<longleftrightarrow> (\<exists>conn. ms_heap sv c = Some conn \<and> mc_fd conn = fd \<and> mr_list (mc_send_buf conn) = gs \<and>
     mr_cur_it (mc_send_buf conn) = 0 \<and> mr_cur_pos (mc_send_buf conn) = p) \<and> sy_send (ms_sys sv) fd = rs"

text \<open>The server after data were sent: nothing else has changed but the pool.\<close>

definition progressed :: "mg_server \<Rightarrow> (int \<times> byte list) list \<Rightarrow> buf_id list \<Rightarrow> mg_server \<Rightarrow> bool" where
  "progressed sv out bs sv' \<longleftrightarrow> sy_sent (ms_sys sv') = sy_sent (ms_sys sv) @ out \<and>
     sy_closed (ms_sys sv') = sy_closed (ms_sys sv) \<and> ms_conns sv' = ms_conns sv \<and>
     bs_pool1024 (ms_bufs sv') = bs_pool1024 (ms_bufs sv) @ bs \<and> guard_data (ms_bufs sv') = guard_data (ms_bufs sv)"

lemma progressed_refl: "progressed sv [] [] sv"
  by (simp add: progressed_def)

lemma progressed_trans:
  "progressed sv out bs sv1 \<Longrightarrow> progressed sv1 out' bs' sv2 \<Longrightarrow> progressed sv (out @ out') (bs @ bs') sv2"
  by (simp add: progressed_def)

definition returned :: "MBufferGuard list \<Rightarrow> buf_id list" where
  "returned gs = map bg_buf (filter (\<lambda>g. \<not> bg_buf_free g) gs)"

lemma SendBuf_empty: "queued c fd [] p rs sv \<Longrightarrow> SendBuf c sv = Some sv"
  by (subst SendBuf.simps) (auto simp: queued_def Next_def)

text \<open>The first buffer leaves the queue when all that was left of it is sent.\<close>

lemma SendBuf_all:
  assumes q: "queued c fd (g # gs) p (Sent k # rs) sv" and d: "guard_data (ms_bufs sv) g = Some d"
    and p: "0 \<le> p" "p < int (length d)" and k: "length d - nat p \<le> k"
  shows "\<exists>sv'. SendBuf c sv = SendBuf c sv' \<and> queued c fd gs p rs sv' \<and>
    progressed sv [(fd, drop (nat p) d)] (returned [g]) sv'"
proof -
  obtain conn where conn: "ms_heap sv c = Some conn" "mc_fd conn = fd" "mr_list (mc_send_buf conn) = g # gs"
    "mr_cur_it (mc_send_buf conn) = 0" "mr_cur_pos (mc_send_buf conn) = p" "sy_send (ms_sys sv) fd = Sent k # rs"
    using q by (auto simp: queued_def)
  note g = guard_data_Some [OF d p(1) less_imp_le [OF p(2)]]
  let ?r = "mc_send_buf conn"
  let ?r' = "?r\<lparr>mr_last_it := Some 0, mr_cur_it := 1, mr_read_bytes := mr_read_bytes ?r + (guard_Size g - p)\<rparr>"
  let ?y = "(ms_sys sv)\<lparr>sy_send := (sy_send (ms_sys sv))(fd := rs), sy_sent := sy_sent (ms_sys sv) @ [(fd, drop (nat p) d)]\<rparr>"
  have nx: "Next ?r = Some ((bg_buf g, bg_index g + p), guard_Size g - p, ?r')"
    using conn by (simp add: Next_def guard_Buf_def Let_def)
  have sz: "int (length d - nat p) = guard_Size g - p" "0 < length d - nat p" using g p by auto
  have send: "sys_send fd (drop (nat p) d) (ms_sys sv) = (Sent (length d - nat p), ?y)"
    using conn(6) k by (simp add: sys_send_def)
  have er: "erase_sent ?r' (ms_bufs sv) = Some (?r'\<lparr>mr_list := gs, mr_last_it := None, mr_cur_it := 0\<rparr>, MBufferGuard_delete g (ms_bufs sv))"
    using conn(3) by (simp add: erase_sent_def Erase_def)
  let ?sv' = "put_conn c (conn\<lparr>mc_send_buf := ?r'\<lparr>mr_list := gs, mr_last_it := None, mr_cur_it := 0\<rparr>\<rparr>) ((put_conn c (conn\<lparr>mc_send_buf := ?r'\<rparr>) sv)
    \<lparr>ms_sys := ?y\<rparr>)\<lparr>ms_bufs := MBufferGuard_delete g (ms_bufs sv)\<rparr>"
  have "SendBuf c sv = SendBuf c ?sv'"
    using conn(1,2) nx conjunct2 [OF g] send sz er by (subst SendBuf.simps) (simp add: put_conn_def)
  moreover have "queued c fd gs p rs ?sv'" using conn by (auto simp: queued_def put_conn_def)
  moreover have "progressed sv [(fd, drop (nat p) d)] (returned [g]) ?sv'"
    by (simp add: progressed_def put_conn_def returned_def pool_delete fun_eq_iff)
  ultimately show ?thesis by blast
qed

text \<open>Otherwise it stays, with what is left.\<close>

lemma SendBuf_part:
  assumes q: "queued c fd (g # gs) p (Sent k # rs) sv" and d: "guard_data (ms_bufs sv) g = Some d"
    and p: "0 \<le> p" "p < int (length d)" and k: "0 < k" "k < length d - nat p"
  shows "\<exists>sv'. SendBuf c sv = SendBuf c sv' \<and> queued c fd (g # gs) (p + int k) rs sv' \<and>
    progressed sv [(fd, take k (drop (nat p) d))] [] sv'"
proof -
  obtain conn where conn: "ms_heap sv c = Some conn" "mc_fd conn = fd" "mr_list (mc_send_buf conn) = g # gs"
    "mr_cur_it (mc_send_buf conn) = 0" "mr_cur_pos (mc_send_buf conn) = p" "sy_send (ms_sys sv) fd = Sent k # rs"
    using q by (auto simp: queued_def)
  note g = guard_data_Some [OF d p(1) less_imp_le [OF p(2)]]
  let ?r = "mc_send_buf conn"
  let ?r' = "?r\<lparr>mr_last_it := Some 0, mr_cur_it := 1, mr_read_bytes := mr_read_bytes ?r + (guard_Size g - p)\<rparr>"
  let ?y = "(ms_sys sv)\<lparr>sy_send := (sy_send (ms_sys sv))(fd := rs), sy_sent := sy_sent (ms_sys sv) @ [(fd, take k (drop (nat p) d))]\<rparr>"
  have nx: "Next ?r = Some ((bg_buf g, bg_index g + p), guard_Size g - p, ?r')"
    using conn by (simp add: Next_def guard_Buf_def Let_def)
  have sz: "int k < guard_Size g - p" using g p k by auto
  have send: "sys_send fd (drop (nat p) d) (ms_sys sv) = (Sent k, ?y)"
    using conn(6) k by (simp add: sys_send_def)
  let ?b = "?r'\<lparr>mr_cur_it := 0, mr_cur_pos := p + int k, mr_read_bytes := mr_read_bytes ?r + int k\<rparr>"
  have bu: "BackUp (guard_Size g - p - int k) ?r' = Some ?b"
    using conn(3) sz by (simp add: BackUp_def)
  let ?sv' = "put_conn c (conn\<lparr>mc_send_buf := ?b\<rparr>) ((put_conn c (conn\<lparr>mc_send_buf := ?r'\<rparr>) sv)\<lparr>ms_sys := ?y\<rparr>)"
  have "SendBuf c sv = SendBuf c ?sv'"
    using conn(1,2) nx conjunct2 [OF g] send sz bu k(1) by (subst SendBuf.simps) (simp add: put_conn_def)
  moreover have "queued c fd (g # gs) (p + int k) rs ?sv'" using conn by (auto simp: queued_def put_conn_def)
  moreover have "progressed sv [(fd, take k (drop (nat p) d))] [] ?sv'"
    by (simp add: progressed_def put_conn_def)
  ultimately show ?thesis by blast
qed

text \<open>The last buffer may go out in pieces.\<close>

lemma SendBuf_pieces:
  assumes "queued c fd [g] p (map Sent js @ rest) sv" "guard_data (ms_bufs sv) g = Some d" "0 \<le> p" "p < int (length d)"
    "\<forall>j\<in>set js. 0 < j" "sum_list (butlast js) < length d - nat p" "length d - nat p \<le> sum_list js"
  shows "\<exists>sv' pieces p'. SendBuf c sv = Some sv' \<and> queued c fd [] p' rest sv' \<and> concat pieces = drop (nat p) d \<and>
    progressed sv (map (Pair fd) pieces) (returned [g]) sv'"
  using assms
proof (induction js arbitrary: p sv)
  case (Cons j js)
  show ?case
  proof (cases "length d - nat p \<le> j")
    case True
    have "js = []" using True Cons.prems(6) by (cases js) (auto split: if_splits)
    moreover obtain sv' where "SendBuf c sv = SendBuf c sv'" "queued c fd [] p (map Sent js @ rest) sv'"
      "progressed sv [(fd, drop (nat p) d)] (returned [g]) sv'"
      using SendBuf_all [of c fd g "[]" p j "map Sent js @ rest" sv d] Cons.prems True by auto
    ultimately show ?thesis using SendBuf_empty [of c fd p rest sv']
      by (intro exI [of _ sv'] exI [of _ "[drop (nat p) d]"] exI [of _ p]) simp
  next
    case False
    have js: "js \<noteq> []" using False Cons.prems(7) by auto
    have j: "0 < j" "j < length d - nat p" using False Cons.prems(5) by auto
    obtain sv1 where s1: "SendBuf c sv = SendBuf c sv1" "queued c fd [g] (p + int j) (map Sent js @ rest) sv1"
      "progressed sv [(fd, take j (drop (nat p) d))] [] sv1"
      using SendBuf_part [of c fd g "[]" p j "map Sent js @ rest" sv d] Cons.prems(1-4) j by auto
    have d1: "guard_data (ms_bufs sv1) g = Some d" using s1(3) Cons.prems(2) by (simp add: progressed_def)
    have n: "nat (p + int j) = nat p + j" "length d - nat (p + int j) = length d - nat p - j" using Cons.prems(3) by auto
    have "sum_list (butlast js) < length d - nat (p + int j)" "length d - nat (p + int j) \<le> sum_list js"
    proof -
      have "j + sum_list (butlast js) < length d - nat p" "length d - nat p \<le> j + sum_list js" using Cons.prems(6,7) js by simp_all
      then show "sum_list (butlast js) < length d - nat (p + int j)" "length d - nat (p + int j) \<le> sum_list js"
        unfolding n(2) by linarith+
    qed
    moreover have "p + int j < int (length d)" using j(2) Cons.prems(3) by linarith
    ultimately obtain sv' pieces p' where s2: "SendBuf c sv1 = Some sv'" "queued c fd [] p' rest sv'"
      "concat pieces = drop (nat (p + int j)) d" "progressed sv1 (map (Pair fd) pieces) (returned [g]) sv'"
      using Cons.IH [OF s1(2) d1] Cons.prems(3,5) by auto
    have "concat (take j (drop (nat p) d) # pieces) = drop (nat p) d"
      using s2(3) n(1) by (metis append_take_drop_id concat.simps(2) drop_drop add.commute)
    then show ?thesis using s1(1) s2(1,2) progressed_trans [OF s1(3) s2(4)]
      by (intro exI [of _ sv'] exI [of _ "take j (drop (nat p) d) # pieces"] exI [of _ p']) simp
  qed
qed simp

lemma SendBuf_queue:
  assumes "queued c fd (gs @ [g]) 0 (map Sent (ks @ js) @ rest) sv"
    "list_all2 (\<lambda>x d. guard_data (ms_bufs sv) x = Some d \<and> d \<noteq> []) gs ds" "list_all2 (\<lambda>k d. length d \<le> k) ks ds"
    "guard_data (ms_bufs sv) g = Some e" "e \<noteq> []" "\<forall>j\<in>set js. 0 < j" "sum_list (butlast js) < length e" "length e \<le> sum_list js"
  shows "\<exists>sv' pieces p'. SendBuf c sv = Some sv' \<and> queued c fd [] p' rest sv' \<and> concat pieces = e \<and>
    progressed sv (map (Pair fd) (ds @ pieces)) (returned (gs @ [g])) sv'"
  using assms
proof (induction gs arbitrary: ds ks sv)
  case Nil
  then show ?case using SendBuf_pieces [of c fd g 0 js rest sv e] by simp
next
  case (Cons x gs)
  obtain d ds' k ks' where ds: "ds = d # ds'" "ks = k # ks'" using Cons.prems(2,3) by (auto simp: list_all2_Cons1 list_all2_Cons2)
  have d: "guard_data (ms_bufs sv) x = Some d" "d \<noteq> []" "length d \<le> k" using Cons.prems(2,3) ds by auto
  obtain sv1 where s1: "SendBuf c sv = SendBuf c sv1" "queued c fd (gs @ [g]) 0 (map Sent (ks' @ js) @ rest) sv1"
      "progressed sv [(fd, d)] (returned [x]) sv1"
    using SendBuf_all [of c fd x "gs @ [g]" 0 k "map Sent (ks' @ js) @ rest" sv d] Cons.prems(1) ds d by auto
  have "guard_data (ms_bufs sv1) = guard_data (ms_bufs sv)" using s1(3) by (simp add: progressed_def)
  with Cons.IH [OF s1(2), of ds'] Cons.prems(2-8) ds obtain sv' pieces p' where s2: "SendBuf c sv1 = Some sv'"
    "queued c fd [] p' rest sv'" "concat pieces = e" "progressed sv1 (map (Pair fd) (ds' @ pieces)) (returned (gs @ [g])) sv'"
    by auto
  have "returned [x] @ returned (gs @ [g]) = returned ((x # gs) @ [g])" by (simp add: returned_def)
  then show ?case using s1(1) s2(1-3) progressed_trans [OF s1(3) s2(4)] ds by auto
qed

section \<open>Properties\<close>

text \<open>
  C7: \<open>SendBuf\<close> sends a connection's queue completely and in order when the socket takes every buffer
  but the last in one piece, and the last in any number of pieces: the bytes sent are those of the
  buffers, the queue is empty, the buffers are back in the pool, and the connection stays open. (A buffer
  before the last that goes out in pieces makes the following ones lose bytes, see
  \<open>mreadbuf_backup_skips\<close>.)
\<close>
theorem send_buf_flushes:
  assumes "ms_heap sv c = Some conn" "mr_list (mc_send_buf conn) = gs @ [g]" "mr_cur_it (mc_send_buf conn) = 0"
    "mr_cur_pos (mc_send_buf conn) = 0" "list_all2 (\<lambda>x d. guard_data (ms_bufs sv) x = Some d \<and> d \<noteq> []) gs ds"
    "guard_data (ms_bufs sv) g = Some e" "e \<noteq> []" "sy_send (ms_sys sv) (mc_fd conn) = map Sent (ks @ js) @ rest"
    "list_all2 (\<lambda>k d. length d \<le> k) ks ds" "\<forall>j\<in>set js. 0 < j" "sum_list (butlast js) < length e" "length e \<le> sum_list js"
  shows "\<exists>sv' conn' pieces. SendBuf c sv = Some sv' \<and>
    sy_sent (ms_sys sv') = sy_sent (ms_sys sv) @ map (Pair (mc_fd conn)) (ds @ pieces) \<and> concat pieces = e \<and>
    ms_heap sv' c = Some conn' \<and> mr_list (mc_send_buf conn') = [] \<and> ms_conns sv' = ms_conns sv \<and>
    sy_closed (ms_sys sv') = sy_closed (ms_sys sv) \<and>
    bs_pool1024 (ms_bufs sv') = bs_pool1024 (ms_bufs sv) @ map bg_buf (filter (\<lambda>x. \<not> bg_buf_free x) (gs @ [g]))"
proof -
  have "queued c (mc_fd conn) (gs @ [g]) 0 (map Sent (ks @ js) @ rest) sv" using assms(1-4,8) by (simp add: queued_def)
  from SendBuf_queue [OF this assms(5,9,6,7,10-12)] show ?thesis
    by (auto simp: progressed_def queued_def returned_def)
qed

text \<open>Two buffers of four bytes; the second goes out in two pieces.\<close>

definition flush_demo :: mg_server where
  "flush_demo = demo_server\<lparr>ms_heap := [0 \<mapsto> SendQueue (demo_guard 8) (SendQueue (demo_guard 7) (MConnection_new 5 [] 80))],
     ms_sys := (ms_sys demo_server)\<lparr>sy_send := (\<lambda>fd. [Sent 1024, Sent 1, Sent 3])\<rparr>\<rparr>"

theorem send_buf_flushes_witness:
  "\<exists>sv' pieces. SendBuf 0 flush_demo = Some sv' \<and> sy_sent (ms_sys sv') = map (Pair 5) ([replicate 4 0] @ pieces) \<and>
     concat pieces = replicate 4 0 \<and> bs_pool1024 (ms_bufs sv') = [0..<1024] @ [7, 8]"
proof -
  let ?conn = "SendQueue (demo_guard 8) (SendQueue (demo_guard 7) (MConnection_new 5 [] 80))"
  have q: "ms_heap flush_demo 0 = Some ?conn" "mr_list (mc_send_buf ?conn) = [demo_guard 7] @ [demo_guard 8]"
    "mr_cur_it (mc_send_buf ?conn) = 0" "mr_cur_pos (mc_send_buf ?conn) = 0" "mc_fd ?conn = 5"
    by (simp_all add: flush_demo_def SendQueue_def MConnection_new_def Append_def MReadBuf_new_def)
  have d: "guard_data (ms_bufs flush_demo) (demo_guard b) = Some (replicate 4 0)" if "b < 1024" for b
    using that by (simp add: guard_data_def data_at_def flush_demo_def demo_server_simps MBufferPool_new_def BUFFER_POOL_SIZE_def
      MBuffer_new_def demo_guard_def guard_Buf_def guard_Size_def window_def)
  have s: "sy_send (ms_sys flush_demo) (mc_fd ?conn) = map Sent ([1024] @ [1, 3]) @ []" by (simp add: flush_demo_def)
  have "\<exists>sv' conn' pieces. SendBuf 0 flush_demo = Some sv' \<and>
      sy_sent (ms_sys sv') = sy_sent (ms_sys flush_demo) @ map (Pair (mc_fd ?conn)) ([replicate 4 0] @ pieces) \<and>
      concat pieces = replicate 4 0 \<and> ms_heap sv' 0 = Some conn' \<and> mr_list (mc_send_buf conn') = [] \<and>
      ms_conns sv' = ms_conns flush_demo \<and> sy_closed (ms_sys sv') = sy_closed (ms_sys flush_demo) \<and>
      bs_pool1024 (ms_bufs sv') = bs_pool1024 (ms_bufs flush_demo) @
        map bg_buf (filter (\<lambda>x. \<not> bg_buf_free x) ([demo_guard 7] @ [demo_guard 8]))"
    by (rule send_buf_flushes [OF q(1-4) _ d _ s]) (simp_all add: d)
  then show ?thesis
    using q(5) by (auto simp: flush_demo_def demo_server_simps initial_pool(1) demo_guard_def)
qed

end
