(* ===== verification/Rpc_Accessors.thy ===== *)
theory Rpc_Accessors
  imports Rpc_Message
begin

text \<open>
  The inline members of the message classes (\<^verbatim>\<open>gencode/mg_server/server/rpc.pb.h\<close>): the accessors of the
  optional fields, move assignment and swap. An \<open>ArenaStringPtr\<close> is the string it holds; the string a
  caller changes through the pointer of \<open>mutable_func\<close> is given as the function applied to it, and a
  released string is the result of the call. The debug macros \<open>PROTOBUF_FORCE_COPY_\<dots>\<close> are taken as not
  defined. The presence tests and setters are in \<open>Rpc_Message\<close>.
\<close>

unbundle bit_operations_syntax

section \<open>Fields of RpcHeader\<close>

definition clear_type :: "'u RpcHeader \<Rightarrow> 'u RpcHeader" where
  "clear_type m = m\<lparr>rh_type := 0, rh_has_bits := rh_has_bits m AND NOT 4\<rparr>"

definition get_type :: "'u RpcHeader \<Rightarrow> int" where
  "get_type m = rh_type m"

definition clear_func :: "'u RpcHeader \<Rightarrow> 'u RpcHeader" where
  "clear_func m = m\<lparr>rh_func := [], rh_has_bits := rh_has_bits m AND NOT 1\<rparr>"

definition get_func :: "'u RpcHeader \<Rightarrow> byte list" where
  "get_func m = rh_func m"

definition mutable_func :: "(byte list \<Rightarrow> byte list) \<Rightarrow> 'u RpcHeader \<Rightarrow> 'u RpcHeader" where
  "mutable_func f m = (let m = m\<lparr>rh_has_bits := rh_has_bits m OR 1\<rparr> in m\<lparr>rh_func := f (rh_func m)\<rparr>)"

definition release_func :: "'u RpcHeader \<Rightarrow> byte list option \<times> 'u RpcHeader" where
  "release_func m = (if \<not> has_func m then (None, m)
     else let m = m\<lparr>rh_has_bits := rh_has_bits m AND NOT 1\<rparr>; p = rh_func m in (Some p, m\<lparr>rh_func := []\<rparr>))"

definition set_allocated_func :: "byte list option \<Rightarrow> 'u RpcHeader \<Rightarrow> 'u RpcHeader" where
  "set_allocated_func func m =
     (let m = (if func \<noteq> None then m\<lparr>rh_has_bits := rh_has_bits m OR 1\<rparr>
               else m\<lparr>rh_has_bits := rh_has_bits m AND NOT 1\<rparr>)
      in m\<lparr>rh_func := (case func of None \<Rightarrow> [] | Some s \<Rightarrow> s)\<rparr>)"

definition clear_timeout :: "'u RpcHeader \<Rightarrow> 'u RpcHeader" where
  "clear_timeout m = m\<lparr>rh_timeout := [], rh_has_bits := rh_has_bits m AND NOT 2\<rparr>"

definition get_timeout :: "'u RpcHeader \<Rightarrow> byte list" where
  "get_timeout m = rh_timeout m"

definition mutable_timeout :: "(byte list \<Rightarrow> byte list) \<Rightarrow> 'u RpcHeader \<Rightarrow> 'u RpcHeader" where
  "mutable_timeout f m = (let m = m\<lparr>rh_has_bits := rh_has_bits m OR 2\<rparr> in m\<lparr>rh_timeout := f (rh_timeout m)\<rparr>)"

definition release_timeout :: "'u RpcHeader \<Rightarrow> byte list option \<times> 'u RpcHeader" where
  "release_timeout m = (if \<not> has_timeout m then (None, m)
     else let m = m\<lparr>rh_has_bits := rh_has_bits m AND NOT 2\<rparr>; p = rh_timeout m in (Some p, m\<lparr>rh_timeout := []\<rparr>))"

definition set_allocated_timeout :: "byte list option \<Rightarrow> 'u RpcHeader \<Rightarrow> 'u RpcHeader" where
  "set_allocated_timeout timeout m =
     (let m = (if timeout \<noteq> None then m\<lparr>rh_has_bits := rh_has_bits m OR 2\<rparr>
               else m\<lparr>rh_has_bits := rh_has_bits m AND NOT 2\<rparr>)
      in m\<lparr>rh_timeout := (case timeout of None \<Rightarrow> [] | Some s \<Rightarrow> s)\<rparr>)"

section \<open>The field of HelloReq and HelloRes\<close>

definition clear_name :: "'u HelloReq \<Rightarrow> 'u HelloReq" where
  "clear_name m = m\<lparr>hq_name := [], hq_has_bits := hq_has_bits m AND NOT 1\<rparr>"

definition get_name :: "'u HelloReq \<Rightarrow> byte list" where
  "get_name m = hq_name m"

definition mutable_name :: "(byte list \<Rightarrow> byte list) \<Rightarrow> 'u HelloReq \<Rightarrow> 'u HelloReq" where
  "mutable_name f m = (let m = m\<lparr>hq_has_bits := hq_has_bits m OR 1\<rparr> in m\<lparr>hq_name := f (hq_name m)\<rparr>)"

definition release_name :: "'u HelloReq \<Rightarrow> byte list option \<times> 'u HelloReq" where
  "release_name m = (if \<not> has_name m then (None, m)
     else let m = m\<lparr>hq_has_bits := hq_has_bits m AND NOT 1\<rparr>; p = hq_name m in (Some p, m\<lparr>hq_name := []\<rparr>))"

definition set_allocated_name :: "byte list option \<Rightarrow> 'u HelloReq \<Rightarrow> 'u HelloReq" where
  "set_allocated_name name m =
     (let m = (if name \<noteq> None then m\<lparr>hq_has_bits := hq_has_bits m OR 1\<rparr>
               else m\<lparr>hq_has_bits := hq_has_bits m AND NOT 1\<rparr>)
      in m\<lparr>hq_name := (case name of None \<Rightarrow> [] | Some s \<Rightarrow> s)\<rparr>)"

text \<open>\<open>HelloRes\<close> has the same members.\<close>

definition HelloRes_has_name :: "'u HelloRes \<Rightarrow> bool" where
  "HelloRes_has_name = has_name"

definition HelloRes_clear_name :: "'u HelloRes \<Rightarrow> 'u HelloRes" where
  "HelloRes_clear_name = clear_name"

definition HelloRes_get_name :: "'u HelloRes \<Rightarrow> byte list" where
  "HelloRes_get_name = get_name"

definition HelloRes_set_name :: "byte list \<Rightarrow> 'u HelloRes \<Rightarrow> 'u HelloRes" where
  "HelloRes_set_name = set_name"

definition HelloRes_mutable_name :: "(byte list \<Rightarrow> byte list) \<Rightarrow> 'u HelloRes \<Rightarrow> 'u HelloRes" where
  "HelloRes_mutable_name = mutable_name"

definition HelloRes_release_name :: "'u HelloRes \<Rightarrow> byte list option \<times> 'u HelloRes" where
  "HelloRes_release_name = release_name"

definition HelloRes_set_allocated_name :: "byte list option \<Rightarrow> 'u HelloRes \<Rightarrow> 'u HelloRes" where
  "HelloRes_set_allocated_name = set_allocated_name"

section \<open>Move and swap\<close>

text \<open>
  \<open>same\<close> is \<open>this == &from\<close>, \<open>arenas\<close> whether the two messages have the same owning arena; \<open>generic\<close> is the
  runtime's \<open>GenericSwap\<close>. The result of the move is the target and what is left in the source.
\<close>

definition RpcHeader_move :: "'u pb_runtime \<Rightarrow> bool \<Rightarrow> bool \<Rightarrow> 'u RpcHeader \<Rightarrow> 'u RpcHeader \<Rightarrow> 'u RpcHeader \<times> 'u RpcHeader" where
  "RpcHeader_move rt same arenas from m =
     (if same then (m, from)
      else if arenas then RpcHeader_InternalSwap m from
      else (RpcHeader_CopyFrom rt same from m, from))"

definition RpcHeader_Swap :: "('u RpcHeader \<Rightarrow> 'u RpcHeader \<Rightarrow> 'u RpcHeader \<times> 'u RpcHeader) \<Rightarrow> bool \<Rightarrow> bool \<Rightarrow>
    'u RpcHeader \<Rightarrow> 'u RpcHeader \<Rightarrow> 'u RpcHeader \<times> 'u RpcHeader" where
  "RpcHeader_Swap generic same arenas m other =
     (if same then (m, other) else if arenas then RpcHeader_InternalSwap m other else generic m other)"

definition HelloReq_move :: "'u pb_runtime \<Rightarrow> bool \<Rightarrow> bool \<Rightarrow> 'u HelloReq \<Rightarrow> 'u HelloReq \<Rightarrow> 'u HelloReq \<times> 'u HelloReq" where
  "HelloReq_move rt same arenas from m =
     (if same then (m, from)
      else if arenas then HelloReq_InternalSwap m from
      else (HelloReq_CopyFrom rt same from m, from))"

definition HelloReq_Swap :: "('u HelloReq \<Rightarrow> 'u HelloReq \<Rightarrow> 'u HelloReq \<times> 'u HelloReq) \<Rightarrow> bool \<Rightarrow> bool \<Rightarrow>
    'u HelloReq \<Rightarrow> 'u HelloReq \<Rightarrow> 'u HelloReq \<times> 'u HelloReq" where
  "HelloReq_Swap generic same arenas m other =
     (if same then (m, other) else if arenas then HelloReq_InternalSwap m other else generic m other)"

definition HelloRes_move :: "'u pb_runtime \<Rightarrow> bool \<Rightarrow> bool \<Rightarrow> 'u HelloRes \<Rightarrow> 'u HelloRes \<Rightarrow> 'u HelloRes \<times> 'u HelloRes" where
  "HelloRes_move = HelloReq_move"

definition HelloRes_Swap :: "('u HelloRes \<Rightarrow> 'u HelloRes \<Rightarrow> 'u HelloRes \<times> 'u HelloRes) \<Rightarrow> bool \<Rightarrow> bool \<Rightarrow>
    'u HelloRes \<Rightarrow> 'u HelloRes \<Rightarrow> 'u HelloRes \<times> 'u HelloRes" where
  "HelloRes_Swap = HelloReq_Swap"

section \<open>Calls on a string field\<close>

datatype string_op = Set_to "byte list" | Mutate "byte list \<Rightarrow> byte list" | Clear_field | Release |
  Set_allocated "byte list option"

text \<open>What the calls mean for an optional string; the second component is what a release hands out.\<close>

fun string_spec :: "string_op \<Rightarrow> byte list option \<Rightarrow> byte list option \<times> byte list option list" where
  "string_spec (Set_to s) v = (Some s, [])"
| "string_spec (Mutate f) v = (Some (f (case v of None \<Rightarrow> [] | Some s \<Rightarrow> s)), [])"
| "string_spec Clear_field v = (None, [])"
| "string_spec Release v = (None, [v])"
| "string_spec (Set_allocated s) v = (s, [])"

text \<open>A call on a field with the given accessors, and the field as an optional string.\<close>

definition field_view :: "('m \<Rightarrow> bool) \<Rightarrow> ('m \<Rightarrow> byte list) \<Rightarrow> 'm \<Rightarrow> byte list option" where
  "field_view present get m = (if present m then Some (get m) else None)"

fun field_call :: "(byte list \<Rightarrow> 'm \<Rightarrow> 'm) \<Rightarrow> ((byte list \<Rightarrow> byte list) \<Rightarrow> 'm \<Rightarrow> 'm) \<Rightarrow> ('m \<Rightarrow> 'm) \<Rightarrow>
    ('m \<Rightarrow> byte list option \<times> 'm) \<Rightarrow> (byte list option \<Rightarrow> 'm \<Rightarrow> 'm) \<Rightarrow> string_op \<Rightarrow> 'm \<Rightarrow> 'm \<times> byte list option list" where
  "field_call set_to mutate clear_field release set_allocated (Set_to s) m = (set_to s m, [])"
| "field_call set_to mutate clear_field release set_allocated (Mutate f) m = (mutate f m, [])"
| "field_call set_to mutate clear_field release set_allocated Clear_field m = (clear_field m, [])"
| "field_call set_to mutate clear_field release set_allocated Release m = (case release m of (p, m) \<Rightarrow> (m, [p]))"
| "field_call set_to mutate clear_field release set_allocated (Set_allocated s) m = (set_allocated s m, [])"

text \<open>The interface of one optional string field of a message: its laws and what follows for any call.\<close>

locale string_field =
  fixes ok :: "'m \<Rightarrow> bool" and present :: "'m \<Rightarrow> bool" and get :: "'m \<Rightarrow> byte list"
    and set_to :: "byte list \<Rightarrow> 'm \<Rightarrow> 'm" and mutate :: "(byte list \<Rightarrow> byte list) \<Rightarrow> 'm \<Rightarrow> 'm"
    and clear_field :: "'m \<Rightarrow> 'm" and release :: "'m \<Rightarrow> byte list option \<times> 'm"
    and set_allocated :: "byte list option \<Rightarrow> 'm \<Rightarrow> 'm"
  assumes set_law: "ok m \<Longrightarrow> ok (set_to v m) \<and> present (set_to v m) \<and> get (set_to v m) = v"
    and clear_law: "ok m \<Longrightarrow> ok (clear_field m) \<and> \<not> present (clear_field m)"
    and absent_law: "ok m \<Longrightarrow> \<not> present m \<Longrightarrow> get m = []"
    and mutate_law: "mutate f m = set_to (f (get m)) m"
    and release_law: "release m = (if present m then (Some (get m), clear_field m) else (None, m))"
    and set_allocated_law: "set_allocated s m = (case s of None \<Rightarrow> clear_field m | Some v \<Rightarrow> set_to v m)"
begin

abbreviation view :: "'m \<Rightarrow> byte list option" where
  "view \<equiv> field_view present get"

abbreviation call :: "string_op \<Rightarrow> 'm \<Rightarrow> 'm \<times> byte list option list" where
  "call \<equiv> field_call set_to mutate clear_field release set_allocated"

lemma call_refines:
  "ok m \<Longrightarrow> ok (fst (call op m)) \<and> view (fst (call op m)) = fst (string_spec op (view m)) \<and>
     snd (call op m) = snd (string_spec op (view m))"
  by (cases op) (auto simp: field_view_def set_law clear_law absent_law mutate_law release_law set_allocated_law split: option.splits)

text \<open>A call does nothing else than set or clear the field.\<close>

lemma call_frame:
  assumes "\<And>v m. h (set_to v m) = h m" "\<And>m. h (clear_field m) = h m"
  shows "h (fst (call op m)) = h m"
  using assms by (cases op) (auto simp: mutate_law release_law set_allocated_law split: option.splits)

text \<open>Handing a released string back restores the field; handing it to another message moves it.\<close>

lemma release_moves:
  assumes "ok m" "ok other"
  shows "view (set_allocated (fst (release m)) other) = view m \<and> view (snd (release m)) = None"
  using assms by (auto simp: field_view_def set_law clear_law release_law set_allocated_law)

end

section \<open>The classes provide the interface\<close>

lemma has_bits_and_not:
  fixes w :: "32 word"
  shows "(w AND - 5) AND 4 = 0" "(w AND - 5) AND 2 = w AND 2" "(w AND - 5) AND 1 = w AND 1"
    "(w AND - 3) AND 2 = 0" "(w AND - 3) AND 4 = w AND 4" "(w AND - 3) AND 1 = w AND 1"
    "(w AND - 2) AND 1 = 0" "(w AND - 2) AND 2 = w AND 2" "(w AND - 2) AND 4 = w AND 4"
    "(w AND - 5) AND 7 = (w AND 7) AND - 5" "(w AND - 3) AND 7 = (w AND 7) AND - 3"
    "(w AND - 2) AND 7 = (w AND 7) AND - 2"
  by (simp_all add: and.assoc)

lemma hello_bits:
  fixes w :: "32 word"
  shows "w AND 1 = w \<longleftrightarrow> w = 0 \<or> w = 1"
  by (auto simp: and_one_eq mod_2_eq_odd split: if_splits)

lemmas header_bits = has_type_def has_func_def has_timeout_def has_bits_or has_bits_and_not

lemma wf_header_clears:
  assumes "wf_header m"
  shows "wf_header (clear_type m)" "wf_header (clear_func m)" "wf_header (clear_timeout m)"
  using assms by (simp_all add: wf_header_def clear_type_def clear_func_def clear_timeout_def header_bits)

lemma wf_hello_updates:
  assumes "wf_hello m"
  shows "wf_hello (set_name v m)" "wf_hello (clear_name m)"
  using assms by (auto simp: wf_hello_def set_name_def clear_name_def has_name_def hello_bits)

lemma wf_header_absent:
  assumes "wf_header m"
  shows "\<not> has_func m \<Longrightarrow> get_func m = []" "\<not> has_timeout m \<Longrightarrow> get_timeout m = []"
  using assms by (simp_all add: wf_header_def get_func_def get_timeout_def)

lemmas func_defs = get_func_def set_func_def mutable_func_def clear_func_def release_func_def set_allocated_func_def

lemmas timeout_defs = get_timeout_def set_timeout_def mutable_timeout_def clear_timeout_def release_timeout_def
  set_allocated_timeout_def

lemmas name_defs = get_name_def set_name_def mutable_name_def clear_name_def release_name_def set_allocated_name_def

interpretation func_field: string_field wf_header has_func get_func set_func mutable_func clear_func release_func set_allocated_func
  by unfold_locales (simp_all add: wf_header_updates wf_header_clears wf_header_absent,
    simp_all add: func_defs header_bits Let_def split: option.splits)

interpretation timeout_field: string_field wf_header has_timeout get_timeout set_timeout mutable_timeout clear_timeout
    release_timeout set_allocated_timeout
  by unfold_locales (simp_all add: wf_header_updates wf_header_clears wf_header_absent,
    simp_all add: timeout_defs header_bits Let_def split: option.splits)

interpretation name_field: string_field wf_hello has_name get_name set_name mutable_name clear_name release_name set_allocated_name
  by unfold_locales (simp_all add: wf_hello_updates,
    simp_all add: name_defs has_name_def has_bits_or has_bits_and_not Let_def wf_hello_def split: option.splits)

lemmas hellores_defs = HelloRes_has_name_def HelloRes_clear_name_def HelloRes_get_name_def HelloRes_set_name_def
  HelloRes_mutable_name_def HelloRes_release_name_def HelloRes_set_allocated_name_def

interpretation hellores_field: string_field wf_hello HelloRes_has_name HelloRes_get_name HelloRes_set_name
    HelloRes_mutable_name HelloRes_clear_name HelloRes_release_name HelloRes_set_allocated_name
  unfolding hellores_defs by (rule name_field.string_field_axioms)

section \<open>Sequences of calls\<close>

text \<open>A header as a client sees it: three optional fields.\<close>

record header_view =
  hv_type :: "int option"
  hv_func :: "byte list option"
  hv_timeout :: "byte list option"

definition view_header :: "'u RpcHeader \<Rightarrow> header_view" where
  "view_header m = \<lparr>hv_type = (if has_type m then Some (get_type m) else None),
     hv_func = field_view has_func get_func m, hv_timeout = field_view has_timeout get_timeout m\<rparr>"

datatype header_op = Type_set int | Type_clear | On_func string_op | On_timeout string_op

fun header_spec :: "header_op \<Rightarrow> header_view \<Rightarrow> header_view \<times> byte list option list" where
  "header_spec (Type_set v) h = (h\<lparr>hv_type := Some v\<rparr>, [])"
| "header_spec Type_clear h = (h\<lparr>hv_type := None\<rparr>, [])"
| "header_spec (On_func op) h = (case string_spec op (hv_func h) of (v, out) \<Rightarrow> (h\<lparr>hv_func := v\<rparr>, out))"
| "header_spec (On_timeout op) h = (case string_spec op (hv_timeout h) of (v, out) \<Rightarrow> (h\<lparr>hv_timeout := v\<rparr>, out))"

fun header_call :: "header_op \<Rightarrow> 'u RpcHeader \<Rightarrow> 'u RpcHeader \<times> byte list option list" where
  "header_call (Type_set v) m = (set_type v m, [])"
| "header_call Type_clear m = (clear_type m, [])"
| "header_call (On_func op) m =
     field_call set_func mutable_func clear_func release_func set_allocated_func op m"
| "header_call (On_timeout op) m =
     field_call set_timeout mutable_timeout clear_timeout release_timeout set_allocated_timeout op m"

fun run_calls :: "('o \<Rightarrow> 's \<Rightarrow> 's \<times> 'r list) \<Rightarrow> 'o list \<Rightarrow> 's \<Rightarrow> 's \<times> 'r list" where
  "run_calls f [] s = (s, [])"
| "run_calls f (x # xs) s = (case f x s of (s, out) \<Rightarrow> case run_calls f xs s of (s, outs) \<Rightarrow> (s, out @ outs))"

lemma run_calls_refine:
  assumes "\<And>x m. ok m \<Longrightarrow> ok (fst (f x m)) \<and> g x (view m) = (view (fst (f x m)), snd (f x m))" "ok m"
  shows "ok (fst (run_calls f xs m)) \<and> run_calls g xs (view m) = (view (fst (run_calls f xs m)), snd (run_calls f xs m))"
  using assms(2)
proof (induction xs arbitrary: m)
  case (Cons x xs)
  obtain m' out where "f x m = (m', out)" by fastforce
  with assms(1) [OF Cons.prems, of x] Cons.IH [of m'] show ?case by (auto split: prod.splits)
qed simp

text \<open>A call on one string field leaves the other fields alone.\<close>

lemma header_call_frames:
  "has_type (fst (header_call (On_func op) m)) = has_type m \<and> get_type (fst (header_call (On_func op) m)) = get_type m"
  "field_view has_timeout get_timeout (fst (header_call (On_func op) m)) = field_view has_timeout get_timeout m"
  "has_type (fst (header_call (On_timeout op) m)) = has_type m \<and> get_type (fst (header_call (On_timeout op) m)) = get_type m"
  "field_view has_func get_func (fst (header_call (On_timeout op) m)) = field_view has_func get_func m"
  by (simp_all, (intro conjI func_field.call_frame timeout_field.call_frame;
      simp add: func_defs timeout_defs get_type_def field_view_def header_bits)+)

lemma header_call_refines:
  assumes "wf_header m"
  shows "wf_header (fst (header_call op m)) \<and>
    header_spec op (view_header m) = (view_header (fst (header_call op m)), snd (header_call op m))"
proof (cases op)
  case (Type_set v)
  then show ?thesis
    using wf_header_updates(1) [OF assms] by (intro conjI) (simp, simp add: view_header_def field_view_def set_type_def get_type_def get_func_def get_timeout_def header_bits)
next
  case Type_clear
  then show ?thesis
    using wf_header_clears(1) [OF assms] by (intro conjI) (simp, simp add: view_header_def field_view_def clear_type_def get_type_def get_func_def get_timeout_def header_bits)
next
  case (On_func sop)
  with func_field.call_refines [OF assms, of sop] header_call_frames(1,2) [of sop m] show ?thesis
    by (simp add: view_header_def split: prod.splits)
next
  case (On_timeout sop)
  with timeout_field.call_refines [OF assms, of sop] header_call_frames(3,4) [of sop m] show ?thesis
    by (simp add: view_header_def split: prod.splits)
qed

text \<open>The same for the single field of \<open>HelloReq\<close> and \<open>HelloRes\<close>.\<close>

lemma hello_accessors_refine:
  assumes "wf_hello m"
  shows "run_calls string_spec ops (name_field.view m) =
    (name_field.view (fst (run_calls name_field.call ops m)), snd (run_calls name_field.call ops m))"
proof -
  have "wf_hello x \<Longrightarrow> wf_hello (fst (name_field.call op x)) \<and>
      string_spec op (name_field.view x) = (name_field.view (fst (name_field.call op x)), snd (name_field.call op x))" for op x
    using name_field.call_refines [of x op] by (simp add: prod_eq_iff)
  from run_calls_refine [where ok = wf_hello and f = name_field.call and g = string_spec and view = name_field.view and xs = ops,
    OF this assms] show ?thesis by blast
qed

lemma hellores_accessors_refine:
  assumes "wf_hello m"
  shows "run_calls string_spec ops (hellores_field.view m) =
    (hellores_field.view (fst (run_calls hellores_field.call ops m)), snd (run_calls hellores_field.call ops m))"
  unfolding hellores_defs by (rule hello_accessors_refine [OF assms])

section \<open>Properties\<close>

text \<open>
  C19: The accessors of \<open>RpcHeader\<close> implement three independent optional fields. For every
  sequence of calls that set, clear, change through a pointer, release or hand over a field, the message
  stays well formed, what \<open>has\<close> and the getters then show is what the same calls do on three optional
  values, and every \<open>release\<close> hands out the value its field had (null when it was absent).
\<close>
theorem header_accessors_refine:
  assumes "wf_header m"
  shows "wf_header (fst (run_calls header_call ops m)) \<and>
    run_calls header_spec ops (view_header m) =
      (view_header (fst (run_calls header_call ops m)), snd (run_calls header_call ops m))"
  using assms by (rule run_calls_refine [rotated]) (rule header_call_refines)

theorem header_accessors_refine_witness:
  "view_header (fst (run_calls header_call [Type_set 1, On_func (Set_to [104]), On_timeout (Mutate (\<lambda>s. s @ [53])), On_func Release,
       On_timeout (Set_allocated None), On_func (Mutate rev)] (RpcHeader_SharedCtor wire_runtime))) =
     \<lparr>hv_type = Some 1, hv_func = Some [], hv_timeout = None\<rparr> \<and>
   snd (run_calls header_call [Type_set 1, On_func (Set_to [104]), On_timeout (Mutate (\<lambda>s. s @ [53])), On_func Release,
       On_timeout (Set_allocated None), On_func (Mutate rev)] (RpcHeader_SharedCtor wire_runtime)) = [Some [104]]"
proof -
  have "view_header (RpcHeader_SharedCtor wire_runtime) = \<lparr>hv_type = None, hv_func = None, hv_timeout = None\<rparr>"
    by (simp add: view_header_def RpcHeader_SharedCtor_def field_view_def header_bits)
  then show ?thesis
    using header_accessors_refine [OF wf_header_new, of "[Type_set 1, On_func (Set_to [104]), On_timeout (Mutate (\<lambda>s. s @ [53])),
      On_func Release, On_timeout (Set_allocated None), On_func (Mutate rev)]" wire_runtime] by simp
qed

section \<open>Moves\<close>

text \<open>A move makes the target equal to the source, whichever way it is done.\<close>

lemma header_move:
  assumes "protobuf_runtime rt" "wf_header m" "wf_header from"
  shows "fst (RpcHeader_move rt False arenas from m) = from"
  by (simp add: RpcHeader_move_def RpcHeader_CopyFrom_def RpcHeader_InternalSwap_def clear_header [OF assms(2)]
    merge_new_header [OF assms(1,3)])

lemma header_swap:
  assumes "\<And>a b. generic a b = (b, a)"
  shows "RpcHeader_Swap generic False arenas m other = (other, m)"
  by (simp add: RpcHeader_Swap_def RpcHeader_InternalSwap_def assms)

lemma hello_move:
  assumes "protobuf_runtime rt" "wf_hello m" "wf_hello from"
  shows "fst (HelloReq_move rt False arenas from m) = from"
  using assms(2,3) protobuf_runtime.merge_unknown [OF assms(1)]
  by (cases m; cases "from") (auto simp: HelloReq_move_def HelloReq_CopyFrom_def HelloReq_InternalSwap_def HelloReq_Clear_def
    HelloReq_MergeFrom_def wf_hello_def has_name_def set_name_def hello_bits Let_def)

lemma hello_swap:
  assumes "\<And>a b. generic a b = (b, a)"
  shows "HelloReq_Swap generic False arenas m other = (other, m)"
  by (simp add: HelloReq_Swap_def HelloReq_InternalSwap_def assms)

end
