(* ===== verification/Ss_Buffer.thy ===== *)
theory Ss_Buffer
  imports Zero_Copy
begin

text \<open>
  The buffers of the stream server (\<^verbatim>\<open>src/buffer.h\<close>): size classes, buffers, the pool with one free list
  per class, and the zero-copy read buffer. The outcome of the \<open>malloc\<close> of each buffer is a parameter
  (indexed by the buffer's number); \<^term>\<open>None\<close> is a failed assertion or undefined behaviour. One function of
  the file does not compile: \<open>ReadBuffer::Next\<close> reads \<open>_offset\<close>, which is not a member of \<open>ReadBuffer\<close>, and
  calls \<open>get_buf\<close> on a guard, which has no such function. Its definition \<open>rb_Next\<close> takes the offset of the handle and the buffer
  of the guard, the apparent intention; no statement about the program rests on it. The locks of the free lists are not modelled: each operation is atomic.
\<close>

section \<open>SBuffer\<close>

definition malloc_size :: "int \<Rightarrow> int option" where
  "malloc_size sz = (if \<not> sz \<le> 4096 then None
     else if sz > 2048 \<and> sz \<le> 4096 then Some 4096
     else if sz > 1024 \<and> sz \<le> 2048 then Some 2048
     else if sz > 512 \<and> sz \<le> 1024 then Some 1024
     else if sz > 256 \<and> sz \<le> 512 then Some 512
     else if sz > 128 \<and> sz \<le> 256 then Some 256
     else Some 128)"

text \<open>The block and the pointer \<open>_remainp\<close> as an offset into it; a null \<open>_headp\<close> has no bytes.\<close>

record SBuffer =
  sb_alloc_size :: int
  sb_real_size :: int
  sb_bytes :: "byte list"
  sb_remainp :: int
  sb_remain_size :: int

definition SBuffer_new :: "bool \<Rightarrow> int \<Rightarrow> SBuffer option" where
  "SBuffer_new malloced allocate_size = do {
     real_size \<leftarrow> malloc_size allocate_size;
     let real_size = (if malloced then real_size else 0);
     Some \<lparr>sb_alloc_size = allocate_size, sb_real_size = real_size,
       sb_bytes = (if malloced then replicate 1000 0 else []), sb_remainp = 0, sb_remain_size = real_size\<rparr> }"

definition usage :: "int \<Rightarrow> SBuffer \<Rightarrow> SBuffer option" where
  "usage len b = (if len \<le> sb_remain_size b
     then Some (b\<lparr>sb_remainp := sb_remainp b + len, sb_remain_size := sb_remain_size b - len\<rparr>) else None)"

definition reset :: "SBuffer \<Rightarrow> SBuffer" where
  "reset b = b\<lparr>sb_remainp := 0, sb_remain_size := sb_real_size b\<rparr>"

definition get_buf :: "SBuffer \<Rightarrow> int" where
  "get_buf b = sb_remainp b"

definition get_remain_size :: "SBuffer \<Rightarrow> int" where
  "get_remain_size b = sb_remain_size b"

definition get_size :: "SBuffer \<Rightarrow> int" where
  "get_size b = sb_alloc_size b"

definition get_real_size :: "SBuffer \<Rightarrow> int" where
  "get_real_size b = sb_real_size b"

definition get_usage_size :: "SBuffer \<Rightarrow> int" where
  "get_usage_size b = sb_remainp b"

section \<open>SBufferPool\<close>

type_synonym sbuf_id = nat

record SPool =
  sp_store :: "sbuf_id \<rightharpoonup> SBuffer"
  sp_next :: sbuf_id
  sp_bufsets :: "int \<rightharpoonup> sbuf_id list"

definition new_sbuffer :: "(sbuf_id \<Rightarrow> bool) \<Rightarrow> int \<Rightarrow> SPool \<Rightarrow> (sbuf_id \<times> SPool) option" where
  "new_sbuffer malloced sz p = do {
     b \<leftarrow> SBuffer_new (malloced (sp_next p)) sz;
     Some (sp_next p, p\<lparr>sp_store := (sp_store p)(sp_next p \<mapsto> b), sp_next := sp_next p + 1\<rparr>) }"

primrec fill_list :: "nat \<Rightarrow> (sbuf_id \<Rightarrow> bool) \<Rightarrow> int \<Rightarrow> sbuf_id list \<times> SPool \<Rightarrow> (sbuf_id list \<times> SPool) option" where
  "fill_list 0 malloced sz st = Some st"
| "fill_list (Suc n) malloced sz st = do {
     (i, p) \<leftarrow> new_sbuffer malloced sz (snd st);
     b \<leftarrow> sp_store p i;
     fill_list n malloced sz (if get_real_size b > 0 then fst st @ [i] else fst st, p) }"

definition BufferList_new :: "(sbuf_id \<Rightarrow> bool) \<Rightarrow> int \<Rightarrow> SPool \<Rightarrow> SPool option" where
  "BufferList_new malloced sz p = do {
     (ids, p) \<leftarrow> fill_list 1000 malloced sz ([], p);
     Some (p\<lparr>sp_bufsets := (sp_bufsets p)(sz \<mapsto> ids)\<rparr>) }"

definition SBufferPool_new :: "(sbuf_id \<Rightarrow> bool) \<Rightarrow> SPool option" where
  "SBufferPool_new malloced = do {
     p \<leftarrow> BufferList_new malloced 128 \<lparr>sp_store = Map.empty, sp_next = 0, sp_bufsets = Map.empty\<rparr>;
     p \<leftarrow> BufferList_new malloced 256 p;
     p \<leftarrow> BufferList_new malloced 512 p;
     p \<leftarrow> BufferList_new malloced 1024 p;
     p \<leftarrow> BufferList_new malloced 2048 p;
     BufferList_new malloced 4096 p }"

text \<open>A class without a list is a null pointer, which both operations dereference.\<close>

definition get_buffer :: "(sbuf_id \<Rightarrow> bool) \<Rightarrow> int \<Rightarrow> SPool \<Rightarrow> (sbuf_id \<times> SPool) option" where
  "get_buffer malloced sz p = do {
     real_size \<leftarrow> malloc_size sz;
     li \<leftarrow> sp_bufsets p real_size;
     (case li of
        [] \<Rightarrow> new_sbuffer malloced real_size p
      | i # rest \<Rightarrow> Some (i, p\<lparr>sp_bufsets := (sp_bufsets p)(real_size \<mapsto> rest)\<rparr>)) }"

definition give_back :: "sbuf_id \<Rightarrow> SPool \<Rightarrow> SPool option" where
  "give_back i p = do {
     b \<leftarrow> sp_store p i;
     li \<leftarrow> sp_bufsets p (get_real_size b);
     Some (p\<lparr>sp_bufsets := (sp_bufsets p)(get_real_size b \<mapsto> li @ [i])\<rparr>) }"

text \<open>A guard holds the buffer it took; its destructor gives it back.\<close>

definition SBufferGuard_new :: "(sbuf_id \<Rightarrow> bool) \<Rightarrow> int \<Rightarrow> SPool \<Rightarrow> (sbuf_id \<times> SPool) option" where
  "SBufferGuard_new malloced sz p = get_buffer malloced sz p"

definition SBufferGuard_delete :: "sbuf_id \<Rightarrow> SPool \<Rightarrow> SPool option" where
  "SBufferGuard_delete i p = give_back i p"

section \<open>ReadBuffer\<close>

record BufHandle =
  bh_offset :: int
  bh_size :: int
  bh_bufsp :: sbuf_id

record ReadBuffer =
  rb_buf_list :: "BufHandle list"
  rb_cur_it :: nat
  rb_last_it :: "nat option"
  rb_cur_pos :: int
  rb_read_bytes :: int
  rb_total_bytes :: int

text \<open>
  The constructor leaves \<open>_total_bytes\<close> uninitialised and \<open>_last_it\<close> invalid, which is
  \<^term>\<open>None :: nat option\<close>; appending to a deque and erasing make it invalid again.
\<close>

definition ReadBuffer_new :: "int \<Rightarrow> ReadBuffer" where
  "ReadBuffer_new garbage = \<lparr>rb_buf_list = [], rb_cur_it = 0, rb_last_it = None, rb_cur_pos = 0, rb_read_bytes = 0,
     rb_total_bytes = garbage\<rparr>"

definition rb_Append :: "BufHandle \<Rightarrow> ReadBuffer \<Rightarrow> ReadBuffer" where
  "rb_Append h r = r\<lparr>rb_buf_list := rb_buf_list r @ [h], rb_cur_it := 0, rb_last_it := None,
     rb_total_bytes := rb_total_bytes r + bh_size h\<rparr>"

text \<open>As intended (see above). The address is relative to the buffer's \<open>get_buf\<close>.\<close>

definition rb_Next :: "ReadBuffer \<Rightarrow> ((sbuf_id \<times> int) \<times> int \<times> ReadBuffer) option" where
  "rb_Next r = (if rb_cur_it r < length (rb_buf_list r) then
     (let h = rb_buf_list r ! rb_cur_it r; sz = bh_size h - rb_cur_pos r in
      Some ((bh_bufsp h, bh_offset h + rb_cur_pos r), sz,
        r\<lparr>rb_last_it := Some (rb_cur_it r), rb_cur_it := rb_cur_it r + 1, rb_read_bytes := rb_read_bytes r + sz\<rparr>))
     else None)"

definition rb_BackUp :: "int \<Rightarrow> ReadBuffer \<Rightarrow> ReadBuffer option" where
  "rb_BackUp cnt r = (if cnt > 0 then
     (if rb_cur_it r = 0 \<or> rb_cur_it r > length (rb_buf_list r) then None
      else Some (r\<lparr>rb_cur_it := rb_cur_it r - 1,
        rb_cur_pos := bh_size (rb_buf_list r ! (rb_cur_it r - 1)) - cnt, rb_read_bytes := rb_read_bytes r - cnt\<rparr>))
     else Some (r\<lparr>rb_read_bytes := rb_read_bytes r - cnt\<rparr>))"

text \<open>Erasing from a deque keeps \<open>_cur_it\<close> valid only at the front.\<close>

definition rb_Erase :: "ReadBuffer \<Rightarrow> ReadBuffer option" where
  "rb_Erase r = do {
     last_it \<leftarrow> rb_last_it r;
     (if rb_cur_it r \<noteq> last_it then
        (if last_it = 0 \<and> rb_buf_list r \<noteq> [] then
           Some (r\<lparr>rb_buf_list := tl (rb_buf_list r), rb_last_it := None, rb_cur_it := rb_cur_it r - 1\<rparr>)
         else None)
      else Some r) }"

definition rb_TotalBytes :: "ReadBuffer \<Rightarrow> int" where
  "rb_TotalBytes r = rb_total_bytes r"

function rb_Skip_loop :: "int \<Rightarrow> ReadBuffer \<Rightarrow> (int \<times> ReadBuffer) option" where
  "rb_Skip_loop cnt r = (if cnt > 0 then
     (case rb_Next r of
        None \<Rightarrow> Some (cnt, r)
      | Some (data, sz, r') \<Rightarrow>
          if sz > cnt then map_option (\<lambda>r''. (cnt - cnt, r'')) (rb_BackUp (sz - cnt) r')
          else rb_Skip_loop (cnt - sz) r')
     else Some (cnt, r))"
  by pat_completeness auto
termination
  by (relation "measure (\<lambda>(c, r). length (rb_buf_list r) - rb_cur_it r)")
    (auto simp: rb_Next_def Let_def split: if_splits)

definition rb_Skip :: "int \<Rightarrow> ReadBuffer \<Rightarrow> (bool \<times> ReadBuffer) option" where
  "rb_Skip cnt r = map_option (\<lambda>(c, r). (c = 0, r)) (rb_Skip_loop cnt r)"

definition rb_ByteCount :: "ReadBuffer \<Rightarrow> int" where
  "rb_ByteCount r = rb_read_bytes r"

section \<open>What a read buffer delivers\<close>

definition sb_window :: "SPool \<Rightarrow> sbuf_id \<times> int \<Rightarrow> int \<Rightarrow> byte list" where
  "sb_window p a n = (case sp_store p (fst a) of None \<Rightarrow> []
     | Some b \<Rightarrow> take (nat n) (drop (nat (get_buf b + snd a)) (sb_bytes b)))"

definition handle_bytes :: "SPool \<Rightarrow> int \<Rightarrow> BufHandle \<Rightarrow> byte list" where
  "handle_bytes p pos h = sb_window p (bh_bufsp h, bh_offset h + pos) (bh_size h - pos)"

definition rb_next_bytes :: "SPool \<Rightarrow> ReadBuffer \<Rightarrow> (byte list \<times> ReadBuffer) option" where
  "rb_next_bytes p r = map_option (\<lambda>(a, n, r'). (sb_window p a n, r')) (rb_Next r)"

definition rb_rest :: "SPool \<Rightarrow> ReadBuffer \<Rightarrow> byte list" where
  "rb_rest p r = concat (map (handle_bytes p (rb_cur_pos r)) (drop (rb_cur_it r) (rb_buf_list r)))"

interpretation srb: chunk_source "rb_next_bytes p" "rb_rest p" "\<lambda>r. length (rb_buf_list r) - rb_cur_it r" for p
proof
  fix r d r'
  assume a: "rb_next_bytes p r = Some (d, r')"
  then have it: "rb_cur_it r < length (rb_buf_list r)" by (auto simp: rb_next_bytes_def rb_Next_def split: if_splits)
  then have "drop (rb_cur_it r) (rb_buf_list r) = rb_buf_list r ! rb_cur_it r # drop (rb_cur_it r + 1) (rb_buf_list r)"
    by (simp add: Cons_nth_drop_Suc)
  then show "rb_rest p r = d @ rb_rest p r' \<and>
      length (rb_buf_list r') - rb_cur_it r' < length (rb_buf_list r) - rb_cur_it r"
    using a it by (auto simp: rb_next_bytes_def rb_Next_def Let_def rb_rest_def handle_bytes_def)
next
  fix r
  assume "rb_next_bytes p r = None"
  then show "rb_rest p r = []" by (auto simp: rb_next_bytes_def rb_Next_def Let_def rb_rest_def split: if_splits)
qed

section \<open>The pool serves every size, but not with enough memory\<close>

definition size_classes :: "int set" where
  "size_classes = {128, 256, 512, 1024, 2048, 4096}"

lemma malloc_size_class:
  assumes "0 < sz" "sz \<le> 4096"
  shows "\<exists>c\<in>size_classes. malloc_size sz = Some c \<and> sz \<le> c \<and> (c = 128 \<or> c < 2 * sz) \<and> (c \<le> 1000 \<longleftrightarrow> sz \<le> 512)"
  using assms by (simp add: malloc_size_def size_classes_def)

lemma malloc_size_fixed: "c \<in> size_classes \<Longrightarrow> malloc_size c = Some c"
  by (auto simp: malloc_size_def size_classes_def)

definition sbuffer_ok :: "SBuffer \<Rightarrow> bool" where
  "sbuffer_ok b \<longleftrightarrow> sb_real_size b \<in> size_classes \<and> length (sb_bytes b) = 1000 \<and> 0 \<le> sb_remainp b \<and>
     sb_remain_size b = sb_real_size b - sb_remainp b \<and> 0 \<le> sb_remain_size b"

text \<open>A buffer whose \<open>malloc\<close> failed has no bytes and the real size 0.\<close>

definition failed_buffer :: "SBuffer \<Rightarrow> bool" where
  "failed_buffer b \<longleftrightarrow> sb_real_size b = 0 \<and> sb_bytes b = [] \<and> sb_remainp b = 0 \<and> sb_remain_size b = 0"

definition pool_inv :: "SPool \<Rightarrow> bool" where
  "pool_inv p \<longleftrightarrow> (\<forall>i b. sp_store p i = Some b \<longrightarrow> (sbuffer_ok b \<or> failed_buffer b) \<and> i < sp_next p) \<and>
     (\<forall>c ids i. sp_bufsets p c = Some ids \<and> i \<in> set ids \<longrightarrow> (\<exists>b. sp_store p i = Some b \<and> sb_real_size b = c))"

lemma pool_inv_listed:
  "pool_inv p \<Longrightarrow> sp_bufsets p c = Some ids \<Longrightarrow> i \<in> set ids \<Longrightarrow> \<exists>b. sp_store p i = Some b \<and> sb_real_size b = c"
  unfolding pool_inv_def by blast

definition pool_ok :: "SPool \<Rightarrow> bool" where
  "pool_ok p \<longleftrightarrow> pool_inv p \<and> dom (sp_bufsets p) = size_classes"

lemma SBuffer_new_ok:
  assumes "c \<in> size_classes"
  shows "\<exists>b. SBuffer_new malloced c = Some b \<and> (sbuffer_ok b \<or> failed_buffer b) \<and>
    sb_real_size b = (if malloced then c else 0) \<and> (\<not> malloced \<longrightarrow> failed_buffer b)"
  using assms
  by (auto simp: SBuffer_new_def malloc_size_fixed sbuffer_ok_def failed_buffer_def size_classes_def)

lemma new_sbuffer_ok:
  assumes "c \<in> size_classes" "pool_inv p"
  shows "\<exists>i p' b. new_sbuffer malloced c p = Some (i, p') \<and> pool_inv p' \<and> sp_store p' i = Some b \<and>
    sb_real_size b = (if malloced (sp_next p) then c else 0) \<and> (\<not> malloced (sp_next p) \<longrightarrow> failed_buffer b) \<and>
    sp_bufsets p' = sp_bufsets p \<and> (\<forall>j b. sp_store p j = Some b \<longrightarrow> sp_store p' j = Some b)"
proof -
  obtain b where b: "SBuffer_new (malloced (sp_next p)) c = Some b" "sbuffer_ok b \<or> failed_buffer b"
      "sb_real_size b = (if malloced (sp_next p) then c else 0)" "\<not> malloced (sp_next p) \<longrightarrow> failed_buffer b"
    using SBuffer_new_ok [OF assms(1)] by blast
  have free: "sp_store p (sp_next p) = None" using assms(2) by (force simp: pool_inv_def)
  let ?p = "p\<lparr>sp_store := (sp_store p)(sp_next p \<mapsto> b), sp_next := sp_next p + 1\<rparr>"
  have "pool_inv ?p"
    unfolding pool_inv_def
  proof (intro conjI allI impI)
    fix j b' assume "sp_store ?p j = Some b'"
    then show "sbuffer_ok b' \<or> failed_buffer b'" "j < sp_next ?p"
      using assms(2) b(2) by (auto simp: pool_inv_def less_Suc_eq split: if_splits)
  next
    fix k ids j assume "sp_bufsets ?p k = Some ids \<and> j \<in> set ids"
    then obtain b' where "sp_store p j = Some b'" "sb_real_size b' = k" using pool_inv_listed [OF assms(2)] by fastforce
    then show "\<exists>b. sp_store ?p j = Some b \<and> sb_real_size b = k" using free by auto
  qed
  then show ?thesis using b free by (auto simp: new_sbuffer_def)
qed

lemma fill_list_ok:
  assumes "c \<in> size_classes"
  shows "pool_inv p \<Longrightarrow> \<forall>i\<in>set ids. \<exists>b. sp_store p i = Some b \<and> sb_real_size b = c \<Longrightarrow>
    \<exists>ids' p'. fill_list n malloced c (ids, p) = Some (ids', p') \<and> pool_inv p' \<and> sp_bufsets p' = sp_bufsets p \<and>
      (\<forall>i\<in>set ids'. \<exists>b. sp_store p' i = Some b \<and> sb_real_size b = c)"
proof (induction n arbitrary: ids p)
  case (Suc n)
  obtain i p1 b where n: "new_sbuffer malloced c p = Some (i, p1)" "pool_inv p1" "sp_store p1 i = Some b"
      "sb_real_size b = (if malloced (sp_next p) then c else 0)" "sp_bufsets p1 = sp_bufsets p"
      "\<forall>j b. sp_store p j = Some b \<longrightarrow> sp_store p1 j = Some b"
    using new_sbuffer_ok [OF assms Suc.prems(1)] by blast
  let ?ids = "if get_real_size b > 0 then ids @ [i] else ids"
  have "\<exists>b. sp_store p1 j = Some b \<and> sb_real_size b = c" if "j \<in> set ids" for j
    using Suc.prems(2) n(6) that by blast
  moreover have "sb_real_size b = c" if "get_real_size b > 0"
    using that n(4) by (simp add: get_real_size_def split: if_splits)
  ultimately have "\<forall>j\<in>set ?ids. \<exists>b. sp_store p1 j = Some b \<and> sb_real_size b = c" using n(3) by auto
  from Suc.IH [OF n(2) this] show ?case using n(1,3,5) by (simp del: split_paired_Ex cong: if_cong split del: if_split)
qed simp

lemma BufferList_new_ok:
  assumes "c \<in> size_classes" "pool_inv p"
  shows "\<exists>p'. BufferList_new malloced c p = Some p' \<and> pool_inv p' \<and> dom (sp_bufsets p') = insert c (dom (sp_bufsets p))"
proof -
  obtain ids p' where f: "fill_list 1000 malloced c ([], p) = Some (ids, p')" "pool_inv p'" "sp_bufsets p' = sp_bufsets p"
      "\<forall>i\<in>set ids. \<exists>b. sp_store p' i = Some b \<and> sb_real_size b = c"
    using fill_list_ok [OF assms, of "[]" 1000 malloced] by auto
  then have "pool_inv (p'\<lparr>sp_bufsets := (sp_bufsets p')(c \<mapsto> ids)\<rparr>)"
    by (auto simp: pool_inv_def split: if_splits)
  then show ?thesis using f by (simp add: BufferList_new_def)
qed

lemma SBufferPool_new_ok: "\<exists>p. SBufferPool_new malloced = Some p \<and> pool_ok p"
proof -
  let ?B = "BufferList_new malloced"
  have "pool_inv \<lparr>sp_store = Map.empty, sp_next = 0, sp_bufsets = Map.empty\<rparr>" by (simp add: pool_inv_def)
  from BufferList_new_ok [OF _ this, of 128 malloced]
  obtain p1 where 1: "?B 128 \<lparr>sp_store = Map.empty, sp_next = 0, sp_bufsets = Map.empty\<rparr> = Some p1" "pool_inv p1"
      "dom (sp_bufsets p1) = {128}" by (auto simp: size_classes_def)
  obtain p2 where 2: "?B 256 p1 = Some p2" "pool_inv p2" "dom (sp_bufsets p2) = {256, 128}"
    using BufferList_new_ok [OF _ 1(2), of 256 malloced] 1(3) by (auto simp: size_classes_def)
  obtain p3 where 3: "?B 512 p2 = Some p3" "pool_inv p3" "dom (sp_bufsets p3) = {512, 256, 128}"
    using BufferList_new_ok [OF _ 2(2), of 512 malloced] 2(3) by (auto simp: size_classes_def)
  obtain p4 where 4: "?B 1024 p3 = Some p4" "pool_inv p4" "dom (sp_bufsets p4) = {1024, 512, 256, 128}"
    using BufferList_new_ok [OF _ 3(2), of 1024 malloced] 3(3) by (auto simp: size_classes_def)
  obtain p5 where 5: "?B 2048 p4 = Some p5" "pool_inv p5" "dom (sp_bufsets p5) = {2048, 1024, 512, 256, 128}"
    using BufferList_new_ok [OF _ 4(2), of 2048 malloced] 4(3) by (auto simp: size_classes_def)
  obtain p6 where 6: "?B 4096 p5 = Some p6" "pool_inv p6" "dom (sp_bufsets p6) = {4096, 2048, 1024, 512, 256, 128}"
    using BufferList_new_ok [OF _ 5(2), of 4096 malloced] 5(3) by (auto simp: size_classes_def)
  have "pool_ok p6" using 6 by (auto simp: pool_ok_def size_classes_def)
  then show ?thesis using 1(1) 2(1) 3(1) 4(1) 5(1) 6(1) by (simp add: SBufferPool_new_def)
qed

lemma get_buffer_ok:
  assumes "pool_ok p" "c \<in> size_classes" "malloc_size sz = Some c"
  shows "\<exists>i p' b. get_buffer malloced sz p = Some (i, p') \<and> pool_ok p' \<and> sp_store p' i = Some b \<and>
    (if sp_bufsets p c = Some [] \<and> \<not> malloced (sp_next p) then failed_buffer b else sb_real_size b = c)"
proof -
  obtain li where li: "sp_bufsets p c = Some li" using assms(1,2) by (auto simp: pool_ok_def)
  show ?thesis
  proof (cases li)
    case Nil
    obtain i p' b where "new_sbuffer malloced c p = Some (i, p')" "pool_inv p'" "sp_store p' i = Some b"
        "sb_real_size b = (if malloced (sp_next p) then c else 0)" "\<not> malloced (sp_next p) \<longrightarrow> failed_buffer b"
        "sp_bufsets p' = sp_bufsets p"
      using new_sbuffer_ok [OF assms(2), of p malloced] assms(1) by (auto simp: pool_ok_def)
    then show ?thesis using assms(1,3) li Nil by (auto simp: get_buffer_def pool_ok_def)
  next
    case (Cons i rest)
    obtain b where b: "sp_store p i = Some b" "sb_real_size b = c"
      using pool_inv_listed [OF _ li] assms(1) Cons by (auto simp: pool_ok_def)
    have "\<exists>b. sp_store p j = Some b \<and> sb_real_size b = c" if "j \<in> set rest" for j
      using pool_inv_listed [OF _ li, of j] assms(1) Cons that by (simp add: pool_ok_def)
    then have "pool_ok (p\<lparr>sp_bufsets := (sp_bufsets p)(c \<mapsto> rest)\<rparr>)"
      using assms(1,2) by (auto simp: pool_ok_def pool_inv_def)
    then show ?thesis using b assms(3) li Cons by (simp add: get_buffer_def)
  qed
qed

lemma give_back_ok:
  assumes "pool_ok p" "sp_store p i = Some b" and c: "sb_real_size b \<in> size_classes"
  shows "\<exists>p'. give_back i p = Some p' \<and> pool_ok p'"
proof -
  obtain li where li: "sp_bufsets p (sb_real_size b) = Some li" using assms(1) c by (auto simp: pool_ok_def)
  then have "pool_ok (p\<lparr>sp_bufsets := (sp_bufsets p)(sb_real_size b \<mapsto> li @ [i])\<rparr>)"
    using assms c by (fastforce simp: pool_ok_def pool_inv_def split: if_splits)
  then show ?thesis using assms(2) li by (simp add: give_back_def get_real_size_def)
qed

lemma give_back_failed:
  assumes "pool_ok p" "sp_store p i = Some b" "failed_buffer b"
  shows "give_back i p = None"
proof -
  have "0 \<notin> dom (sp_bufsets p)" using assms(1) by (simp add: pool_ok_def size_classes_def)
  then have "sp_bufsets p 0 = None" by (simp add: domIff)
  then show ?thesis using assms(2,3) by (auto simp: give_back_def failed_buffer_def get_real_size_def)
qed

text \<open>
  C20: Whatever calls of \<open>malloc\<close> fail, the pool is built with a list for each size class, and from then on
  every request of 1 to 4096 bytes returns a buffer. It comes from the list of the smallest class
  that holds the request; only when that list is empty is a new one made. If the \<open>malloc\<close> of the new
  one fails, the caller still gets a buffer: one without bytes and of real size 0, and giving it back
  dereferences a null list. Otherwise the buffer has the size of its class and can be given back.
  But every block is allocated with 1000 bytes whatever its class: the window that the
  buffer offers stays inside its block exactly for requests of at most 512 bytes.
\<close>

theorem sbuffer_pool_serves:
  assumes "pool_ok p" "0 < sz" "sz \<le> 4096"
  shows "(\<exists>p0. SBufferPool_new malloced = Some p0 \<and> pool_ok p0) \<and>
    (\<exists>c i p' b. malloc_size sz = Some c \<and> c \<in> dom (sp_bufsets p) \<and> sz \<le> c \<and> (c = 128 \<or> c < 2 * sz) \<and>
      get_buffer malloced sz p = Some (i, p') \<and> pool_ok p' \<and> sp_store p' i = Some b \<and>
      (if sp_bufsets p c = Some [] \<and> \<not> malloced (sp_next p)
       then get_real_size b = 0 \<and> get_remain_size b = 0 \<and> sb_bytes b = [] \<and> give_back i p' = None
       else get_real_size b = c \<and> (\<exists>p''. give_back i p' = Some p'' \<and> pool_ok p'') \<and>
         (get_buf b + get_remain_size b \<le> int (length (sb_bytes b)) \<longleftrightarrow> sz \<le> 512)))"
proof -
  obtain c where c: "c \<in> size_classes" "malloc_size sz = Some c" "sz \<le> c" "c = 128 \<or> c < 2 * sz" "c \<le> 1000 \<longleftrightarrow> sz \<le> 512"
    using malloc_size_class [OF assms(2,3)] by blast
  have dom: "c \<in> dom (sp_bufsets p)" using c(1) assms(1) by (simp add: pool_ok_def)
  obtain i p' b where g: "get_buffer malloced sz p = Some (i, p')" "pool_ok p'" "sp_store p' i = Some b"
      "if sp_bufsets p c = Some [] \<and> \<not> malloced (sp_next p) then failed_buffer b else sb_real_size b = c"
    using get_buffer_ok [OF assms(1) c(1,2)] by blast
  show ?thesis
  proof (cases "sp_bufsets p c = Some [] \<and> \<not> malloced (sp_next p)")
    case True
    with g(4) have "failed_buffer b" by simp
    then show ?thesis
      using SBufferPool_new_ok g(1-3) c(2-4) dom True give_back_failed [OF g(2,3)]
      by (auto simp: get_real_size_def get_remain_size_def failed_buffer_def)
  next
    case False
    with g(4) have r: "sb_real_size b = c" by simp
    then have "\<not> failed_buffer b" using c(1) by (auto simp: failed_buffer_def size_classes_def)
    then have "sbuffer_ok b" using g(2,3) unfolding pool_ok_def pool_inv_def by blast
    then have "get_buf b + get_remain_size b \<le> int (length (sb_bytes b)) \<longleftrightarrow> sz \<le> 512"
      using c(5) r by (simp add: sbuffer_ok_def get_buf_def get_remain_size_def)
    moreover obtain p'' where "give_back i p' = Some p''" "pool_ok p''"
      using give_back_ok [OF g(2,3)] r c(1) by blast
    ultimately show ?thesis
      using SBufferPool_new_ok g(1-3) c(2-4) dom False r by (auto simp: get_real_size_def)
  qed
qed

theorem sbuffer_pool_serves_witness:
  "(\<exists>p i p' b. SBufferPool_new (\<lambda>_. True) = Some p \<and> get_buffer (\<lambda>_. True) 600 p = Some (i, p') \<and>
     sp_store p' i = Some b \<and> get_real_size b = 1024 \<and>
     \<not> get_buf b + get_remain_size b \<le> int (length (sb_bytes b))) \<and>
   (\<exists>p i p' b. pool_ok p \<and> get_buffer (\<lambda>_. False) 600 p = Some (i, p') \<and> sp_store p' i = Some b \<and>
     get_real_size b = 0 \<and> give_back i p' = None)"
proof -
  obtain p where p: "SBufferPool_new (\<lambda>_. True) = Some p" "pool_ok p" using SBufferPool_new_ok by blast
  have sz: "malloc_size 600 = Some 1024" by (simp add: malloc_size_def)
  let ?q = "\<lparr>sp_store = Map.empty, sp_next = 0, sp_bufsets = (\<lambda>c. if c \<in> size_classes then Some [] else None)\<rparr>"
  have q: "pool_ok ?q" "sp_bufsets ?q 1024 = Some []"
    by (auto simp: pool_ok_def pool_inv_def dom_def size_classes_def split: if_splits)
  show ?thesis
    using sbuffer_pool_serves [OF p(2), of 600 "\<lambda>_. True"] p(1) sz
      sbuffer_pool_serves [OF q(1), of 600 "\<lambda>_. False"] q by fastforce
qed

end
