(* ===== verification/Ss_Stream.thy ===== *)
theory Ss_Stream
  imports Ss_Buffer
begin

text \<open>
  Streams of the stream server: the binary message parser (\<^verbatim>\<open>src/binary_stream_parser.h\<close>,
  \<^verbatim>\<open>src/binary_request.h\<close>), \<open>SStream\<close> (\<^verbatim>\<open>src/stream.h\<close>) and the connection statistics
  (\<^verbatim>\<open>src/connection.h\<close>). A chunk is the number of the buffer it was received into and its bytes from
  \<open>get_buf\<close> on; the results of \<open>recv\<close> are a script. \<^term>\<open>None\<close> is a failed assertion, undefined
  behaviour or a loop without end.
\<close>

section \<open>Requests\<close>

definition g_header_size :: int where
  "g_header_size = 12"

text \<open>\<open>RpcMessageHeader\<close> as the bytes that \<open>memcpy\<close> fills.\<close>

definition hdr_meta_size :: "byte list \<Rightarrow> int" where
  "hdr_meta_size h = le32 (take 4 h)"

definition hdr_data_size :: "byte list \<Rightarrow> int" where
  "hdr_data_size h = le32 (take 4 (drop 4 h))"

definition hdr_message_size :: "byte list \<Rightarrow> int" where
  "hdr_message_size h = le32 (take 4 (drop 8 h))"

record SBinaryRequest =
  br_read_buf :: ReadBuffer
  br_recieved_time :: int
  br_remote_ip :: string
  br_remote_port :: int

definition SBinaryRequest_new :: "int \<Rightarrow> SBinaryRequest" where
  "SBinaryRequest_new garbage = \<lparr>br_read_buf = ReadBuffer_new garbage, br_recieved_time = 0, br_remote_ip = [],
     br_remote_port = garbage\<rparr>"

definition set_recieve_time :: "int \<Rightarrow> SBinaryRequest \<Rightarrow> SBinaryRequest" where
  "set_recieve_time tm r = r\<lparr>br_recieved_time := tm\<rparr>"

definition set_remote_ip :: "string \<Rightarrow> SBinaryRequest \<Rightarrow> SBinaryRequest" where
  "set_remote_ip ip r = r\<lparr>br_remote_ip := ip\<rparr>"

definition set_remote_port :: "int \<Rightarrow> SBinaryRequest \<Rightarrow> SBinaryRequest" where
  "set_remote_port port r = r\<lparr>br_remote_port := port\<rparr>"

section \<open>SBinarySTreamParser\<close>

datatype ReadType = RPC_HEADER | RPC_MESSAGE

record SBinarySTreamParser =
  bp_recieve_header :: "byte list"
  bp_type :: ReadType
  bp_requestsp :: SBinaryRequest
  bp_module_has_read_size :: int

definition reset_recieve_env :: "SBinarySTreamParser \<Rightarrow> SBinarySTreamParser" where
  "reset_recieve_env p = p\<lparr>bp_module_has_read_size := 0, bp_type := RPC_HEADER\<rparr>"

definition SBinarySTreamParser_new :: "int \<Rightarrow> SBinarySTreamParser" where
  "SBinarySTreamParser_new garbage = \<lparr>bp_recieve_header = replicate 12 0, bp_type = RPC_HEADER,
     bp_requestsp = SBinaryRequest_new garbage, bp_module_has_read_size = 0\<rparr>"

definition buf_at :: "byte list \<Rightarrow> int \<Rightarrow> int \<Rightarrow> byte list option" where
  "buf_at buf consume n = (if 0 \<le> n \<and> 0 \<le> consume \<and> consume + n \<le> int (length buf)
     then Some (take (nat n) (drop (nat consume) buf)) else None)"

definition write_header :: "int \<Rightarrow> byte list \<Rightarrow> byte list \<Rightarrow> byte list" where
  "write_header off d xs = take (nat off) xs @ d @ drop (nat off + length d) xs"

text \<open>
  The case \<open>RPC_MESSAGE\<close>, which the case \<open>RPC_HEADER\<close> falls into. It does not compile: \<open>BufHandle\<close> is called
  with the position, the size and the buffer, while its constructor takes the buffer first. The
  definition gives the arguments the meaning their types suggest; no statement about the program rests on it.
\<close>

definition parser_message :: "sbuf_id \<Rightarrow> int \<Rightarrow> int \<Rightarrow> SBinarySTreamParser \<Rightarrow> int \<times> int \<times> int \<times> SBinarySTreamParser" where
  "parser_message b consume remain_length p =
     (let message_size = hdr_message_size (bp_recieve_header p);
          real_read = min (message_size - bp_module_has_read_size p) remain_length;
          req = (bp_requestsp p)\<lparr>br_read_buf := rb_Append \<lparr>bh_offset = consume, bh_size = real_read, bh_bufsp = b\<rparr>
            (br_read_buf (bp_requestsp p))\<rparr>;
          p = p\<lparr>bp_requestsp := req, bp_module_has_read_size := bp_module_has_read_size p + real_read\<rparr>
      in if bp_module_has_read_size p < message_size then (0, consume + real_read, remain_length - real_read, p)
         else (1, consume + real_read, remain_length - real_read, reset_recieve_env p))"

definition parser_msg :: "sbuf_id \<Rightarrow> byte list \<Rightarrow> int \<Rightarrow> int \<Rightarrow> SBinarySTreamParser \<Rightarrow>
    (int \<times> int \<times> int \<times> SBinarySTreamParser) option" where
  "parser_msg b buf consume remain_length p = (case bp_type p of
      RPC_HEADER \<Rightarrow>
        if \<not> bp_module_has_read_size p < g_header_size then None
        else (let real_read = min (g_header_size - bp_module_has_read_size p) remain_length in do {
          d \<leftarrow> buf_at buf consume real_read;
          let p = p\<lparr>bp_recieve_header := write_header (bp_module_has_read_size p) d (bp_recieve_header p),
                bp_module_has_read_size := bp_module_has_read_size p + real_read\<rparr>;
          let consume = consume + real_read;
          let remain_length = remain_length - real_read;
          (if bp_module_has_read_size p < g_header_size then Some (0, consume, remain_length, p)
           else (let h = bp_recieve_header p; total = hdr_meta_size h + hdr_data_size h in
             if \<not> (- (2 ^ 31) \<le> total \<and> total < 2 ^ 31) then None
             else if hdr_message_size h \<noteq> total then Some (- 1, consume, remain_length, p)
             else (let p = p\<lparr>bp_module_has_read_size := 0, bp_type := RPC_MESSAGE\<rparr> in
               if remain_length = 0 then Some (0, consume, remain_length, p)
               else Some (parser_message b consume remain_length p)))) })
    | RPC_MESSAGE \<Rightarrow> Some (parser_message b consume remain_length p))"

definition get_request :: "int \<Rightarrow> SBinarySTreamParser \<Rightarrow> SBinaryRequest \<times> SBinarySTreamParser" where
  "get_request garbage p = (bp_requestsp p, p\<lparr>bp_requestsp := SBinaryRequest_new garbage\<rparr>)"

section \<open>SStream\<close>

record SConnectionStat =
  cs_last_tick_time :: int
  cs_recieve_data_size :: "64 word"

definition refresh_stat :: "int \<Rightarrow> int \<Rightarrow> SConnectionStat \<Rightarrow> SConnectionStat" where
  "refresh_stat now sz c = c\<lparr>cs_last_tick_time := now, cs_recieve_data_size := cs_recieve_data_size c + word_of_int sz\<rparr>"

record SStream =
  st_parser :: "SBinarySTreamParser option"
  st_magic_string_recieve_size :: int
  st_magic_number :: "byte list"
  st_dst_ip :: string
  st_dst_port :: int
  st_stat :: SConnectionStat

definition SStream_new :: "string \<Rightarrow> int \<Rightarrow> SStream" where
  "SStream_new ip port = \<lparr>st_parser = None, st_magic_string_recieve_size = 0, st_magic_number = replicate 4 0,
     st_dst_ip = ip, st_dst_port = port, st_stat = \<lparr>cs_last_tick_time = 0, cs_recieve_data_size = 0\<rparr>\<rparr>"

definition choose_parser :: "int \<Rightarrow> SStream \<Rightarrow> bool \<times> SStream" where
  "choose_parser garbage st = (if le32 (st_magic_number st) = 1
     then (True, st\<lparr>st_parser := Some (SBinarySTreamParser_new garbage)\<rparr>) else (False, st))"

text \<open>The part of the loop body that collects the magic; it yields the new \<open>consume\<close> and \<open>remain_length\<close>.\<close>

definition read_magic :: "byte list \<Rightarrow> int \<Rightarrow> int \<Rightarrow> SStream \<Rightarrow> (int \<times> int \<times> SStream) option" where
  "read_magic buf consume remain_length st = (if st_magic_string_recieve_size st < 4 then
     (let real_read = min (4 - st_magic_string_recieve_size st) remain_length in do {
        d \<leftarrow> buf_at buf consume real_read;
        Some (consume + real_read, remain_length - real_read,
          st\<lparr>st_magic_number := write_header (st_magic_string_recieve_size st) d (st_magic_number st),
             st_magic_string_recieve_size := st_magic_string_recieve_size st + real_read\<rparr>) })
     else Some (consume, remain_length, st))"

text \<open>\<open>now\<close> is the result of \<open>time(NULL)\<close>; the requests that were completed are returned in order.\<close>

partial_function (option) split_loop :: "int \<Rightarrow> int \<Rightarrow> sbuf_id \<Rightarrow> byte list \<Rightarrow> int \<Rightarrow> int \<Rightarrow> SStream \<Rightarrow>
    (bool \<times> SBinaryRequest list \<times> SStream) option" where
  "split_loop garbage now b buf consume remain_length st = (if remain_length > 0 then do {
     (consume, remain_length, st) \<leftarrow> read_magic buf consume remain_length st;
     (if st_magic_string_recieve_size st < 4 then Some (True, [], st)
      else (case st_parser st of
         None \<Rightarrow> Some (False, [], st)
       | Some _ \<Rightarrow>
         (case choose_parser garbage st of (chosen, st) \<Rightarrow>
            if chosen then Some (False, [], st)
            else (case st_parser st of
               None \<Rightarrow> None
             | Some p \<Rightarrow> do {
                 (ret, consume, remain_length, p) \<leftarrow> parser_msg b buf consume remain_length p;
                 (if ret = 0 then Some (True, [], st\<lparr>st_parser := Some p\<rparr>)
                  else if ret < 0 then Some (False, [], st\<lparr>st_parser := Some p\<rparr>)
                  else (case get_request garbage p of (request, p) \<Rightarrow> do {
                    let request = set_remote_port (st_dst_port st) (set_remote_ip (st_dst_ip st) (set_recieve_time now request));
                    (ok, requests, st) \<leftarrow> split_loop garbage now b buf consume remain_length
                      (st\<lparr>st_parser := Some p, st_magic_string_recieve_size := 0\<rparr>);
                    Some (ok, request # requests, st) })) })))) }
     else Some (True, [], st))"

definition split_message :: "int \<Rightarrow> int \<Rightarrow> sbuf_id \<Rightarrow> byte list \<Rightarrow> SStream \<Rightarrow>
    (bool \<times> SBinaryRequest list \<times> SStream) option" where
  "split_message garbage now b buf st = split_loop garbage now b buf 0 (int (length buf)) st"

text \<open>
  \<open>on_read_some\<close> over the results of its \<open>recv\<close> calls: data with the buffer they went into, the end of
  the stream, or an error; when the script is used up there is no data (\<open>EAGAIN\<close>). The result says whether
  the connection was released, which requests were handed to the callback, and the stream.
\<close>

datatype ss_recv = SRecv sbuf_id "byte list" | SEof | SErr int

fun on_read_some :: "int \<Rightarrow> int \<Rightarrow> ss_recv list \<Rightarrow> SStream \<Rightarrow> (bool \<times> SBinaryRequest list \<times> SStream) option" where
  "on_read_some garbage now [] st = Some (False, [], st)"
| "on_read_some garbage now (SEof # rs) st = Some (True, [], st)"
| "on_read_some garbage now (SErr e # rs) st =
     (if e = 11 then Some (False, [], st)
      else if e = 4 then on_read_some garbage now rs st
      else Some (True, [], st))"
| "on_read_some garbage now (SRecv b d # rs) st = do {
     (ok, requests, st) \<leftarrow> split_message garbage now b d (st\<lparr>st_stat := refresh_stat now (int (length d)) (st_stat st)\<rparr>);
     (if \<not> ok then Some (True, [], st)
      else do {
        (released, more, st) \<leftarrow> on_read_some garbage now rs st;
        Some (released, requests @ more, st) }) }"

section \<open>No stream ever parses a message\<close>

lemma split_without_parser:
  assumes "st_parser st = None" "0 \<le> st_magic_string_recieve_size st" "st_magic_string_recieve_size st < 4" "d \<noteq> []"
  shows "\<exists>st'. split_message garbage now b d st =
      Some (st_magic_string_recieve_size st + int (length d) < 4, [], st') \<and> st_parser st' = None \<and>
    st_magic_string_recieve_size st' = min 4 (st_magic_string_recieve_size st + int (length d))"
proof -
  let ?m = "st_magic_string_recieve_size st" and ?n = "min (4 - st_magic_string_recieve_size st) (int (length d))"
  have n: "0 \<le> ?n" "?n \<le> int (length d)" using assms(2,3) by auto
  have e: "?m + ?n = min 4 (?m + int (length d))" "?m + int (length d) < 4 \<longleftrightarrow> ?m + ?n < 4" by auto
  define st1 where "st1 = st\<lparr>st_magic_number := write_header ?m (take (nat ?n) d) (st_magic_number st),
    st_magic_string_recieve_size := ?m + ?n\<rparr>"
  have rm: "read_magic d 0 (int (length d)) st = Some (?n, int (length d) - ?n, st1)"
    using assms(3) n by (simp add: read_magic_def buf_at_def Let_def st1_def)
  have st1: "st_parser st1 = None" "st_magic_string_recieve_size st1 = ?m + ?n" using assms(1) by (simp_all add: st1_def)
  have "split_message garbage now b d st = Some (st_magic_string_recieve_size st1 < 4, [], st1)"
    unfolding split_message_def using assms(4) st1(1)
    by (cases "st_magic_string_recieve_size st1 < 4"; subst split_loop.simps; simp add: rm)
  then show ?thesis using e st1 by simp
qed

lemma on_read_without_parser:
  assumes "st_parser st = None" "0 \<le> st_magic_string_recieve_size st" "st_magic_string_recieve_size st < 4"
    and "\<forall>c\<in>set cs. snd c \<noteq> []"
  shows "\<exists>st'. on_read_some garbage now (map (\<lambda>(b, d). SRecv b d) cs) st =
      Some (\<not> st_magic_string_recieve_size st + int (length (concat (map snd cs))) < 4, [], st') \<and> st_parser st' = None"
  using assms
proof (induction cs arbitrary: st)
  case (Cons c cs)
  obtain b d where c: "c = (b, d)" by (cases c)
  let ?st = "st\<lparr>st_stat := refresh_stat now (int (length d)) (st_stat st)\<rparr>"
  obtain st' where s: "split_message garbage now b d ?st =
      Some (st_magic_string_recieve_size st + int (length d) < 4, [], st')" "st_parser st' = None"
      "st_magic_string_recieve_size st' = min 4 (st_magic_string_recieve_size st + int (length d))"
    using split_without_parser [of ?st d garbage now b] Cons.prems c by auto
  show ?case
  proof (cases "st_magic_string_recieve_size st + int (length d) < 4")
    case True
    then obtain st2 where "on_read_some garbage now (map (\<lambda>(b, d). SRecv b d) cs) st' =
        Some (\<not> st_magic_string_recieve_size st' + int (length (concat (map snd cs))) < 4, [], st2)" "st_parser st2 = None"
      using Cons.IH [of st'] s Cons.prems by auto
    then show ?thesis using s True c by (simp add: algebra_simps)
  next
    case False
    then show ?thesis using s c by simp
  qed
qed simp

text \<open>
  C35: A new stream never parses anything: \<open>_parser\<close> is null and the condition
  \<open>!_parser || choose_parser()\<close> gives up on a null parser before one could be chosen. However the bytes
  arrive, no request reaches the callback, and as soon as the four magic bytes are complete (whatever
  they are) the connection is released.
\<close>

theorem stream_never_parses:
  assumes "\<forall>c\<in>set cs. snd c \<noteq> []"
  shows "\<exists>st'. on_read_some garbage now (map (\<lambda>(b, d). SRecv b d) cs) (SStream_new ip port) =
      Some (4 \<le> length (concat (map snd cs)), [], st') \<and> st_parser st' = None"
proof -
  have "\<exists>st'. on_read_some garbage now (map (\<lambda>(b, d). SRecv b d) cs) (SStream_new ip port) =
      Some (\<not> st_magic_string_recieve_size (SStream_new ip port) + int (length (concat (map snd cs))) < 4, [], st') \<and>
      st_parser st' = None"
    by (rule on_read_without_parser) (use assms in \<open>simp_all add: SStream_new_def\<close>)
  moreover have "(\<not> st_magic_string_recieve_size (SStream_new ip port) + int (length (concat (map snd cs))) < 4) =
      (4 \<le> length (concat (map snd cs)))"
    by (auto simp: SStream_new_def simp del: length_concat)
  ultimately show ?thesis by simp
qed

theorem stream_never_parses_witness:
  "\<exists>st'. on_read_some 0 0 [SRecv 0 [1, 0], SRecv 1 [0, 0, 5]] (SStream_new [] 80) = Some (True, [], st')"
  using stream_never_parses [of "[(0, [1, 0]), (1, [0, 0, 5])]" 0 0 "[]" 80] by auto

end
