(* ===== verification/Ss_Server.thy ===== *)
theory Ss_Server
  imports Ss_Stream
begin

unbundle bit_operations_syntax

text \<open>
  The stream server around its streams: the epoll loop (\<^verbatim>\<open>src/epoll_event.h\<close>), connections
  (\<^verbatim>\<open>src/epoll_connection.h\<close>), the listening socket (\<^verbatim>\<open>src/tcp_listen.h\<close>), the server
  (\<^verbatim>\<open>src/tcp_server.h\<close>), \<^verbatim>\<open>src/common.h\<close>, \<^verbatim>\<open>src/main.cpp\<close> and the timer \<^verbatim>\<open>src/statictics.h\<close>. Results
  of system calls are arguments. \<open>SEventInfo\<close> objects live in a typed heap, so that an access after
  \<open>delete\<close> is visible as \<^term>\<open>None\<close>, which also stands for a second \<open>delete\<close> of an object and the use of
  an uninitialised variable.
\<close>

section \<open>Events\<close>

definition EPOLLIN :: "32 word" where
  "EPOLLIN = 1"

definition EPOLLOUT :: "32 word" where
  "EPOLLOUT = 4"

definition EPOLLET :: "32 word" where
  "EPOLLET = 0x80000000"

text \<open>What \<open>std::bind\<close> made: \<open>STCPServer::accept_callback\<close>, or \<open>conn_callback\<close> of the connection on a descriptor.\<close>

datatype EventCallback = AcceptCallback | ConnCallback int

record SEventInfo =
  ei_fd :: int
  ei_events :: "32 word"
  ei_callback :: EventCallback

text \<open>
  A connection. \<open>_dst_ip\<close> and \<open>_dst_port\<close> are kept with the stream that reads them. \<open>ec_owners\<close> counts
  the groups of shared pointers that own the object: \<open>shared_ptr(this)\<close> starts a new group.
\<close>

record SEpollConnection =
  ec_sockfd :: int
  ec_streamsp :: SStream
  ec_event_infosp :: SEventInfo
  ec_owners :: nat

record ss_server =
  sv_epfd :: int
  sv_listenfd :: int
  sv_infos :: "SEventInfo heap"
  sv_next :: addr
  sv_epoll :: "int \<Rightarrow> (32 word \<times> addr) option"
  sv_conns :: "int \<Rightarrow> SEpollConnection option"
  sv_requests :: "SBinaryRequest list"

definition ss_server_new :: "int \<Rightarrow> ss_server" where
  "ss_server_new garbage = \<lparr>sv_epfd = - 1, sv_listenfd = garbage, sv_infos = Map.empty, sv_next = 1, sv_epoll = Map.empty,
     sv_conns = Map.empty, sv_requests = []\<rparr>"

text \<open>The results of the system calls that handling one event can make.\<close>

record ss_env =
  en_accept :: int
  en_ip :: string
  en_port :: int
  en_ctl :: int
  en_recv :: "ss_recv list"
  en_now :: int
  en_garbage :: int

section \<open>SEpollEvent\<close>

definition epoll_init :: "int \<Rightarrow> ss_server \<Rightarrow> bool \<times> ss_server" where
  "epoll_init epollfd s = (if epollfd < 0 then (False, s) else (True, s\<lparr>sv_epfd := epollfd\<rparr>))"

definition add_event :: "int \<Rightarrow> SEventInfo \<Rightarrow> ss_server \<Rightarrow> bool \<times> ss_server" where
  "add_event ctl info s =
     (let ptr = sv_next s;
          s = s\<lparr>sv_infos := (sv_infos s)(ptr \<mapsto> info), sv_next := Suc ptr\<rparr>
      in if ctl < 0 then (False, s)
         else (True, s\<lparr>sv_epoll := (sv_epoll s)(ei_fd info \<mapsto> (ei_events info, ptr))\<rparr>))"

text \<open>After a successful \<open>EPOLL_CTL_DEL\<close> the code reads \<open>event.data.ptr\<close>, which nothing has assigned.\<close>

definition remove_event :: "int \<Rightarrow> SEventInfo \<Rightarrow> ss_server \<Rightarrow> (bool \<times> ss_server) option" where
  "remove_event ctl info s = (if ctl < 0 then Some (False, s) else None)"

section \<open>SEpollConnection\<close>

definition SEpollConnection_new :: "int \<Rightarrow> SEpollConnection" where
  "SEpollConnection_new fd = \<lparr>ec_sockfd = fd, ec_streamsp = SStream_new [] 0,
     ec_event_infosp = \<lparr>ei_fd = fd, ei_events = EPOLLIN OR EPOLLOUT OR EPOLLET, ei_callback = ConnCallback fd\<rparr>,
     ec_owners = 1\<rparr>"

definition set_dst_ip :: "string \<Rightarrow> SEpollConnection \<Rightarrow> SEpollConnection" where
  "set_dst_ip ip c = c\<lparr>ec_streamsp := (ec_streamsp c)\<lparr>st_dst_ip := ip\<rparr>\<rparr>"

definition set_dst_port :: "int \<Rightarrow> SEpollConnection \<Rightarrow> SEpollConnection" where
  "set_dst_port port c = c\<lparr>ec_streamsp := (ec_streamsp c)\<lparr>st_dst_port := port\<rparr>\<rparr>"

definition get_dst_ip :: "SEpollConnection \<Rightarrow> string" where
  "get_dst_ip c = st_dst_ip (ec_streamsp c)"

definition get_dst_port :: "SEpollConnection \<Rightarrow> int" where
  "get_dst_port c = st_dst_port (ec_streamsp c)"

definition register_event :: "int \<Rightarrow> SEpollConnection \<Rightarrow> ss_server \<Rightarrow> bool \<times> ss_server" where
  "register_event ctl c s = add_event ctl (ec_event_infosp c) s"

definition conn_on_close :: "int \<Rightarrow> SEpollConnection \<Rightarrow> ss_server \<Rightarrow> ss_server option" where
  "conn_on_close ctl c s = do {
     (removed, s) \<leftarrow> remove_event ctl (ec_event_infosp c) s;
     Some s
   }"

text \<open>The last pointer of one group goes away: with another group left, the object is deleted twice.\<close>

definition drop_connection :: "SEpollConnection \<Rightarrow> ss_server \<Rightarrow> ss_server option" where
  "drop_connection c s = (if ec_owners c = 1 then Some s else None)"

section \<open>STCPServer\<close>

definition create_connection :: "int \<Rightarrow> SEpollConnection" where
  "create_connection clientfd = (let c = SEpollConnection_new clientfd in c\<lparr>ec_owners := ec_owners c + 1\<rparr>)"

text \<open>
  \<open>ntohl\<close> of a 16 bit port in network byte order, on a little endian machine: the two bytes of the port
  end up in the upper half of the result.
\<close>

definition ntohl_port :: "int \<Rightarrow> int" where
  "ntohl_port port = sint (push_bit 16 (word_of_int port) :: 32 word)"

definition check_connection_avalible :: "SEpollConnection \<Rightarrow> bool" where
  "check_connection_avalible c = True"

definition accept_callback :: "ss_env \<Rightarrow> ss_server \<Rightarrow> ss_server option" where
  "accept_callback env s =
     (let clientfd = en_accept env in
      if clientfd \<le> 0 then Some s
      else let conn = set_dst_port (ntohl_port (en_port env)) (set_dst_ip (en_ip env) (create_connection clientfd)) in
        if \<not> check_connection_avalible conn then drop_connection conn s
        else case register_event (en_ctl env) conn s of (registered, s) \<Rightarrow>
          if registered
          then do {
            s \<leftarrow> (case sv_conns s clientfd of None \<Rightarrow> Some s | Some old \<Rightarrow> drop_connection old s);
            Some (s\<lparr>sv_conns := (sv_conns s)(clientfd \<mapsto> conn)\<rparr>)
          }
          else drop_connection conn s)"

definition release_connection :: "int \<Rightarrow> SEpollConnection \<Rightarrow> ss_server \<Rightarrow> ss_server option" where
  "release_connection ctl c s = do {
     s \<leftarrow> conn_on_close ctl c s;
     drop_connection c (s\<lparr>sv_conns := (sv_conns s)(ec_sockfd c := None)\<rparr>)
   }"

definition conn_callback :: "ss_env \<Rightarrow> int \<Rightarrow> 32 word \<Rightarrow> ss_server \<Rightarrow> ss_server option" where
  "conn_callback env fd events s = do {
     c \<leftarrow> sv_conns s fd;
     (if events AND EPOLLIN \<noteq> 0
      then do {
        (released, requests, st) \<leftarrow> on_read_some (en_garbage env) (en_now env) (en_recv env) (ec_streamsp c);
        let c = c\<lparr>ec_streamsp := st\<rparr>;
        let s = s\<lparr>sv_requests := sv_requests s @ requests\<rparr>;
        (if released then release_connection (en_ctl env) c s else Some (s\<lparr>sv_conns := (sv_conns s)(fd \<mapsto> c)\<rparr>))
      }
      else Some s)
   }"

text \<open>
  One event of \<open>event_run\<close>: the pointer stored with the registration is read and written, the callback
  runs, and the temporary \<open>SEventInfoSP(info)\<close>, the only owner, deletes the object. The kernel reports
  registered descriptors only.
\<close>

definition dispatch :: "ss_env \<Rightarrow> int \<Rightarrow> 32 word \<Rightarrow> ss_server \<Rightarrow> ss_server option" where
  "dispatch env fd events s = (case sv_epoll s fd of
     None \<Rightarrow> Some s
   | Some (_, ptr) \<Rightarrow> do {
       infos \<leftarrow> modify ptr (\<lambda>i. i\<lparr>ei_events := events\<rparr>) (sv_infos s);
       let s = s\<lparr>sv_infos := infos\<rparr>;
       callback \<leftarrow> field ei_callback (sv_infos s) ptr;
       s \<leftarrow> (case callback of AcceptCallback \<Rightarrow> accept_callback env s | ConnCallback c \<Rightarrow> conn_callback env c events s);
       Some (s\<lparr>sv_infos := (sv_infos s)(ptr := None)\<rparr>)
     })"

text \<open>The rounds of \<open>event_run\<close>: \<open>epoll_wait\<close> fails with an error number, or reports events. Errors are only logged.\<close>

datatype wait_result = WaitErr int | Ready "(ss_env \<times> int \<times> 32 word) list"

fun event_round :: "wait_result \<Rightarrow> ss_server \<Rightarrow> ss_server option" where
  "event_round (WaitErr e) s = Some s"
| "event_round (Ready es) s = fold_opt (\<lambda>(env, fd, events). dispatch env fd events) es s"

definition event_run :: "wait_result list \<Rightarrow> ss_server \<Rightarrow> ss_server option" where
  "event_run ws s = fold_opt event_round ws s"

section \<open>STCPListen and the start of the server\<close>

record start_results =
  sr_epoll :: int
  sr_socket :: int
  sr_bind :: int
  sr_ctl :: int

definition start_listen :: "start_results \<Rightarrow> ss_server \<Rightarrow> bool \<times> ss_server" where
  "start_listen r s = (let sockfd = sr_socket r in
     if sockfd < 0 then (False, s)
     else if sr_bind r < 0 then (False, s)
     else (True, s\<lparr>sv_listenfd := sockfd\<rparr>))"

definition register_listen_event :: "start_results \<Rightarrow> ss_server \<Rightarrow> ss_server" where
  "register_listen_event r s = snd (add_event (sr_ctl r)
     \<lparr>ei_fd = sv_listenfd s, ei_events = EPOLLIN OR EPOLLET, ei_callback = AcceptCallback\<rparr> s)"

definition server_start :: "int \<Rightarrow> start_results \<Rightarrow> wait_result list \<Rightarrow> (bool \<times> ss_server) option" where
  "server_start garbage r ws =
     (let s = ss_server_new garbage in
      case epoll_init (sr_epoll r) s of (ok, s) \<Rightarrow>
        if \<not> ok then Some (False, s)
        else case start_listen r s of (ok, s) \<Rightarrow>
          if \<not> ok then Some (False, s)
          else map_option (Pair True) (event_run ws (register_listen_event r s)))"

text \<open>The union of \<^verbatim>\<open>src/common.h\<close> is initialised through its \<open>int32_t\<close>; \<open>b\<close> is the byte at the lowest address.\<close>

definition is_little_endian :: "bool \<Rightarrow> bool" where
  "is_little_endian little = (let bytes = (if little then [1, 0, 0, 0 :: 8 word] else [0, 0, 0, 1]) in bytes ! 0 \<noteq> 1)"

text \<open>\<open>None\<close>: the program exits with 1 without starting; otherwise what \<open>start\<close> does.\<close>

definition ss_main :: "bool \<Rightarrow> int \<Rightarrow> start_results \<Rightarrow> wait_result list \<Rightarrow> (bool \<times> ss_server) option option" where
  "ss_main little garbage r ws = (if is_little_endian little then None else Some (server_start garbage r ws))"

section \<open>Statictics\<close>

definition rdtsc :: "32 word \<Rightarrow> 32 word \<Rightarrow> 64 word" where
  "rdtsc lo hi = push_bit 32 (ucast hi) OR ucast lo"

definition elapse :: "64 word \<Rightarrow> 64 word \<Rightarrow> 64 word" where
  "elapse start end' = start - end'"

section \<open>A registration serves one event\<close>

text \<open>The descriptor is registered with an object that has been deleted.\<close>

definition dead :: "int \<Rightarrow> addr \<Rightarrow> ss_server \<Rightarrow> bool" where
  "dead fd ptr s \<longleftrightarrow> map_option snd (sv_epoll s fd) = Some ptr \<and> sv_infos s ptr = None \<and> ptr < sv_next s"

definition live_at :: "int \<Rightarrow> addr \<Rightarrow> ss_server \<Rightarrow> bool" where
  "live_at fd ptr s \<longleftrightarrow> map_option snd (sv_epoll s fd) = Some ptr \<and> ptr < sv_next s"

lemma add_event_parts:
  assumes "add_event ctl info s = (ok, s')"
  shows "ptr < sv_next s \<Longrightarrow> sv_infos s' ptr = sv_infos s ptr \<and> ptr < sv_next s'"
    "fd \<noteq> ei_fd info \<Longrightarrow> sv_epoll s' fd = sv_epoll s fd"
    "sv_conns s' = sv_conns s"
  using assms by (auto simp: add_event_def Let_def split: if_splits)

lemma accept_callback_parts:
  assumes "accept_callback env s = Some s'"
  shows "ptr < sv_next s \<Longrightarrow> sv_infos s' ptr = sv_infos s ptr \<and> ptr < sv_next s'"
    "fd \<noteq> en_accept env \<Longrightarrow> sv_epoll s' fd = sv_epoll s fd"
proof -
  let ?conn = "set_dst_port (ntohl_port (en_port env)) (set_dst_ip (en_ip env) (create_connection (en_accept env)))"
  have info: "ei_fd (ec_event_infosp ?conn) = en_accept env"
    by (simp add: set_dst_port_def set_dst_ip_def create_connection_def SEpollConnection_new_def Let_def)
  obtain ok u where u: "register_event (en_ctl env) ?conn s = (ok, u)" by (cases "register_event (en_ctl env) ?conn s")
  have eq: "s' = s \<or> sv_infos s' = sv_infos u \<and> sv_epoll s' = sv_epoll u \<and> sv_next s' = sv_next u"
    using assms u by (auto simp: accept_callback_def Let_def drop_connection_def check_connection_avalible_def
      bind_Some_iff split: if_splits option.splits)
  note parts = add_event_parts [OF u [unfolded register_event_def]]
  show "ptr < sv_next s \<Longrightarrow> sv_infos s' ptr = sv_infos s ptr \<and> ptr < sv_next s'" using eq parts(1) by auto
  show "fd \<noteq> en_accept env \<Longrightarrow> sv_epoll s' fd = sv_epoll s fd" using eq parts(2) [unfolded info] by auto
qed

lemma conn_callback_parts:
  "conn_callback env c ev s = Some s' \<Longrightarrow> sv_infos s' = sv_infos s \<and> sv_epoll s' = sv_epoll s \<and> sv_next s' = sv_next s"
  by (auto simp: conn_callback_def release_connection_def conn_on_close_def remove_event_def drop_connection_def
    bind_Some_iff Let_def split: if_splits)

lemma dispatch_parts:
  assumes "dispatch env fd ev s = Some s'" "en_accept env \<noteq> fd'" "ptr < sv_next s"
  shows "sv_epoll s' fd' = sv_epoll s fd' \<and> ptr < sv_next s' \<and>
    (sv_infos s ptr = None \<or> live_at fd ptr s \<longrightarrow> sv_infos s' ptr = None)"
proof (cases "sv_epoll s fd")
  case None
  with assms show ?thesis by (auto simp: dispatch_def live_at_def)
next
  case (Some mp)
  then obtain m p where mp: "sv_epoll s fd = Some (m, p)" by (cases mp) auto
  with assms(1) obtain infos cb u where st: "modify p (\<lambda>i. i\<lparr>ei_events := ev\<rparr>) (sv_infos s) = Some infos"
    "(case cb of AcceptCallback \<Rightarrow> accept_callback env (s\<lparr>sv_infos := infos\<rparr>)
      | ConnCallback c \<Rightarrow> conn_callback env c ev (s\<lparr>sv_infos := infos\<rparr>)) = Some u"
    "s' = u\<lparr>sv_infos := (sv_infos u)(p := None)\<rparr>"
    by (auto simp: dispatch_def bind_Some_iff Let_def)
  have "sv_epoll u fd' = sv_epoll s fd' \<and> ptr < sv_next u \<and> sv_infos u ptr = infos ptr"
    using st(2) assms(2,3) accept_callback_parts [of env "s\<lparr>sv_infos := infos\<rparr>" u] conn_callback_parts [of env _ ev "s\<lparr>sv_infos := infos\<rparr>" u]
    by (cases cb) auto
  moreover have "infos ptr = None \<longleftrightarrow> sv_infos s ptr = None"
    using modify_dom [OF st(1)] by (metis domIff)
  ultimately show ?thesis using mp by (auto simp: st(3) live_at_def)
qed

lemma dispatch_kills:
  "dispatch env fd ev s = Some s' \<Longrightarrow> en_accept env \<noteq> fd \<Longrightarrow> live_at fd ptr s \<Longrightarrow> dead fd ptr s'"
  using dispatch_parts [of env fd ev s s' fd ptr] by (auto simp: live_at_def dead_def)

lemma dispatch_keeps_dead:
  "dispatch env fd' ev s = Some s' \<Longrightarrow> en_accept env \<noteq> fd \<Longrightarrow> dead fd ptr s \<Longrightarrow> dead fd ptr s'"
  using dispatch_parts [of env fd' ev s s' fd ptr] by (auto simp: dead_def)

lemma dispatch_keeps_live:
  "dispatch env fd' ev s = Some s' \<Longrightarrow> en_accept env \<noteq> fd \<Longrightarrow> live_at fd ptr s \<Longrightarrow> live_at fd ptr s'"
  using dispatch_parts [of env fd' ev s s' fd ptr] by (auto simp: live_at_def)

lemma dispatch_dead: "dead fd ptr s \<Longrightarrow> dispatch env fd ev s = None"
  by (auto simp: dead_def dispatch_def modify_dangling)

section \<open>Runs\<close>

fun events_of :: "wait_result list \<Rightarrow> (ss_env \<times> int \<times> 32 word) list" where
  "events_of [] = []"
| "events_of (WaitErr e # ws) = events_of ws"
| "events_of (Ready es # ws) = es @ events_of ws"

lemma event_run_events: "event_run ws s = fold_opt (\<lambda>(env, fd, ev). dispatch env fd ev) (events_of ws) s"
  by (induction ws arbitrary: s rule: events_of.induct) (auto simp: event_run_def fold_opt_append intro!: arg_cong [where f = "Option.bind _"] ext)

lemma second_event_faults:
  assumes "live_at fd ptr s" "\<forall>(env, f, ev) \<in> set (xs @ (env1, fd, ev1) # ys). en_accept env \<noteq> fd"
  shows "fold_opt (\<lambda>(env, fd, ev). dispatch env fd ev) (xs @ (env1, fd, ev1) # ys @ (env2, fd, ev2) # zs) s = None"
proof (rule ccontr)
  let ?d = "\<lambda>(env, fd, ev). dispatch env fd ev"
  assume "\<not> ?thesis"
  then obtain a b c where run: "fold_opt ?d xs s = Some a" "dispatch env1 fd ev1 a = Some b"
      "fold_opt ?d ys b = Some c" "dispatch env2 fd ev2 c \<noteq> None"
    by (auto simp: fold_opt_append bind_Some_iff)
  have "live_at fd ptr a"
    by (rule fold_opt_inv [where I = "live_at fd ptr", OF run(1) assms(1)]) (use assms(2) dispatch_keeps_live in fastforce)
  then have "dead fd ptr b" using dispatch_kills [OF run(2)] assms(2) by auto
  then have dead: "dead fd ptr c"
    by (rule fold_opt_inv [where I = "dead fd ptr", OF run(3)]) (use assms(2) dispatch_keeps_dead in fastforce)
  show False using run(4) dispatch_dead [OF dead] by simp
qed

text \<open>The state in which a server whose system calls succeed enters its loop.\<close>

definition listening :: "start_results \<Rightarrow> ss_server" where
  "listening r = \<lparr>sv_epfd = sr_epoll r, sv_listenfd = sr_socket r,
     sv_infos = [1 \<mapsto> \<lparr>ei_fd = sr_socket r, ei_events = EPOLLIN OR EPOLLET, ei_callback = AcceptCallback\<rparr>], sv_next = 2,
     sv_epoll = [sr_socket r \<mapsto> (EPOLLIN OR EPOLLET, 1)], sv_conns = Map.empty, sv_requests = []\<rparr>"

definition start_ok :: "start_results \<Rightarrow> bool" where
  "start_ok r \<longleftrightarrow> 0 \<le> sr_epoll r \<and> 0 \<le> sr_socket r \<and> 0 \<le> sr_bind r \<and> 0 \<le> sr_ctl r"

lemma server_start_ok: "start_ok r \<Longrightarrow> server_start garbage r ws = map_option (Pair True) (event_run ws (listening r))"
  by (simp add: start_ok_def server_start_def epoll_init_def start_listen_def register_listen_event_def add_event_def
    ss_server_new_def listening_def numeral_2_eq_2)

lemma listening_live: "live_at (sr_socket r) 1 (listening r)"
  by (simp add: live_at_def listening_def)

text \<open>The first event on the listening socket, with a client.\<close>

definition first_conn :: "ss_env \<Rightarrow> SEpollConnection" where
  "first_conn env = set_dst_port (ntohl_port (en_port env)) (set_dst_ip (en_ip env) (create_connection (en_accept env)))"

definition accepted :: "start_results \<Rightarrow> ss_env \<Rightarrow> ss_server" where
  "accepted r env = (listening r)\<lparr>sv_infos := [2 \<mapsto> ec_event_infosp (first_conn env)], sv_next := 3,
     sv_epoll := [sr_socket r \<mapsto> (EPOLLIN OR EPOLLET, 1), en_accept env \<mapsto> (EPOLLIN OR EPOLLET OR EPOLLOUT, 2)],
     sv_conns := [en_accept env \<mapsto> first_conn env]\<rparr>"

lemma first_conn_info: "ec_event_infosp (first_conn env) =
    \<lparr>ei_fd = en_accept env, ei_events = EPOLLIN OR EPOLLET OR EPOLLOUT, ei_callback = ConnCallback (en_accept env)\<rparr>"
    "ec_sockfd (first_conn env) = en_accept env" "ec_owners (first_conn env) = 2"
    "ec_streamsp (first_conn env) = SStream_new (en_ip env) (ntohl_port (en_port env))"
  by (simp_all add: first_conn_def set_dst_port_def set_dst_ip_def create_connection_def SEpollConnection_new_def
    Let_def SStream_new_def or.commute or.left_commute)

lemma dispatch_accept:
  assumes "0 < en_accept env" "0 \<le> en_ctl env" "en_accept env \<noteq> sr_socket r"
  shows "dispatch env (sr_socket r) ev (listening r) = Some (accepted r env)"
proof -
  have "accept_callback env u = Some (u\<lparr>sv_infos := (sv_infos u)(sv_next u \<mapsto> ec_event_infosp (first_conn env)),
      sv_next := Suc (sv_next u), sv_epoll := (sv_epoll u)(en_accept env \<mapsto> (EPOLLIN OR EPOLLET OR EPOLLOUT, sv_next u)),
      sv_conns := (sv_conns u)(en_accept env \<mapsto> first_conn env)\<rparr>)" if "sv_conns u (en_accept env) = None" for u
    using assms that first_conn_info(1) [of env]
    by (simp add: accept_callback_def Let_def first_conn_def check_connection_avalible_def register_event_def add_event_def)
  then show ?thesis
    by (simp add: dispatch_def listening_def accepted_def Let_def fun_upd_twist numeral_3_eq_3 numeral_2_eq_2)
qed

lemma dispatch_data:
  assumes "\<forall>c\<in>set cs. snd c \<noteq> []" "en_recv env' = map (\<lambda>(b, d). SRecv b d) cs" "ev AND EPOLLIN \<noteq> 0"
    "en_accept env \<noteq> sr_socket r"
  shows "if 4 \<le> length (concat (map snd cs)) then dispatch env' (en_accept env) ev (accepted r env) = None
    else \<exists>s. dispatch env' (en_accept env) ev (accepted r env) = Some s \<and> sv_requests s = [] \<and>
      dom (sv_conns s) = {en_accept env}"
proof -
  let ?st = "SStream_new (en_ip env) (ntohl_port (en_port env))"
  have new: "st_parser ?st = None" "st_magic_string_recieve_size ?st = 0" by (simp_all add: SStream_new_def)
  obtain st where "on_read_some (en_garbage env') (en_now env') (en_recv env') ?st =
      Some (\<not> int (length (concat (map snd cs))) < 4, [], st)"
    using on_read_without_parser [of ?st cs "en_garbage env'" "en_now env'"] assms(1) new unfolding assms(2) by auto
  then show ?thesis
    using assms(3,4)
    by (auto simp: dispatch_def accepted_def listening_def Let_def first_conn_info conn_callback_def release_connection_def
      conn_on_close_def remove_event_def drop_connection_def simp del: length_concat split: if_splits)
qed

section \<open>Properties\<close>

text \<open>
  C31: The server can serve its listening socket once. \<open>event_run\<close> wraps the raw \<open>SEventInfo\<close> of a
  registration into a shared pointer that deletes it after the callback, while the kernel keeps the
  pointer. Whatever else happens in between, the second event on the listening socket reads the deleted
  object: every run in which the socket is reported twice is undefined (as long as \<open>accept\<close> does not
  return the listening descriptor itself).
\<close>
theorem second_accept_undefined:
  assumes "start_ok r" "events_of ws = xs @ (env1, sr_socket r, ev1) # ys @ (env2, sr_socket r, ev2) # zs"
    "\<forall>(env, fd, ev) \<in> set (events_of ws). en_accept env \<noteq> sr_socket r"
  shows "server_start garbage r ws = None"
proof -
  have "\<forall>(env, fd, ev) \<in> set (xs @ (env1, sr_socket r, ev1) # ys). en_accept env \<noteq> sr_socket r"
    using assms(3) unfolding assms(2) by auto
  from second_event_faults [OF listening_live this]
  show ?thesis unfolding server_start_ok [OF assms(1)] event_run_events assms(2) by simp
qed

definition ss_demo_env :: "int \<Rightarrow> ss_env" where
  "ss_demo_env fd = \<lparr>en_accept = fd, en_ip = ''10.0.0.1'', en_port = 80, en_ctl = 0, en_recv = [], en_now = 0, en_garbage = 0\<rparr>"

definition ss_demo_start :: start_results where
  "ss_demo_start = \<lparr>sr_epoll = 3, sr_socket = 4, sr_bind = 0, sr_ctl = 0\<rparr>"

theorem second_accept_undefined_witness:
  "server_start 0 ss_demo_start [Ready [(ss_demo_env 5, 4, 1)], WaitErr 4, Ready [(ss_demo_env 6, 4, 1)]] = None"
  using second_accept_undefined [of ss_demo_start
      "[Ready [(ss_demo_env 5, 4, 1)], WaitErr 4, Ready [(ss_demo_env 6, 4, 1)]]" "[]" "ss_demo_env 5" 1 "[]" "ss_demo_env 6" 1 "[]" 0]
  by (simp add: ss_demo_start_def ss_demo_env_def start_ok_def)

text \<open>
  C30: The first client. When the system calls of its start succeed, the server's first event on the
  listening socket registers the client and stores the connection, with the
  client's address and with its port number shifted into the upper half word. The first event on the
  connection then keeps it when fewer than four bytes have come, and no request is made of them; with
  four or more bytes the release of the connection is undefined.
\<close>
theorem server_first_client:
  assumes "start_ok r" "0 < en_accept env" "0 \<le> en_ctl env" "en_accept env \<noteq> sr_socket r"
    "\<forall>c\<in>set cs. snd c \<noteq> []" "en_recv env' = map (\<lambda>(b, d). SRecv b d) cs" "ev' AND EPOLLIN \<noteq> 0"
  shows "\<exists>s c. server_start garbage r [Ready [(env, sr_socket r, ev)]] = Some (True, s) \<and>
    sv_conns s = [en_accept env \<mapsto> c] \<and> get_dst_ip c = en_ip env \<and>
    get_dst_port c = sint (word_of_int (65536 * en_port env) :: 32 word) \<and>
    (if 4 \<le> length (concat (map snd cs)) then event_run [Ready [(env', en_accept env, ev')]] s = None
     else \<exists>s'. event_run [Ready [(env', en_accept env, ev')]] s = Some s' \<and> sv_requests s' = [] \<and>
       dom (sv_conns s') = {en_accept env})"
proof -
  have "server_start garbage r [Ready [(env, sr_socket r, ev)]] = Some (True, accepted r env)"
    unfolding server_start_ok [OF assms(1)] by (simp add: event_run_events dispatch_accept [OF assms(2-4)])
  moreover have "sv_conns (accepted r env) = [en_accept env \<mapsto> first_conn env]" by (simp add: accepted_def)
  moreover have "get_dst_ip (first_conn env) = en_ip env"
    "get_dst_port (first_conn env) = sint (word_of_int (65536 * en_port env) :: 32 word)"
    by (simp_all add: get_dst_ip_def get_dst_port_def first_conn_info SStream_new_def ntohl_port_def push_bit_eq_mult mult.commute)
  moreover have "event_run [Ready [(env', en_accept env, ev')]] (accepted r env) =
      dispatch env' (en_accept env) ev' (accepted r env)"
    by (cases "dispatch env' (en_accept env) ev' (accepted r env)") (simp_all add: event_run_events)
  ultimately show ?thesis using dispatch_data [OF assms(5-7) assms(4)] by auto
qed

theorem server_first_client_witness:
  "\<exists>s c. server_start 0 ss_demo_start [Ready [(ss_demo_env 5, 4, 1)]] = Some (True, s) \<and> sv_conns s = [5 \<mapsto> c] \<and>
     get_dst_ip c = ''10.0.0.1'' \<and> get_dst_port c = 5242880 \<and>
     event_run [Ready [((ss_demo_env 0)\<lparr>en_recv := [SRecv 0 [1, 0, 0, 0, 12]]\<rparr>, 5, 1)]] s = None"
  using server_first_client [of ss_demo_start "ss_demo_env 5" "[(0, [1, 0, 0, 0, 12])]"
      "(ss_demo_env 0)\<lparr>en_recv := [SRecv 0 [1, 0, 0, 0, 12]]\<rparr>" 1 0 1]
  by (simp add: ss_demo_start_def ss_demo_env_def start_ok_def EPOLLIN_def)

text \<open>
  \<open>is_little_endian\<close> answers the opposite of its name, and \<open>main\<close> tests the opposite of what it
  prints, so together they start the server exactly on little endian machines. The timer subtracts the
  wrong way round: what it reports is \<open>2^64\<close> minus the elapsed cycles.
\<close>
theorem endian_and_timer:
  assumes "start < end'"
  shows "(ss_main little garbage r ws = None \<longleftrightarrow> \<not> little) \<and> is_little_endian little = (\<not> little) \<and>
    unat (elapse start end') = 2 ^ 64 - (unat end' - unat start)"
proof -
  have "unat start < unat end'" using assms by (simp add: word_less_nat_alt)
  then have "unat (elapse start end') = 2 ^ 64 - (unat end' - unat start)"
    unfolding elapse_def unat_sub_if' by simp
  then show ?thesis by (simp add: ss_main_def is_little_endian_def)
qed

theorem endian_and_timer_witness: "unat (elapse 100 350) = 2 ^ 64 - 250"
  using endian_and_timer [of 100 350 True 0 ss_demo_start "[]"] by simp

end
