(* ===== verification/Spec2Isabelle.thy ===== *)
theory Spec2Isabelle
  imports Mg_Pool Mg_Rbtree Mg_Log Util_Algorithm Util_Lock Util_Buffer Util_Hash Util_Multi Util_Ip
    Gen_Leetcode Gen_Helloworld Gen_Outfile Gen_Ebpf Rpc_Main Rpc_Client Rpc_Send Rpc_Accessors
    Ss_Server
begin

text \<open>
  A verification library for the C and C++ code of mg\_raffle: a C toolbox (\<^verbatim>\<open>core/\<close>), a C++ toolbox of
  header files (\<^verbatim>\<open>utils/\<close>), an RPC server with its client (\<^verbatim>\<open>gencode/mg_server/\<close>), an event-driven stream
  server (\<^verbatim>\<open>src/\<close>) and some exercise programs (\<^verbatim>\<open>gencode/\<close>). The toolboxes are libraries of independent
  parts; each server is a stack: a buffer pool, a message parser on its buffers, connections that own a
  parser, and an event loop that feeds them what the sockets deliver.

  \<^bold>\<open>Conventions.\<close> A function of the source is a definition of the same name (a prefix or suffix where the
  name clashes). State is a record that is passed and returned. Objects shared by pointers live in typed
  heaps, address 0 is null (\<open>Mg_Prelude\<close>); arrays read by index and \<open>int\<close> arithmetic are in \<open>C_Arrays\<close>.
  \<^term>\<open>None\<close> is what the language leaves undefined (a null or dangling pointer, an index out of range, a
  failed assertion, a second \<open>delete\<close>) or a loop without end; errors the code reports are values. Loops that may run forever are \<open>partial_function (option)\<close> without
  fuel, so that a theorem that a routine returns is proved as \<open>= Some\<close> and one that it does not as \<open>= None\<close>;
  all other loops are total functions. Sizes are words where wrap-around matters and mathematical
  integers elsewhere. System calls and the C library's \<open>malloc\<close> are arguments: their results, or a script of
  results in the order of the calls. The protobuf runtime, which is not part of the repository, is a
  record of functions whose documented behaviour is the locale \<open>protobuf_runtime\<close>; the definition
  \<open>wire_runtime\<close> (the wire format) shows that it can hold.

  \<^bold>\<open>Interfaces.\<close> The locales are \<open>ring_list\<close> (circular lists; interpreted by \<^verbatim>\<open>core/mg_list\<close>), \<open>sorted_set\<close>
  (theory \<open>Sorted_Set\<close>; interpreted by the tree of \<^verbatim>\<open>utils/rbtree.h\<close>), \<open>chunk_source\<close> (zero-copy input, theory
  \<open>Zero_Copy\<close>; interpreted by the read buffers of both servers), \<open>protobuf_runtime\<close>, \<open>string_field\<close> (optional
  string fields of a message; interpreted by the fields of \<^verbatim>\<open>rpc.pb.h\<close>) and \<open>region_allocator\<close> (allocators that hand out disjoint regions; interpreted by the arena of \<^verbatim>\<open>utils/buffer.h\<close>).

  \<^bold>\<open>core/.\<close>
  \<^item> \<open>Mg_List\<close>: \<^verbatim>\<open>mg_list.h\<close>, \<^verbatim>\<open>mg_list.c\<close>. The pushes and the removal refine operations on the abstract
    sequence of a ring.
  \<^item> \<open>Mg_Pool\<close>: \<^verbatim>\<open>mg_pool.h\<close>. Allocations with at most one small request are disjoint; the second small allocation and the
    destruction of a pool with blocks are undefined.
  \<^item> \<open>Mg_Rbtree\<close>: \<^verbatim>\<open>mg_rbtree.h\<close>, on the linked trees of \<open>Rb_Links\<close>. Rotations keep the in-order sequence;
    insertion replaces the root; deletion next to an inner nephew is undefined.
  \<^item> \<open>Mg_Log\<close>: \<^verbatim>\<open>mg_log.c\<close>, \<^verbatim>\<open>mg_log.h\<close>, and helpers of \<^verbatim>\<open>mg_time.h\<close> and \<^verbatim>\<open>mg_core.h\<close>. What is printed by level, the
    error codes, the limits.

  \<^bold>\<open>utils/.\<close>
  \<^item> \<open>Util_Rbtree\<close>: \<^verbatim>\<open>rbtree.h\<close>, also on \<open>Rb_Links\<close>. \<open>insert\<close> lacks a \<open>return\<close>, so that a call that adds a second value is
    undefined; its statements (\<open>insert_body\<close>) refine a sorted set, and searches find
    exactly what was stored; what insertion and deletion do wrong.
  \<^item> \<open>Util_Algorithm\<close>: \<^verbatim>\<open>algorithm.h\<close>. Sifting restores a heap (up to \<open>2 ^ 30\<close> elements, where its indexes overflow), and the heap sort either sorts or reads
    behind its array; the other sorting routines do not return; the eight queens search is exact.
  \<^item> \<open>Util_Lock\<close>: \<^verbatim>\<open>lock.h\<close>, \<^verbatim>\<open>connection_pool.h\<close> and the queue of \<^verbatim>\<open>algorithm.h\<close>, as step relations of
    interleaved threads. Mutual exclusion, no lost update, no lost or shared connection, and
    whoever waits can still get in.
  \<^item> \<open>Util_Buffer\<close>: \<^verbatim>\<open>buffer.h\<close>. The arena's invariant and its allocations.
  \<^item> \<open>Util_Hash\<close>: \<^verbatim>\<open>hash.h\<close>. The hash is injective in the seed and in every aligned group of four bytes.
  \<^item> \<open>Util_Multi\<close>: \<^verbatim>\<open>multi.h\<close>. When the parent returns from \<open>multi_create\<close>, and that the wait for threads is inverted.
  \<^item> \<open>Util_Ip\<close>: \<^verbatim>\<open>ip.h\<close>, with the conversion \<open>%d\<close> of \<open>sscanf\<close>. The texts \<open>ipvalid\<close> accepts, exactly.

  \<^bold>\<open>gencode/mg_server/.\<close>
  \<^item> \<open>Rpc_Buffer\<close>: \<^verbatim>\<open>server/buffer_manager.h\<close>, \<^verbatim>\<open>.cpp\<close>. Read buffers deliver all bytes; what goes wrong when
    buffers are recycled.
  \<^item> \<open>Rpc_Parser\<close>: \<^verbatim>\<open>server/parser.cpp\<close>, \<^verbatim>\<open>request.h\<close> and \<open>parse_connection\<close> of \<^verbatim>\<open>main.cpp\<close>. A frame cut into any
    chunks gives exactly one request with its bytes; a second frame does not.
  \<^item> \<open>Rpc_Message\<close>: \<^verbatim>\<open>server/rpc.pb.cpp\<close>. Round trip and size of the messages.
  \<^item> \<open>Rpc_Accessors\<close>: \<^verbatim>\<open>server/rpc.pb.h\<close>. Any sequence of accessor calls acts on independent optional fields.
  \<^item> \<open>Rpc_Server\<close>: \<^verbatim>\<open>server/connection.cpp\<close>, \<^verbatim>\<open>connection_manager.cpp\<close>, \<^verbatim>\<open>hello_rpc_task.cpp\<close>, the handlers of
    \<^verbatim>\<open>main.cpp\<close> and \<^verbatim>\<open>client/client.cpp\<close>. The hello call is answered end to end.
  \<^item> \<open>Rpc_Send\<close>: what \<open>SendBuf\<close> of \<^verbatim>\<open>connection.cpp\<close> sends of a queue of buffers, with partial sends.
  \<^item> \<open>Rpc_Client\<close>: \<open>main\<close> of \<^verbatim>\<open>client/client.cpp\<close>. Its error exits and what it prints of an answer.
  \<^item> \<open>Rpc_Main\<close>: the rest of \<^verbatim>\<open>main.cpp\<close>, \<^verbatim>\<open>listen.cpp\<close> and \<^verbatim>\<open>epoll_event.cpp\<close>. What every event does to the
    connection table, and which connections are destroyed; the supervisor restarts exactly what ended.

  \<^bold>\<open>src/.\<close>
  \<^item> \<open>Ss_Buffer\<close>: \<^verbatim>\<open>buffer.h\<close>. Size classes and the bounds of the buffers, whatever \<open>malloc\<close> calls fail.
  \<^item> \<open>Ss_Stream\<close>: \<^verbatim>\<open>stream.h\<close>, \<^verbatim>\<open>binary_stream_parser.h\<close>, \<^verbatim>\<open>binary_request.h\<close>. No stream ever parses a message.
    Two places of these headers do not compile (\<open>ReadBuffer::Next\<close>, and the branch of \<open>parser_msg\<close> for the message
    body); their definitions \<open>rb_Next\<close> and \<open>parser_message\<close> say what is meant, and no property is about them.
  \<^item> \<open>Ss_Server\<close>: \<^verbatim>\<open>epoll_event.h\<close>, \<^verbatim>\<open>epoll_connection.h\<close>, \<^verbatim>\<open>tcp_listen.h\<close>, \<^verbatim>\<open>tcp_server.h\<close>, \<^verbatim>\<open>main.cpp\<close>. The first
    client is served, the second event of a descriptor is undefined.

  \<^bold>\<open>gencode/leetcode/.\<close> \<open>Gen_Leetcode\<close>: \<open>pivotIndex\<close> is correct, the option table is spelled out correctly,
  \<open>longestPalindrome\<close> is not correct.

  \<^bold>\<open>gencode/mg_server/helloworld.cpp, gencode/outfile/.\<close> \<open>Gen_Helloworld\<close>: the maximum segment sum and the number
  of increments are optimal, the rotation is right for coprime distances, the search may not return.
  \<open>Gen_Outfile\<close>: the five ways of writing leave the same data, and the mapping is never removed.

  \<^bold>\<open>gencode/ebpf/.\<close> \<open>Gen_Ebpf\<close>: the echo client \<^verbatim>\<open>call.cpp\<close> for any input and any replies, and the exit codes of
  the loader \<^verbatim>\<open>prog_user.cpp\<close>.

  \<^bold>\<open>Across components.\<close> This theory proves that the arena, used by any number of threads under the spin
  lock, hands out disjoint regions.

  \<^bold>\<open>Not modelled.\<close> The vendored libbpf headers; the copies
  of the generated messages in \<^verbatim>\<open>client/\<close> and \<^verbatim>\<open>proto/\<close>; \<^verbatim>\<open>utils/hashtable.h\<close>, which is not well-formed C++;
  the network programs and the design pattern samples, which only call the system or print; headers with
  declarations or printing only; the parts in other languages. Memory ordering is
  sequentially consistent, as the atomic operations the code uses by default.
\<close>

section \<open>The arena under the spin lock\<close>

text \<open>
  One \<open>allocate\<close> of thread \<open>t\<close> on the regions handed out so far and the pool: the work the thread does
  inside its \<open>SpinLock\<close> scope.
\<close>

definition locked_allocate :: "allocator \<Rightarrow> (nat \<Rightarrow> 64 word) \<Rightarrow> nat \<Rightarrow> region list \<times> BufferPool \<Rightarrow> region list \<times> BufferPool" where
  "locked_allocate al sizes t = (\<lambda>(rs, p). case allocate al (sizes t) p of
     None \<Rightarrow> (rs, p)
   | Some (a, p') \<Rightarrow> ((a, unat (sizes t)) # rs, p'))"

lemma locked_allocate_ok:
  assumes "malloc_ok al" "arena_ok (snd d) (fst d)"
  shows "arena_ok (snd (fold (locked_allocate al sizes) ts d)) (fst (fold (locked_allocate al sizes) ts d))"
  using assms(2)
proof (induction ts arbitrary: d)
  case (Cons t ts)
  have "arena_ok (snd (locked_allocate al sizes t d)) (fst (locked_allocate al sizes t d))"
    using Cons.prems allocate_ok [OF assms(1)]
    by (cases d) (auto simp: locked_allocate_def split: option.splits)
  then show ?case using Cons.IH by simp
qed simp

lemma locked_allocate_all:
  assumes "\<forall>bs n. al bs n \<noteq> NULL" "\<forall>t. 0 < sizes t"
  shows "map snd (fst (fold (locked_allocate al sizes) ts d)) = rev (map (\<lambda>t. unat (sizes t)) ts) @ map snd (fst d)"
proof (induction ts arbitrary: d)
  case (Cons t ts)
  obtain a p' where "allocate al (sizes t) (snd d) = Some (a, p')"
    using allocate_total [OF assms(1), of "sizes t" "snd d"] assms(2) by blast
  then have "fst (locked_allocate al sizes t d) = (a, unat (sizes t)) # fst d"
    by (cases d) (simp add: locked_allocate_def)
  then show ?case using Cons.IH by simp
qed simp

text \<open>
  C15: Threads that call \<open>allocate\<close> on one arena, each inside a \<open>SpinLock\<close> scope, never get overlapping
  memory. However their steps interleave, every finished call has been handed one region of the size it
  asked for, all these regions are pairwise disjoint, and each lies in a block of the pool.
\<close>
theorem arena_under_lock:
  assumes "malloc_ok al" "\<forall>bs n. al bs n \<noteq> NULL" "\<forall>t. 0 < sizes t"
    "(spin_step (locked_allocate al sizes))\<^sup>*\<^sup>* (spin_init ([], BufferPool_new)) s"
  shows "pairwise_disjoint (fst (ss_data s)) \<and>
    map snd (fst (ss_data s)) = rev (map (\<lambda>t. unat (sizes t)) (ss_done s)) \<and>
    list_all (\<lambda>r. list_ex (subregion r) (ub_buffer_pool (snd (ss_data s)))) (fst (ss_data s))"
proof -
  have "spin_inv (locked_allocate al sizes) ([], BufferPool_new) s"
    by (rule spin_inv_reachable [OF assms(4) spin_inv_init])
  then have d: "ss_data s = fold (locked_allocate al sizes) (ss_done s) ([], BufferPool_new)"
    by (simp add: spin_inv_def)
  have "arena_ok (snd (ss_data s)) (fst (ss_data s))"
    unfolding d by (rule locked_allocate_ok [OF assms(1)]) (simp add: arena_ok_new)
  moreover have "map snd (fst (ss_data s)) = rev (map (\<lambda>t. unat (sizes t)) (ss_done s))"
    unfolding d using locked_allocate_all [OF assms(2,3)] by simp
  ultimately show ?thesis by (simp add: arena_ok_def)
qed

text \<open>Thread 1 has allocated and left; thread 2 is inside.\<close>

lemma scope_run:
  assumes "ss_scope s t = NoGuard" "\<not> sm_mutex (ss_mtx s)"
  shows "(spin_step work)\<^sup>*\<^sup>* s (s\<lparr>ss_mtx := \<lparr>sm_mutex = True\<rparr>, ss_scope := (ss_scope s)(t := Stored),
    ss_data := work t (ss_data s), ss_done := ss_done s @ [t]\<rparr>)"
proof -
  let ?a = "s\<lparr>ss_scope := (ss_scope s)(t := Locking)\<rparr>"
  let ?b = "?a\<lparr>ss_mtx := \<lparr>sm_mutex = True\<rparr>, ss_scope := (ss_scope s)(t := Guarded)\<rparr>"
  let ?c = "?b\<lparr>ss_scope := (ss_scope s)(t := Loaded (ss_data s))\<rparr>"
  have "spin_step work s ?a" by (rule spin_step.construct [OF assms(1)])
  moreover have "spin_step work ?a ?b"
    using spin_step.enter [of ?a t "\<lparr>sm_mutex = True\<rparr>" work] assms(2) by (simp add: test_and_set_def)
  moreover have "spin_step work ?b ?c" using spin_step.load_data [of ?b t work] by simp
  moreover have "spin_step work ?c (s\<lparr>ss_mtx := \<lparr>sm_mutex = True\<rparr>, ss_scope := (ss_scope s)(t := Stored),
      ss_data := work t (ss_data s), ss_done := ss_done s @ [t]\<rparr>)"
    using spin_step.store_data [of ?c t "ss_data s" work] by simp
  ultimately show ?thesis by (meson r_into_rtranclp rtranclp_trans)
qed

definition arena_demo :: "(region list \<times> BufferPool) spin_sys" where
  "arena_demo = (let s = spin_init ([], BufferPool_new) in
     s\<lparr>ss_mtx := \<lparr>sm_mutex = True\<rparr>, ss_scope := (ss_scope s)(1 := Stored),
       ss_data := locked_allocate bump_malloc (\<lambda>_. 100) 1 (ss_data s), ss_done := [1]\<rparr>)"

theorem arena_under_lock_witness:
  "pairwise_disjoint (fst (ss_data arena_demo)) \<and> map snd (fst (ss_data arena_demo)) = [100]"
proof -
  have "(spin_step (locked_allocate bump_malloc (\<lambda>_. 100)))\<^sup>*\<^sup>* (spin_init ([], BufferPool_new)) arena_demo"
    using scope_run [of "spin_init ([], BufferPool_new)" 1 "locked_allocate bump_malloc (\<lambda>_. 100)"]
    by (simp add: arena_demo_def spin_init_def SpinMutex_new_def Let_def)
  from arena_under_lock [OF bump_malloc_ok bump_malloc_total _ this]
  show ?thesis by (simp add: arena_demo_def Let_def)
qed

end
